(* ===== verification/Prelude.thy ===== *)
theory Prelude
  imports Main "HOL-Library.Word"
begin

text \<open>
  What every component of the development shares: the byte type, the exceptions of the
  Python code as values, the chunking idiom \<^verbatim>\<open>for i in range(0, len(d), n): d[i:i+n]\<close>
  (used by the RMS gateway, the B2F framing, the AX.25 stream and the BLE bridge), the
  arithmetic of modulo-8 sequence numbers, and the fact collections that the
  component proofs use.
\<close>

unbundle bit_operations_syntax

named_theorems seq8 \<open>arithmetic of modulo-8 sequence numbers\<close>
named_theorems py_eval \<open>unfolding rules that evaluate the Python string functions\<close>

type_synonym byte = "8 word"
type_synonym bytes = "8 word list"

section \<open>Exceptions as values\<close>

text \<open>\<open>AppError c m\<close> is an exception class \<open>c\<close> of the program itself.\<close>

datatype exn =
    ValueError string
  | IndexError
  | TypeError string
  | ConnectionError string
  | TimeoutError string
  | OverflowError
  | OSError string
  | AppError string string

type_synonym 'a result = "exn + 'a"

definition rbind :: "'e + 'a \<Rightarrow> ('a \<Rightarrow> 'e + 'b) \<Rightarrow> 'e + 'b" where
  "rbind r f = (case r of Inl e \<Rightarrow> Inl e | Inr x \<Rightarrow> f x)"

lemma rbind_simps [simp]:
  "rbind (Inl e) f = Inl e"
  "rbind (Inr x) f = f x"
  by (simp_all add: rbind_def)

lemma rbind_eq_Inr: "rbind r f = Inr y \<longleftrightarrow> (\<exists>x. r = Inr x \<and> f x = Inr y)"
  by (cases r) auto

fun rmap :: "('a \<Rightarrow> 'e + 'b) \<Rightarrow> 'a list \<Rightarrow> 'e + 'b list" where
  "rmap f [] = Inr []"
| "rmap f (x # xs) = rbind (f x) (\<lambda>y. rbind (rmap f xs) (\<lambda>ys. Inr (y # ys)))"

lemma rmap_Inr: "(\<And>x. x \<in> set xs \<Longrightarrow> f x = Inr (g x)) \<Longrightarrow> rmap f xs = Inr (map g xs)"
  by (induction xs) auto

section \<open>State and exceptions\<close>

text \<open>A method that changes an object and may raise: what it did before raising stays done.\<close>

type_synonym ('s, 'a) sx = "'s \<Rightarrow> 'a result \<times> 's"

definition sret :: "'a \<Rightarrow> ('s, 'a) sx" where
  "sret x s = (Inr x, s)"

definition sbind :: "('s, 'a) sx \<Rightarrow> ('a \<Rightarrow> ('s, 'b) sx) \<Rightarrow> ('s, 'b) sx" where
  "sbind m k s = (case m s of (Inl e, s1) \<Rightarrow> (Inl e, s1) | (Inr x, s1) \<Rightarrow> k x s1)"

lemma sret_eq [simp]: "sret x s = (Inr x, s)"
  by (simp add: sret_def)

lemma sbind_Inr: "m s = (Inr x, s1) \<Longrightarrow> sbind m k s = k x s1"
  by (simp add: sbind_def)

lemma sbind_Inl: "m s = (Inl e, s1) \<Longrightarrow> sbind m k s = (Inl e, s1)"
  by (simp add: sbind_def)

section \<open>Chunking\<close>

text \<open>
  The slices \<^verbatim>\<open>d[i:i+n] for i in range(0, len(d), n)\<close>, for a step \<open>n > 0\<close>.
  (Python refuses a step of 0; no caller passes it.)
\<close>

function chunks :: "nat \<Rightarrow> 'a list \<Rightarrow> 'a list list" where
  "chunks n xs = (if xs = [] \<or> n = 0 then [] else take n xs # chunks n (drop n xs))"
  by pat_completeness auto
termination
  by (relation "measure (\<lambda>(n, xs). length xs)") auto

declare chunks.simps [simp del]

lemma chunks_Nil [simp]: "chunks n [] = []"
  by (simp add: chunks.simps)

lemma chunks_rec: "xs \<noteq> [] \<Longrightarrow> 0 < n \<Longrightarrow> chunks n xs = take n xs # chunks n (drop n xs)"
  by (simp add: chunks.simps)

lemma concat_chunks [simp]: "0 < n \<Longrightarrow> concat (chunks n xs) = xs"
proof (induction n xs rule: chunks.induct)
  case (1 n xs)
  then show ?case by (cases "xs = []") (simp_all add: chunks_rec)
qed

lemma chunks_bounds: "c \<in> set (chunks n xs) \<Longrightarrow> c \<noteq> [] \<and> length c \<le> n"
proof (induction n xs rule: chunks.induct)
  case (1 n xs)
  show ?case
  proof (cases "xs = [] \<or> n = 0")
    case True
    with "1.prems" show ?thesis by (auto simp: chunks.simps)
  next
    case False
    with "1.prems" have "c = take n xs \<or> c \<in> set (chunks n (drop n xs))"
      by (simp add: chunks_rec)
    with False "1.IH" show ?thesis by auto
  qed
qed

lemma chunks_short: "xs \<noteq> [] \<Longrightarrow> length xs \<le> n \<Longrightarrow> chunks n xs = [xs]"
  by (cases "n = 0") (auto simp: chunks.simps [of n xs])

section \<open>Modulo-8 sequence numbers\<close>

text \<open>The code writes \<^verbatim>\<open>x & 7\<close>; on natural numbers and integers this is \<open>mod 8\<close>.\<close>

lemma and7_nat [seq8]: "(x::nat) AND 7 = x mod 8"
proof -
  have "x AND mask 3 = take_bit 3 x" by (simp only: take_bit_eq_mask)
  then show ?thesis by (simp add: mask_eq_exp_minus_1 take_bit_eq_mod)
qed

lemma and7_int [seq8]: "(x::int) AND 7 = x mod 8"
proof -
  have "x AND mask 3 = take_bit 3 x" by (simp only: take_bit_eq_mask)
  then show ?thesis by (simp add: mask_eq_exp_minus_1 take_bit_eq_mod)
qed

lemma not_8_le_mod [simp]: "\<not> 8 \<le> (n::nat) mod 8"
  by (simp add: not_le)

lemma mod8_near_eq:
  fixes k n :: nat
  assumes "k mod 8 = n mod 8" and "k < n + 8" and "n < k + 8"
  shows "k = n"
proof -
  define a b r where "a = k div 8" and "b = n div 8" and "r = k mod 8"
  have k: "k = 8 * a + r" and n: "n = 8 * b + r"
    using assms(1) mult_div_mod_eq [of 8 k] mult_div_mod_eq [of 8 n]
    by (simp_all only: a_def b_def r_def)
  have "8 * a < 8 * (b + 1)" and "8 * b < 8 * (a + 1)"
    using assms(2,3) unfolding k n by simp_all
  then show ?thesis unfolding k n by simp
qed

section \<open>Bytes\<close>

lemma even_and_1: "(w::'a::len word) AND 1 = 0 \<longleftrightarrow> even w"
  by (simp add: and_one_eq even_iff_mod_2_eq_zero)

lemma low_nibble_shifted: "push_bit 4 (w::byte) AND 15 = 0"
proof (rule bit_word_eqI)
  fix n assume "n < LENGTH(8)"
  have "bit (15::byte) n \<longleftrightarrow> n < 4"
    using bit_mask_iff [of 4 n, where 'a = byte] \<open>n < LENGTH(8)\<close>
    by (simp add: mask_eq_exp_minus_1)
  then show "bit (push_bit 4 w AND 15) n = bit (0::byte) n"
    by (auto simp: bit_and_iff bit_push_bit_iff)
qed

end
