(* ===== verification/Py_Str.thy ===== *)
theory Py_Str
  imports Prelude "HOL-Library.Char_ord"
begin

text \<open>
  The Python string and bytes methods the sources call, on \<^typ>\<open>string\<close>. A character
  is a code point below 256; case conversion (\<open>upper\<close>, \<open>lower\<close>) is Python's on
  ASCII, the range of callsigns, locators and protocol lines, and leaves other
  characters alone. White space is Python's \<^verbatim>\<open>str.isspace\<close> on that range.
  \<open>py_int\<close> is \<^verbatim>\<open>int(s)\<close>: surrounding white space, a sign, digits with single
  underscores between them, \<^const>\<open>None\<close> for ValueError.
\<close>

section \<open>Characters\<close>

definition ord :: "char \<Rightarrow> nat" where
  "ord c = of_char c"

definition chr :: "nat \<Rightarrow> char" where
  "chr n = char_of n"

definition is_space :: "char \<Rightarrow> bool" where
  "is_space c \<longleftrightarrow> (let n = ord c in
     (9 \<le> n \<and> n \<le> 13) \<or> (28 \<le> n \<and> n \<le> 32) \<or> n = 133 \<or> n = 160)"

definition is_digit :: "char \<Rightarrow> bool" where
  "is_digit c \<longleftrightarrow> 48 \<le> ord c \<and> ord c \<le> 57"

definition is_upper :: "char \<Rightarrow> bool" where
  "is_upper c \<longleftrightarrow> 65 \<le> ord c \<and> ord c \<le> 90"

definition is_lower :: "char \<Rightarrow> bool" where
  "is_lower c \<longleftrightarrow> 97 \<le> ord c \<and> ord c \<le> 122"

definition is_alnum :: "char \<Rightarrow> bool" where
  "is_alnum c \<longleftrightarrow> is_digit c \<or> is_upper c \<or> is_lower c"

definition upper_char :: "char \<Rightarrow> char" where
  "upper_char c = (if is_lower c then chr (ord c - 32) else c)"

definition lower_char :: "char \<Rightarrow> char" where
  "lower_char c = (if is_upper c then chr (ord c + 32) else c)"

lemma ord_less [simp]: "ord c < 256"
  by (simp add: ord_def)

lemma ord_chr: "n < 256 \<Longrightarrow> ord (chr n) = n"
  by (simp add: ord_def chr_def)

lemma chr_ord [simp]: "chr (ord c) = c"
  by (simp add: ord_def chr_def)

lemma ord_eq_iff: "ord c = ord d \<longleftrightarrow> c = d"
  by (metis chr_ord)

lemma is_upper_not_lower: "is_upper c \<Longrightarrow> \<not> is_lower c"
  by (simp add: is_upper_def is_lower_def)

lemma is_digit_not_lower: "is_digit c \<Longrightarrow> \<not> is_lower c"
  by (simp add: is_digit_def is_lower_def)

lemma upper_char_id: "\<not> is_lower c \<Longrightarrow> upper_char c = c"
  by (simp add: upper_char_def)

lemma upper_char_not_lower: "\<not> is_lower (upper_char c)"
  by (auto simp: upper_char_def is_lower_def ord_chr)

lemma upper_char_idem [simp]: "upper_char (upper_char c) = upper_char c"
  by (rule upper_char_id) (rule upper_char_not_lower)

lemma is_space_upper_char [simp]: "is_space (upper_char c) = is_space c"
  by (auto simp: upper_char_def is_lower_def is_space_def ord_chr Let_def)

lemma alnum_not_space: "is_alnum c \<Longrightarrow> \<not> is_space c"
  by (auto simp: is_alnum_def is_digit_def is_upper_def is_lower_def is_space_def Let_def)

section \<open>Stripping, case, padding\<close>

definition lstrip :: "string \<Rightarrow> string" where
  "lstrip s = dropWhile is_space s"

definition rstrip :: "string \<Rightarrow> string" where
  "rstrip s = rev (dropWhile is_space (rev s))"

definition strip :: "string \<Rightarrow> string" where
  "strip s = rstrip (lstrip s)"

definition upper :: "string \<Rightarrow> string" where
  "upper s = map upper_char s"

definition lower :: "string \<Rightarrow> string" where
  "lower s = map lower_char s"

text \<open>\<^verbatim>\<open>s.ljust(n)\<close>, \<^verbatim>\<open>s.startswith(p)\<close>, \<^verbatim>\<open>s.endswith(p)\<close>, \<^verbatim>\<open>s.replace(c, r)\<close> for a
  single character \<open>c\<close>.\<close>

definition ljust :: "nat \<Rightarrow> string \<Rightarrow> string" where
  "ljust n s = s @ replicate (n - length s) CHR '' ''"

definition startswith :: "'a list \<Rightarrow> 'a list \<Rightarrow> bool" where
  "startswith p s \<longleftrightarrow> take (length p) s = p"

definition endswith :: "'a list \<Rightarrow> 'a list \<Rightarrow> bool" where
  "endswith p s \<longleftrightarrow> length p \<le> length s \<and> drop (length s - length p) s = p"

definition replace1 :: "'a \<Rightarrow> 'a list \<Rightarrow> 'a list \<Rightarrow> 'a list" where
  "replace1 c r s = concat (map (\<lambda>x. if x = c then r else [x]) s)"

lemma upper_simps [simp]:
  "upper [] = []" "upper (c # s) = upper_char c # upper s"
  "upper (s @ t) = upper s @ upper t" "length (upper s) = length s"
  by (simp_all add: upper_def)

lemma upper_idem [simp]: "upper (upper s) = upper s"
  by (simp add: upper_def)

lemma upper_id: "list_all (\<lambda>c. \<not> is_lower c) s \<Longrightarrow> upper s = s"
  by (induction s) (simp_all add: upper_char_id)

lemma strip_id:
  assumes "s \<noteq> []" and "\<not> is_space (hd s)" and "\<not> is_space (last s)"
  shows "strip s = s"
proof -
  from assms obtain c t where s: "s = c # t" "\<not> is_space c" by (cases s) auto
  then have l: "lstrip s = s" by (simp add: lstrip_def)
  from assms(1,3) have "dropWhile is_space (rev s) = rev s"
    by (cases "rev s") auto
  with l show ?thesis by (simp add: strip_def rstrip_def)
qed

lemma strip_id_alnum: "list_all (\<lambda>c. \<not> is_space c) s \<Longrightarrow> strip s = s"
  by (cases "s = []")
     (auto simp: strip_id list_all_iff, simp add: strip_def lstrip_def rstrip_def)

lemma strip_Nil [simp]: "strip [] = []"
  by (simp add: strip_def lstrip_def rstrip_def)

lemma dropWhile_space_upper: "dropWhile is_space (upper s) = upper (dropWhile is_space s)"
  by (induction s) simp_all

lemma rev_upper: "rev (upper s) = upper (rev s)"
  by (simp add: upper_def rev_map)

lemma strip_upper: "strip (upper s) = upper (strip s)"
  by (simp add: strip_def lstrip_def rstrip_def dropWhile_space_upper rev_upper)

lemma startswith_append [simp]: "startswith p (p @ s)"
  by (simp add: startswith_def)

lemma startswith_iff: "startswith p s \<longleftrightarrow> (\<exists>t. s = p @ t)"
  by (metis append_eq_conv_conj append_take_drop_id startswith_def)

lemma replace1_append: "replace1 c r (s @ t) = replace1 c r s @ replace1 c r t"
  by (simp add: replace1_def)

lemma replace1_simps [simp]:
  "replace1 c r [] = []"
  "replace1 c r (x # s) = (if x = c then r else [x]) @ replace1 c r s"
  by (simp_all add: replace1_def)

lemma replace1_id: "c \<notin> set s \<Longrightarrow> replace1 c r s = s"
  by (induction s) auto

lemma set_replace1: "c \<notin> set r \<Longrightarrow> c \<notin> set (replace1 c r s)"
  by (induction s) auto

section \<open>Splitting\<close>

text \<open>\<open>partition c s\<close> is \<^verbatim>\<open>s.partition(c)\<close> without the middle component: the part before
  the first \<open>c\<close>, whether there is one, and the part after it. \<open>rpartition\<close> takes the last.\<close>

fun partition_at :: "'a \<Rightarrow> 'a list \<Rightarrow> 'a list \<times> bool \<times> 'a list" where
  "partition_at c [] = ([], False, [])"
| "partition_at c (x # xs) =
     (if x = c then ([], True, xs)
      else (case partition_at c xs of (a, f, b) \<Rightarrow> (x # a, f, b)))"

definition rpartition_at :: "'a \<Rightarrow> 'a list \<Rightarrow> 'a list \<times> bool \<times> 'a list" where
  "rpartition_at c s = (case partition_at c (rev s) of
     (a, True, b) \<Rightarrow> (rev b, True, rev a)
   | (a, False, b) \<Rightarrow> ([], False, s))"

text \<open>\<^verbatim>\<open>s.split(c)\<close> for a one-character separator.\<close>

fun split_at :: "'a \<Rightarrow> 'a list \<Rightarrow> 'a list list" where
  "split_at c [] = [[]]"
| "split_at c (x # xs) =
     (if x = c then [] # split_at c xs
      else (case split_at c xs of [] \<Rightarrow> [[x]] | p # ps \<Rightarrow> (x # p) # ps))"

fun join :: "'a list \<Rightarrow> 'a list list \<Rightarrow> 'a list" where
  "join sep [] = []"
| "join sep [x] = x"
| "join sep (x # y # ys) = x @ sep @ join sep (y # ys)"

lemma partition_at_absent: "c \<notin> set s \<Longrightarrow> partition_at c s = (s, False, [])"
  by (induction s) auto

lemma partition_at_append: "c \<notin> set s \<Longrightarrow> partition_at c (s @ c # t) = (s, True, t)"
  by (induction s) auto

lemma rpartition_at_append: "c \<notin> set t \<Longrightarrow> rpartition_at c (s @ c # t) = (s, True, t)"
  by (simp add: rpartition_at_def partition_at_append)

lemma partition_at_notin: "partition_at c s = (a, f, b) \<Longrightarrow> c \<notin> set a"
  by (induction s arbitrary: a) (auto split: if_splits prod.splits)

lemma split_at_nonempty [simp]: "split_at c s \<noteq> []"
  by (induction s) (auto split: list.splits)

lemma split_at_absent: "c \<notin> set s \<Longrightarrow> split_at c s = [s]"
  by (induction s) auto

lemma split_at_append: "c \<notin> set s \<Longrightarrow> split_at c (s @ c # t) = s # split_at c t"
  by (induction s) auto

lemma hd_split_at: "hd (split_at c s) = takeWhile (\<lambda>x. x \<noteq> c) s"
  by (induction s) (auto split: list.splits)

lemma join_Cons_head: "join sep ((x # p) # ps) = x # join sep (p # ps)"
  by (cases ps) simp_all

lemma join_Nil_head: "ps \<noteq> [] \<Longrightarrow> join sep ([] # ps) = sep @ join sep ps"
  by (cases ps) simp_all

lemma join_split_at: "join [c] (split_at c s) = s"
  by (induction s) (auto simp: join_Cons_head join_Nil_head split: list.splits)

section \<open>Decimal numbers\<close>

fun show_nat :: "nat \<Rightarrow> string" where
  "show_nat n = (if n < 10 then [chr (48 + n)] else show_nat (n div 10) @ [chr (48 + n mod 10)])"

declare show_nat.simps [simp del]

definition show_int :: "int \<Rightarrow> string" where
  "show_int i = (if i < 0 then CHR ''-'' # show_nat (nat (- i)) else show_nat (nat i))"

definition digit_val :: "char \<Rightarrow> nat" where
  "digit_val c = ord c - 48"

fun dec_tail :: "nat \<Rightarrow> string \<Rightarrow> nat option" where
  "dec_tail acc [] = Some acc"
| "dec_tail acc (c # cs) =
     (if is_digit c then dec_tail (10 * acc + digit_val c) cs
      else if c = CHR ''_'' then
        (case cs of [] \<Rightarrow> None
         | d # ds \<Rightarrow> if is_digit d then dec_tail (10 * acc + digit_val d) ds else None)
      else None)"

definition dec_nat :: "string \<Rightarrow> nat option" where
  "dec_nat s = (case s of [] \<Rightarrow> None
     | c # cs \<Rightarrow> if is_digit c then dec_tail (digit_val c) cs else None)"

definition py_int :: "string \<Rightarrow> int option" where
  "py_int s = (let t = strip s in
     if startswith ''-'' t then map_option (\<lambda>n. - int n) (dec_nat (tl t))
     else if startswith ''+'' t then map_option int (dec_nat (tl t))
     else map_option int (dec_nat t))"

lemma is_digit_chr: "n < 10 \<Longrightarrow> is_digit (chr (48 + n)) \<and> digit_val (chr (48 + n)) = n"
  by (simp add: is_digit_def digit_val_def ord_chr)

lemma show_nat_digits: "list_all is_digit (show_nat n)"
proof (induction n rule: show_nat.induct)
  case (1 n)
  then show ?case
    by (subst show_nat.simps) (auto simp: is_digit_chr)
qed

lemma show_nat_nonempty [simp]: "show_nat n \<noteq> []"
  by (subst show_nat.simps) simp

lemma dec_tail_append_digit:
  "list_all is_digit s \<Longrightarrow> is_digit d \<Longrightarrow>
   dec_tail acc (s @ [d]) = map_option (\<lambda>n. 10 * n + digit_val d) (dec_tail acc s)"
  by (induction s arbitrary: acc) auto

lemma dec_nat_show_nat [simp]: "dec_nat (show_nat n) = Some n"
proof (induction n rule: show_nat.induct)
  case (1 n)
  show ?case
  proof (cases "n < 10")
    case True
    then show ?thesis
      by (subst show_nat.simps) (simp add: dec_nat_def is_digit_chr)
  next
    case False
    let ?d = "chr (48 + n mod 10)"
    have d: "is_digit ?d" "digit_val ?d = n mod 10"
      by (simp_all add: is_digit_chr)
    obtain c cs where c: "show_nat (n div 10) = c # cs"
      by (meson list.exhaust show_nat_nonempty)
    with show_nat_digits [of "n div 10"] have dig: "is_digit c" "list_all is_digit cs"
      by simp_all
    from False have "dec_nat (show_nat n) = dec_nat (c # cs @ [?d])"
      by (subst show_nat.simps) (simp add: c)
    also have "\<dots> = map_option (\<lambda>k. 10 * k + n mod 10) (dec_nat (c # cs))"
      using dig d by (simp add: dec_nat_def dec_tail_append_digit)
    also have "dec_nat (c # cs) = Some (n div 10)"
      using "1.IH" False c by simp
    finally show ?thesis by simp
  qed
qed

lemma digit_not_space: "is_digit c \<Longrightarrow> \<not> is_space c"
  by (rule alnum_not_space) (simp add: is_alnum_def)

lemma strip_show_nat [simp]: "strip (show_nat n) = show_nat n"
  using show_nat_digits [of n]
  by (intro strip_id_alnum) (auto simp: list_all_iff digit_not_space)

lemma show_nat_hd: "show_nat n = c # cs \<Longrightarrow> is_digit c"
  using show_nat_digits [of n] by simp

lemma py_int_show_nat [simp]: "py_int (show_nat n) = Some (int n)"
proof -
  obtain c cs where c: "show_nat n = c # cs" by (meson list.exhaust show_nat_nonempty)
  with show_nat_hd have "is_digit c" by blast
  then have "c \<noteq> CHR ''-''" "c \<noteq> CHR ''+''" by (auto simp: is_digit_def ord_def)
  then have "\<not> startswith ''-'' (show_nat n)" "\<not> startswith ''+'' (show_nat n)"
    by (simp_all add: c startswith_def)
  then show ?thesis by (simp add: py_int_def)
qed

lemma py_int_Nil [simp]: "py_int [] = None"
  by (simp add: py_int_def startswith_def dec_nat_def)

text \<open>The value of a digit string, most significant digit first.\<close>

definition dec_val :: "string \<Rightarrow> nat" where
  "dec_val s = foldl (\<lambda>a c. 10 * a + digit_val c) 0 s"

lemma dec_tail_foldl:
  "list_all is_digit s \<Longrightarrow> dec_tail acc s = Some (foldl (\<lambda>a c. 10 * a + digit_val c) acc s)"
  by (induction s arbitrary: acc) simp_all

lemma dec_nat_dec_val: "s \<noteq> [] \<Longrightarrow> list_all is_digit s \<Longrightarrow> dec_nat s = Some (dec_val s)"
  by (cases s) (simp_all add: dec_nat_def dec_val_def dec_tail_foldl)

lemma dec_val_append: "dec_val (s @ t) = dec_val s * 10 ^ length t + dec_val t"
proof (induction t rule: rev_induct)
  case (snoc d t)
  then show ?case by (simp add: dec_val_def algebra_simps flip: append_assoc)
qed (simp add: dec_val_def)

lemma dec_val_less: "list_all is_digit s \<Longrightarrow> dec_val s < 10 ^ length s"
proof (induction s rule: rev_induct)
  case (snoc d s)
  then have "digit_val d \<le> 9" "dec_val s < 10 ^ length s"
    by (auto simp: digit_val_def is_digit_def)
  then show ?case by (simp add: dec_val_def)
qed (simp add: dec_val_def)

lemma dec_val_show_nat [simp]: "dec_val (show_nat n) = n"
  using dec_nat_dec_val [OF show_nat_nonempty show_nat_digits, of n] by simp

lemma dec_val_drop_mod:
  "list_all is_digit s \<Longrightarrow> dec_val (drop k s) = dec_val s mod 10 ^ (length s - k)"
proof -
  assume s: "list_all is_digit s"
  then have "list_all is_digit (drop k s)" by (auto simp: list_all_iff dest: in_set_dropD)
  then have "dec_val (drop k s) < 10 ^ (length s - k)" using dec_val_less by fastforce
  moreover have "dec_val s = dec_val (take k s) * 10 ^ (length s - k) + dec_val (drop k s)"
    using dec_val_append [of "take k s" "drop k s"] by simp
  ultimately show ?thesis by simp
qed

lemmas char_class_defs =
  is_space_def is_digit_def is_upper_def is_lower_def is_alnum_def
  upper_char_def lower_char_def ord_def chr_def Let_def

declare char_class_defs [py_eval]
declare strip_def [py_eval] lstrip_def [py_eval] rstrip_def [py_eval]
  upper_def [py_eval] lower_def [py_eval] ljust_def [py_eval]
  startswith_def [py_eval] endswith_def [py_eval] replace1_def [py_eval]
  rpartition_at_def [py_eval] py_int_def [py_eval] dec_nat_def [py_eval]
  digit_val_def [py_eval] show_int_def [py_eval]
lemma replicate_eval [py_eval]:
  "replicate (numeral k) x = x # replicate (pred_numeral k) x"
  by (simp add: numeral_eq_Suc)

lemma show_nat_eval [py_eval]:
  "n < 10 \<Longrightarrow> show_nat n = [chr (48 + n)]"
  "10 \<le> n \<Longrightarrow> show_nat n = show_nat (n div 10) @ [chr (48 + n mod 10)]"
  by (simp_all add: show_nat.simps [of n])

declare char_of_def [py_eval] bit_0 [py_eval]

end
