(* ===== verification/Kiss.thy ===== *)
theory Kiss
  imports Prelude Py_Str
begin

text \<open>
  KISS framing (\<^verbatim>\<open>kiss_encode\<close> and \<^verbatim>\<open>KissDecoder\<close> of src/src/rms/ax25.py): the byte
  stuffing between the program and the Dire Wolf modem. The lemmas show that the decoder
  does not depend on how TCP cuts the stream, resynchronises on every FEND, and returns
  exactly the frames that were encoded. The locale \<open>framing\<close> states what the components
  above need of a framing codec; it is interpreted on this one.
\<close>

abbreviation FEND :: byte where "FEND \<equiv> 0xC0"
abbreviation FESC :: byte where "FESC \<equiv> 0xDB"
abbreviation TFEND :: byte where "TFEND \<equiv> 0xDC"
abbreviation TFESC :: byte where "TFESC \<equiv> 0xDD"

section \<open>Encoder\<close>

definition kiss_encode :: "bytes \<Rightarrow> int \<Rightarrow> bytes" where
  "kiss_encode frame port =
     (let data = [push_bit 4 (word_of_int port AND 0x0F)] @ frame;
          data = replace1 FEND [FESC, TFEND] (replace1 FESC [FESC, TFESC] data)
      in [FEND] @ data @ [FEND])"

section \<open>Decoder\<close>

record kiss_decoder =
  buf :: bytes
  esc :: bool

definition kiss_init :: kiss_decoder where
  "kiss_init = \<lparr>buf = [], esc = False\<rparr>"

text \<open>One iteration of the loop of \<open>feed\<close>: the next state and the frames it appends to \<open>out\<close>.\<close>

definition feed_byte :: "kiss_decoder \<Rightarrow> byte \<Rightarrow> kiss_decoder \<times> bytes list" where
  "feed_byte d b =
     (if b = FEND then
        (d\<lparr>buf := [], esc := False\<rparr>,
         (case buf d of [] \<Rightarrow> [] | p # rest \<Rightarrow> if p AND 0x0F = 0 then [rest] else []))
      else if esc d then
        (d\<lparr>buf := buf d @ [if b = TFEND then FEND else if b = TFESC then FESC else b],
           esc := False\<rparr>, [])
      else if b = FESC then (d\<lparr>esc := True\<rparr>, [])
      else (d\<lparr>buf := buf d @ [b]\<rparr>, []))"

fun kiss_feed :: "kiss_decoder \<Rightarrow> bytes \<Rightarrow> kiss_decoder \<times> bytes list" where
  "kiss_feed d [] = (d, [])"
| "kiss_feed d (b # bs) =
     (case feed_byte d b of (d', out) \<Rightarrow>
       (case kiss_feed d' bs of (d'', out') \<Rightarrow> (d'', out @ out')))"

section \<open>The stream is cut anywhere\<close>

lemma kiss_feed_append:
  "kiss_feed d (xs @ ys) =
     (let (d1, out1) = kiss_feed d xs; (d2, out2) = kiss_feed d1 ys in (d2, out1 @ out2))"
  by (induction xs arbitrary: d) (auto split: prod.splits)

text \<open>Feeding a list of TCP segments one after the other.\<close>

fun feed_segments :: "kiss_decoder \<Rightarrow> bytes list \<Rightarrow> kiss_decoder \<times> bytes list" where
  "feed_segments d [] = (d, [])"
| "feed_segments d (s # ss) =
     (case kiss_feed d s of (d', out) \<Rightarrow>
       (case feed_segments d' ss of (d'', out') \<Rightarrow> (d'', out @ out')))"

lemma feed_segments_concat: "feed_segments d ss = kiss_feed d (concat ss)"
  by (induction ss arbitrary: d) (auto simp: kiss_feed_append split: prod.splits)

section \<open>Round trip\<close>

text \<open>The two replacements are one pass of escaping.\<close>

definition stuff :: "byte \<Rightarrow> bytes" where
  "stuff x = (if x = FESC then [FESC, TFESC] else if x = FEND then [FESC, TFEND] else [x])"

lemma replace_twice: "replace1 FEND [FESC, TFEND] (replace1 FESC [FESC, TFESC] xs) = concat (map stuff xs)"
  by (induction xs) (auto simp: stuff_def replace1_append)

lemma kiss_encode_stuff:
  "kiss_encode frame port =
     FEND # concat (map stuff (push_bit 4 (word_of_int port AND 0x0F) # frame)) @ [FEND]"
  by (simp add: kiss_encode_def Let_def replace_twice del: replace1_simps)

lemma kiss_encode_nonempty [simp]: "kiss_encode f port \<noteq> []"
  by (simp add: kiss_encode_stuff)

lemma feed_stuff:
  "esc d = False \<Longrightarrow> kiss_feed d (concat (map stuff xs)) = (d\<lparr>buf := buf d @ xs\<rparr>, [])"
proof (induction xs arbitrary: d)
  case Nil
  then show ?case by simp
next
  case (Cons x xs)
  have one: "kiss_feed d (stuff x) = (d\<lparr>buf := buf d @ [x]\<rparr>, [])"
    using Cons.prems by (auto simp: stuff_def feed_byte_def)
  show ?case
    using Cons by (simp add: kiss_feed_append one)
qed

text \<open>
  Whatever the decoder holds, the opening FEND throws it out (as a frame of its own if its
  low nibble says port data), and then the encoded frame comes out.
\<close>

definition leftover :: "kiss_decoder \<Rightarrow> bytes list" where
  "leftover d = (case buf d of [] \<Rightarrow> [] | p # rest \<Rightarrow> if p AND 0x0F = 0 then [rest] else [])"

lemma feed_encoded:
  "kiss_feed d (kiss_encode frame port) = (d\<lparr>buf := [], esc := False\<rparr>, leftover d @ [frame])"
proof -
  let ?p = "push_bit 4 (word_of_int port AND 0x0F) :: byte"
  let ?d = "d\<lparr>buf := [], esc := False\<rparr>"
  have start: "feed_byte d FEND = (?d, leftover d)"
    by (simp add: feed_byte_def leftover_def)
  have body: "kiss_feed ?d (concat (map stuff (?p # frame))) = (?d\<lparr>buf := ?p # frame\<rparr>, [])"
    by (subst feed_stuff) simp_all
  show ?thesis
    by (simp only: kiss_encode_stuff kiss_feed.simps start prod.case kiss_feed_append body Let_def)
       (simp add: feed_byte_def and.assoc)
qed

lemma leftover_clean [simp]: "buf d = [] \<Longrightarrow> leftover d = []"
  by (simp add: leftover_def)

section \<open>The interface of a framing codec\<close>

text \<open>
  What the link-level components rely on: a decoder with a clean state that the encoder's
  output leaves clean, and that gives back the frames. \<open>clean\<close> is the decoder's invariant
  between whole frames.
\<close>

locale framing =
  fixes encode :: "'f \<Rightarrow> 'b list"
    and feed :: "'d \<Rightarrow> 'b list \<Rightarrow> 'd \<times> 'f list"
    and clean :: "'d \<Rightarrow> bool"
  assumes feed_app: "feed d (xs @ ys) =
      (let (d1, o1) = feed d xs; (d2, o2) = feed d1 ys in (d2, o1 @ o2))"
    and feed_empty: "feed d [] = (d, [])"
    and feed_frame: "clean d \<Longrightarrow> feed d (encode f) = (d, [f])"
begin

lemma feed_frames: "clean d \<Longrightarrow> feed d (concat (map encode fs)) = (d, fs)"
  by (induction fs) (simp_all add: feed_app feed_empty feed_frame)

end

definition kiss_clean :: "kiss_decoder \<Rightarrow> bool" where
  "kiss_clean d \<longleftrightarrow> buf d = [] \<and> \<not> esc d"

interpretation kissf: framing "\<lambda>f. kiss_encode f port" kiss_feed kiss_clean for port
  by unfold_locales (auto simp: kiss_feed_append kiss_clean_def feed_encoded split: prod.splits)

lemma kiss_init_clean [simp]: "kiss_clean kiss_init"
  by (simp add: kiss_clean_def kiss_init_def)

section \<open>Properties\<close>

text \<open>C24. KISS round trip over any TCP segmentation: if the segments that arrive add up to
  the encodings of the frames \<open>fs\<close>, a fresh decoder fed segment by segment returns exactly
  \<open>fs\<close>, in order, and is clean again.\<close>

theorem kiss_segments_roundtrip:
  assumes "concat ss = concat (map (\<lambda>f. kiss_encode f port) fs)"
  shows "feed_segments kiss_init ss = (kiss_init, fs)"
proof -
  have "feed_segments kiss_init ss = kiss_feed kiss_init (concat ss)"
    by (rule feed_segments_concat)
  also have "\<dots> = (kiss_init, fs)"
    unfolding assms by (rule kissf.feed_frames) simp
  finally show ?thesis .
qed

theorem kiss_segments_roundtrip_witness:
  "feed_segments kiss_init [[0xC0, 0x00, 0xDB], [0xDC, 0x41], [0xC0]] = (kiss_init, [[0xC0, 0x41]])"
  by (rule kiss_segments_roundtrip [where port = 0])
     (simp add: kiss_encode_def Let_def)

text \<open>KISS resynchronisation: after any garbage \<open>junk\<close> on the line, an encoded frame is
  still delivered, as the last frame that comes out, and the decoder is clean afterwards.\<close>

theorem kiss_resync:
  "\<exists>out. kiss_feed kiss_init (junk @ kiss_encode frame port) = (kiss_init, out @ [frame])"
proof -
  obtain d o1 where d: "kiss_feed kiss_init junk = (d, o1)" by fastforce
  have "d\<lparr>buf := [], esc := False\<rparr> = kiss_init"
    by (cases d) (simp add: kiss_init_def)
  then show ?thesis
    by (simp add: kiss_feed_append d feed_encoded)
qed

end
