(* ===== verification/Ax25.thy ===== *)
theory Ax25
  imports Kiss
begin

text \<open>
  AX.25 frames (src/src/rms/ax25.py): callsign fields, the address field with
  digipeaters, control bytes of the connected mode, \<^verbatim>\<open>make_frame\<close> and \<^verbatim>\<open>split_frame\<close>.
  Every \<^verbatim>\<open>raise\<close> of the code is an \<^const>\<open>Inl\<close>. The lemmas show that the control-byte
  builders and readers agree, that frames round-trip with their digipeater path, and that
  the command/response bits are those the AX.25 convention asks for.
\<close>

section \<open>Callsign fields\<close>

definition encode_call :: "string \<Rightarrow> bool \<Rightarrow> bool \<Rightarrow> bytes result" where
  "encode_call call0 last_bit command =
     (let call = strip (upper call0);
          (base, _, ssid_s) = partition_at CHR ''-'' call
      in case (if ssid_s = [] then Some 0 else py_int ssid_s) of
           None \<Rightarrow> Inl (ValueError ''invalid literal for int()'')
         | Some ssid \<Rightarrow>
             Inr (map (\<lambda>c. push_bit 1 (word_of_nat (ord c)) AND 0xFE) (ljust 6 (take 6 base))
                  @ [0x60 OR push_bit 1 (word_of_int (ssid AND 0x0F))
                     OR (if command then 0x80 else 0) OR (if last_bit then 1 else 0)]))"

definition decode_call :: "bytes \<Rightarrow> string result" where
  "decode_call a =
     (if length a < 7 then Inl IndexError
      else let base = strip (map (\<lambda>x. chr (unat (drop_bit 1 x))) (take 6 a));
               ssid = unat (drop_bit 1 (a ! 6) AND 0x0F)
           in Inr (if ssid \<noteq> 0 then base @ ''-'' @ show_nat ssid else base))"

section \<open>Control bytes\<close>

definition is_s :: "byte \<Rightarrow> bool" where "is_s c \<longleftrightarrow> c AND 0x03 = 0x01"
definition is_sabm :: "byte \<Rightarrow> bool" where "is_sabm c \<longleftrightarrow> c AND 0xEF = 0x2F"
definition is_disc :: "byte \<Rightarrow> bool" where "is_disc c \<longleftrightarrow> c AND 0xEF = 0x43"
definition is_ua :: "byte \<Rightarrow> bool" where "is_ua c \<longleftrightarrow> c AND 0xEF = 0x63"
definition is_i :: "byte \<Rightarrow> bool" where "is_i c \<longleftrightarrow> c AND 1 = 0"
definition poll_bit :: "byte \<Rightarrow> bool" where "poll_bit c \<longleftrightarrow> c AND 0x10 \<noteq> 0"
definition ns :: "byte \<Rightarrow> nat" where "ns c = unat (drop_bit 1 c AND 7)"
definition nr :: "byte \<Rightarrow> nat" where "nr c = unat (drop_bit 5 c AND 7)"

definition rr :: "nat \<Rightarrow> bool \<Rightarrow> byte" where
  "rr n pf = 0x01 OR push_bit 5 (word_of_nat n AND 7) OR (if pf then 0x10 else 0)"

definition iframe :: "nat \<Rightarrow> nat \<Rightarrow> bool \<Rightarrow> byte" where
  "iframe send recv pf =
     push_bit 1 (word_of_nat send AND 7) OR push_bit 5 (word_of_nat recv AND 7)
     OR (if pf then 0x10 else 0)"

abbreviation UA :: byte where "UA \<equiv> 0x63"
abbreviation DM :: byte where "DM \<equiv> 0x0F"
abbreviation DISC :: byte where "DISC \<equiv> 0x43"
abbreviation PID_NO_L3 :: int where "PID_NO_L3 \<equiv> 0xF0"

text \<open>The state of one link, as the gateway keeps it.\<close>

record link_state =
  remote :: string
  vs :: nat
  vr :: nat
  va :: nat

definition new_link :: "string \<Rightarrow> link_state" where
  "new_link src = \<lparr>remote = src, vs = 0, vr = 0, va = 0\<rparr>"

section \<open>Frames\<close>

definition make_frame ::
    "string \<Rightarrow> string \<Rightarrow> byte \<Rightarrow> bytes \<Rightarrow> int \<Rightarrow> bool \<Rightarrow> string list \<Rightarrow> bytes result" where
  "make_frame dest src ctrl payload pid response digis0 =
     (let digis = filter (\<lambda>d. d \<noteq> [] \<and> strip d \<noteq> []) digis0 in
      rbind (encode_call dest False (\<not> response)) (\<lambda>d.
      rbind (if digis \<noteq> [] then
               rbind (encode_call src False response) (\<lambda>s.
               rbind (rmap (\<lambda>k. encode_call (digis ! k) (k = length digis - 1) False)
                       [0..<length digis]) (\<lambda>ds.
               Inr (s @ concat ds)))
             else encode_call src True response) (\<lambda>srcs.
      if 256 \<le> pid then Inl (ValueError ''byte must be in range(0, 256)'')
      else Inr (d @ srcs @ [ctrl] @ (if 0 \<le> pid then [word_of_int pid] else []) @ payload))))"

text \<open>The address loop of \<^verbatim>\<open>split_frame\<close>: the addresses read so far and the rest of the frame.\<close>

fun split_addrs :: "string list \<Rightarrow> bytes \<Rightarrow> (string list \<times> bytes) result" where
  "split_addrs addrs (a0 # a1 # a2 # a3 # a4 # a5 # a6 # rest) =
     rbind (decode_call [a0, a1, a2, a3, a4, a5, a6]) (\<lambda>c.
       let addrs' = addrs @ [c] in
       if a6 AND 1 \<noteq> 0 then Inr (addrs', rest)
       else if 10 < length addrs' then Inl (ValueError ''too many AX.25 addresses'')
       else split_addrs addrs' rest)"
| "split_addrs addrs rest = Inl (ValueError ''truncated AX.25 address'')"

text \<open>A decoded frame: destination, source, digipeaters, control, PID (-1 for none), payload.\<close>

type_synonym ax25_frame = "string \<times> string \<times> string list \<times> byte \<times> int \<times> bytes"

definition split_frame :: "bytes \<Rightarrow> ax25_frame result" where
  "split_frame frame =
     (if length frame < 15 then Inl (ValueError ''short AX.25 frame'')
      else rbind (split_addrs [] frame) (\<lambda>(addrs, rest).
        if length addrs < 2 \<or> rest = [] then Inl (ValueError ''missing control'')
        else let ctrl = hd rest; rest1 = tl rest in
          if ctrl AND 1 = 0 \<or> ctrl = 0x03 then
            (case rest1 of [] \<Rightarrow> Inl (ValueError ''missing PID'')
             | pid # info \<Rightarrow> Inr (addrs ! 0, addrs ! 1, drop 2 addrs, ctrl, uint pid, info))
          else Inr (addrs ! 0, addrs ! 1, drop 2 addrs, ctrl, -1, rest1)))"

definition frame_command_bits :: "bytes \<Rightarrow> (bool \<times> bool) result" where
  "frame_command_bits frame =
     (if length frame < 14 then Inl IndexError
      else Inr (frame ! 6 AND 0x80 \<noteq> 0, frame ! 13 AND 0x80 \<noteq> 0))"

section \<open>Control bytes: builders and readers agree\<close>

lemma and_7_take_bit: "(w::byte) AND 7 = take_bit 3 w"
proof -
  have "take_bit 3 w = w AND mask 3" by (simp only: take_bit_eq_mask)
  then show ?thesis by (simp add: mask_eq_exp_minus_1)
qed

lemma unat_and_7: "unat ((w::byte) AND 7) = unat w mod 8"
  by (simp add: and_7_take_bit take_bit_eq_mod unat_mod)

lemma word_of_nat_and_7: "(word_of_nat n :: byte) AND 7 = word_of_nat (n mod 8)"
  by (simp add: word_unat_eq_iff unat_and_7 unat_of_nat mod_mod_cancel)

lemma iframe_mod: "iframe s r p = iframe (s mod 8) (r mod 8) p"
  by (simp add: iframe_def word_of_nat_and_7)

lemma rr_mod: "rr n p = rr (n mod 8) p"
  by (simp add: rr_def word_of_nat_and_7)

lemma less_8_cases: "(n::nat) < 8 \<Longrightarrow> n = 0 \<or> n = 1 \<or> n = 2 \<or> n = 3 \<or> n = 4 \<or> n = 5 \<or> n = 6 \<or> n = 7"
  by auto

lemmas ctrl_defs = is_i_def is_s_def is_sabm_def is_disc_def is_ua_def poll_bit_def ns_def nr_def

lemma iframe_small:
  assumes "s < 8" and "r < 8"
  shows "ns (iframe s r p) = s \<and> nr (iframe s r p) = r \<and> poll_bit (iframe s r p) = p
         \<and> is_i (iframe s r p) \<and> \<not> is_s (iframe s r p)"
  using less_8_cases [OF assms(1)] less_8_cases [OF assms(2)]
  by (elim disjE; cases p; simp add: iframe_def ctrl_defs)

lemma rr_small:
  assumes "n < 8"
  shows "nr (rr n p) = n \<and> poll_bit (rr n p) = p \<and> is_s (rr n p) \<and> \<not> is_i (rr n p)"
  using less_8_cases [OF assms] by (elim disjE; cases p; simp add: rr_def ctrl_defs)

lemma iframe_fields [seq8]:
  "ns (iframe s r p) = s mod 8" "nr (iframe s r p) = r mod 8" "poll_bit (iframe s r p) = p"
  "is_i (iframe s r p)" "\<not> is_s (iframe s r p)"
  using iframe_small [of "s mod 8" "r mod 8" p] by (simp_all flip: iframe_mod)

lemma rr_fields [seq8]:
  "nr (rr n p) = n mod 8" "poll_bit (rr n p) = p" "is_s (rr n p)" "\<not> is_i (rr n p)"
  using rr_small [of "n mod 8" p] by (simp_all flip: rr_mod)

lemma rr_kind:
  "is_s (rr n p)" "\<not> is_i (rr n p)" "\<not> is_sabm (rr n p)" "\<not> is_disc (rr n p)"
  "poll_bit (rr n p) = p" "nr (rr n p) = n mod 8" "rr n p AND 1 \<noteq> 0" "rr n p \<noteq> 3"
proof -
  have "n mod 8 < 8" by simp
  note c = less_8_cases [OF this]
  show "is_s (rr n p)" "\<not> is_i (rr n p)" "\<not> is_sabm (rr n p)" "\<not> is_disc (rr n p)"
    "poll_bit (rr n p) = p" "nr (rr n p) = n mod 8" "rr n p AND 1 \<noteq> 0" "rr n p \<noteq> 3"
    using c unfolding rr_mod [of n p]
    by (elim disjE; cases p; simp add: rr_def ctrl_defs)+
qed

lemma ns_less [simp]: "ns c < 8" and nr_less [simp]: "nr c < 8"
  by (simp_all add: ns_def nr_def unat_and_7)

section \<open>Callsign fields: what is written is read back\<close>

text \<open>A station: base callsign and SSID, and its usual text form.\<close>

type_synonym station = "string \<times> nat"

fun call_str :: "station \<Rightarrow> string" where
  "call_str (b, n) = (if n = 0 then b else b @ ''-'' @ show_nat n)"

fun call_ok :: "station \<Rightarrow> bool" where
  "call_ok (b, n) \<longleftrightarrow>
     b \<noteq> [] \<and> length b \<le> 6 \<and> list_all (\<lambda>c. is_upper c \<or> is_digit c) b \<and> n < 16"

definition ssid_byte :: "nat \<Rightarrow> bool \<Rightarrow> bool \<Rightarrow> byte" where
  "ssid_byte n last_bit command =
     0x60 OR push_bit 1 (word_of_nat n) OR (if command then 0x80 else 0)
     OR (if last_bit then 1 else 0)"

definition char_byte :: "char \<Rightarrow> byte" where
  "char_byte c = push_bit 1 (word_of_nat (ord c)) AND 0xFE"

definition call_field :: "station \<Rightarrow> bool \<Rightarrow> bool \<Rightarrow> bytes" where
  "call_field st last_bit command =
     map char_byte (ljust 6 (fst st)) @ [ssid_byte (snd st) last_bit command]"

lemma base_char: "is_upper c \<or> is_digit c \<Longrightarrow>
    \<not> is_lower c \<and> \<not> is_space c \<and> c \<noteq> CHR ''-'' \<and> ord c < 128"
  by (auto simp: is_upper_def is_digit_def is_lower_def is_space_def Let_def ord_def)

lemma base_facts:
  assumes "list_all (\<lambda>c. is_upper c \<or> is_digit c) b"
  shows "list_all (\<lambda>c. \<not> is_lower c) b" "list_all (\<lambda>c. \<not> is_space c) b"
    "CHR ''-'' \<notin> set b" "\<And>c. c \<in> set b \<Longrightarrow> ord c < 128"
  using assms base_char by (fastforce simp: list_all_iff)+

lemma digits_facts:
  assumes "list_all is_digit s"
  shows "list_all (\<lambda>c. \<not> is_lower c) s" "list_all (\<lambda>c. \<not> is_space c) s" "CHR ''-'' \<notin> set s"
  using assms base_facts [of s] by (simp_all add: list_all_iff)

lemma dash_plain: "\<not> is_lower CHR ''-''" "\<not> is_space CHR ''-''"
  by (simp_all add: is_lower_def is_space_def ord_def)

lemma call_str_plain:
  assumes "call_ok st"
  shows "upper (call_str st) = call_str st" "strip (call_str st) = call_str st"
    "call_str st \<noteq> []"
proof -
  obtain b n where st: "st = (b, n)" by (cases st)
  from assms st base_facts [of b] digits_facts [OF show_nat_digits, of n]
  show "upper (call_str st) = call_str st" "strip (call_str st) = call_str st"
    "call_str st \<noteq> []"
    by (auto intro!: upper_id strip_id_alnum simp: dash_plain upper_char_id)
qed

lemma int_and_15: "n < 16 \<Longrightarrow> int n AND 15 = int n"
proof -
  assume "n < 16"
  have "int n AND mask 4 = take_bit 4 (int n)" by (simp only: take_bit_eq_mask)
  then show ?thesis using \<open>n < 16\<close> by (simp add: mask_eq_exp_minus_1 take_bit_eq_mod)
qed

lemma encode_call_str:
  assumes "call_ok st"
  shows "encode_call (call_str st) last_bit command = Inr (call_field st last_bit command)"
proof -
  obtain b n where st: "st = (b, n)" by (cases st)
  with assms have b: "length b \<le> 6" "n < 16" "CHR ''-'' \<notin> set b"
    using base_facts(3) [of b] by auto
  have norm: "strip (upper (call_str st)) = call_str st"
    using call_str_plain [OF assms] by simp
  show ?thesis
  proof (cases "n = 0")
    case True
    then have "partition_at CHR ''-'' (call_str st) = (b, False, [])"
      using b by (simp add: st partition_at_absent)
    with True b norm show ?thesis
      by (simp add: st encode_call_def call_field_def char_byte_def ssid_byte_def)
  next
    case False
    then have "partition_at CHR ''-'' (call_str st) = (b, True, show_nat n)"
      using b by (simp add: st partition_at_append)
    with False b norm show ?thesis
      by (simp add: st encode_call_def call_field_def char_byte_def ssid_byte_def int_and_15)
  qed
qed

lemma all_less_8: "(\<forall>n<8. P n) \<longleftrightarrow> P 0 \<and> P 1 \<and> P 2 \<and> P 3 \<and> P 4 \<and> P 5 \<and> P 6 \<and> P (7::nat)"
  using less_8_cases by fastforce

lemma byte_eq_bits: "(v::byte) = w \<longleftrightarrow> (\<forall>n<8. bit v n = bit w n)"
  by (auto intro: bit_word_eqI)

lemma char_byte_back: "ord c < 128 \<Longrightarrow> chr (unat (drop_bit 1 (char_byte c))) = c"
proof -
  assume c: "ord c < 128"
  have "char_byte c = push_bit 1 (word_of_nat (ord c))"
    unfolding char_byte_def byte_eq_bits all_less_8 by (simp add: bit_and_iff bit_push_bit_iff bit_0 even_and_iff)
  also have "\<dots> = word_of_nat (2 * ord c)" by simp
  finally have "char_byte c = word_of_nat (2 * ord c)" .
  moreover have "unat (drop_bit 1 (word_of_nat (2 * ord c) :: byte)) = ord c"
    unfolding unat_drop_bit_eq unfolding drop_bit_eq_div unat_of_nat using c by simp
  ultimately show ?thesis by (simp only: chr_ord)
qed

lemma less_16_cases: "(n::nat) < 16 \<Longrightarrow> n \<in> {0, 1, 2, 3, 4, 5, 6, 7, 8, 9, 10, 11, 12, 13, 14, 15}"
proof -
  assume "n < 16"
  then have "n \<in> {..<16}" by simp
  then show ?thesis by (simp add: lessThan_nat_numeral lessThan_Suc) blast
qed

lemma ssid_byte_fields:
  assumes "n < 16"
  shows "unat (drop_bit 1 (ssid_byte n l c) AND 0x0F) = n"
    "(ssid_byte n l c AND 1 \<noteq> 0) = l" "(ssid_byte n l c AND 0x80 \<noteq> 0) = c"
  using less_16_cases [OF assms] unfolding insert_iff empty_iff
  by (elim disjE; cases l; cases c; simp add: ssid_byte_def)+

lemma strip_ljust: "b \<noteq> [] \<Longrightarrow> list_all (\<lambda>c. \<not> is_space c) b \<Longrightarrow> strip (ljust n b) = b"
proof -
  assume b: "b \<noteq> []" "list_all (\<lambda>c. \<not> is_space c) b"
  have sp: "is_space CHR '' ''" by (simp add: is_space_def ord_def)
  from b have "lstrip (ljust n b) = ljust n b"
    by (cases b) (simp_all add: lstrip_def ljust_def)
  moreover have "dropWhile is_space (rev (ljust n b)) = rev b"
  proof -
    have "dropWhile is_space (replicate k CHR '' '' @ rev b) = dropWhile is_space (rev b)" for k
      by (induction k) (simp_all add: sp)
    moreover have "dropWhile is_space (rev b) = rev b"
      using b by (cases "rev b") (auto simp: list_all_iff)
    ultimately show ?thesis by (simp add: ljust_def)
  qed
  ultimately show ?thesis by (simp add: strip_def rstrip_def)
qed

lemma length_call_field: "length (fst st) \<le> 6 \<Longrightarrow> length (call_field st l c) = 7"
  by (simp add: call_field_def ljust_def)

lemma ord_space: "ord CHR '' '' < 128"
  by (simp add: ord_def)

lemma decode_call_field:
  assumes "call_ok st"
  shows "decode_call (call_field st l c) = Inr (call_str st)"
proof -
  obtain b n where st: "st = (b, n)" by (cases st)
  with assms have b: "b \<noteq> []" "length b \<le> 6" "n < 16"
      "list_all (\<lambda>c. \<not> is_space c) b" "\<And>c. c \<in> set b \<Longrightarrow> ord c < 128"
    using base_facts [of b] by auto
  have len: "length (ljust 6 b) = 6" using b by (simp add: ljust_def)
  have "map (\<lambda>x. chr (unat (drop_bit 1 x))) (map char_byte (ljust 6 b)) = ljust 6 b"
    unfolding map_map
    by (rule map_idI) (use b ord_space in \<open>auto simp: ljust_def intro!: char_byte_back [simplified]\<close>)
  with len b show ?thesis
    by (simp add: st decode_call_def call_field_def nth_append strip_ljust Let_def
        ssid_byte_fields(1) [simplified])
qed

section \<open>Frames: what is built is parsed back\<close>

lemma split_addrs_field:
  assumes "length f = 7"
  shows "split_addrs addrs (f @ rest) =
     rbind (decode_call f) (\<lambda>c.
       let addrs' = addrs @ [c] in
       if f ! 6 AND 1 \<noteq> 0 then Inr (addrs', rest)
       else if 10 < length addrs' then Inl (ValueError ''too many AX.25 addresses'')
       else split_addrs addrs' rest)"
proof -
  from assms obtain a0 a1 a2 a3 a4 a5 a6 where "f = [a0, a1, a2, a3, a4, a5, a6]"
    by (auto simp: numeral_eq_Suc length_Suc_conv)
  then show ?thesis by simp
qed

lemma split_addrs_call:
  assumes "call_ok st"
  shows "split_addrs addrs (call_field st l c @ rest) =
     (if l then Inr (addrs @ [call_str st], rest)
      else if 10 \<le> length addrs then Inl (ValueError ''too many AX.25 addresses'')
      else split_addrs (addrs @ [call_str st]) rest)"
proof -
  from assms have len: "length (call_field st l c) = 7" and n: "snd st < 16"
    and b: "length (fst st) \<le> 6"
    by (cases st; simp add: length_call_field)+
  from b have "call_field st l c ! 6 = ssid_byte (snd st) l c"
    by (simp add: call_field_def ljust_def nth_append)
  then show ?thesis
    by (simp add: split_addrs_field [OF len] decode_call_field [OF assms] ssid_byte_fields(2) [OF n])
qed

lemma split_addrs_init:
  "list_all call_ok ds \<Longrightarrow> length addrs + length ds \<le> 10 \<Longrightarrow>
   split_addrs addrs (concat (map (\<lambda>d. call_field d False c) ds) @ rest) =
   split_addrs (addrs @ map call_str ds) rest"
  by (induction ds arbitrary: addrs) (simp_all add: split_addrs_call)

text \<open>The digipeater fields: only the last one carries the extension bit.\<close>

definition digi_fields :: "station list \<Rightarrow> bytes" where
  "digi_fields ds = concat (map (\<lambda>d. call_field d False False) (butlast ds))
                    @ call_field (last ds) True False"

lemma rmap_digis:
  assumes "list_all call_ok ds" and "ds \<noteq> []"
  shows "rbind (rmap (\<lambda>k. encode_call (map call_str ds ! k) (k = length ds - 1) False)
                [0..<length ds]) (\<lambda>fs. Inr (s @ concat fs))
         = Inr (s @ digi_fields ds)"
proof -
  have "rmap (\<lambda>k. encode_call (map call_str ds ! k) (k = length ds - 1) False) [0..<length ds]
        = Inr (map (\<lambda>k. call_field (ds ! k) (k = length ds - 1) False) [0..<length ds])"
    by (rule rmap_Inr) (use assms in \<open>auto simp: list_all_length encode_call_str\<close>)
  moreover have "map (\<lambda>k. call_field (ds ! k) (k = length ds - 1) False) [0..<length ds]
        = map (\<lambda>d. call_field d False False) (butlast ds) @ [call_field (last ds) True False]"
    using assms(2)
    by (intro nth_equalityI) (auto simp: nth_append nth_butlast last_conv_nth less_Suc_eq
        dest: not_less_iff_gr_or_eq [THEN iffD1])
  ultimately show ?thesis by (simp add: digi_fields_def)
qed

lemma make_frame_calls:
  assumes "call_ok dest" "call_ok src" "list_all call_ok ds" "pid < 256"
  shows "make_frame (call_str dest) (call_str src) ctrl payload pid response (map call_str ds) =
     Inr (call_field dest False (\<not> response)
          @ (if ds = [] then call_field src True response
             else call_field src False response @ digi_fields ds)
          @ [ctrl] @ (if 0 \<le> pid then [word_of_int pid] else []) @ payload)"
proof -
  have "filter (\<lambda>d. d \<noteq> [] \<and> strip d \<noteq> []) (map call_str ds) = map call_str ds"
    by (rule filter_True) (use assms(3) call_str_plain in \<open>auto simp: list_all_iff\<close>)
  with assms show ?thesis
    by (auto simp: make_frame_def encode_call_str rmap_digis [simplified] simp del: append_assoc)
qed

lemma split_addrs_frame:
  assumes "call_ok dest" "call_ok src" "list_all call_ok ds" "length ds \<le> 8"
  shows "split_addrs [] (call_field dest False c
           @ (if ds = [] then call_field src True r
              else call_field src False r @ digi_fields ds) @ rest) =
         Inr (call_str dest # call_str src # map call_str ds, rest)"
proof (cases "ds = []")
  case True
  with assms show ?thesis by (simp add: split_addrs_call)
next
  case False
  then have "last ds \<in> set ds" by simp
  with assms False have l: "call_ok (last ds)" "list_all call_ok (butlast ds)"
    by (auto simp: list_all_iff dest: in_set_butlastD)
  have "map call_str (butlast ds) @ [call_str (last ds)] = map call_str ds"
    by (metis False append_butlast_last_id list.map(1,2) map_append)
  with assms False l show ?thesis
    by (simp add: digi_fields_def split_addrs_call split_addrs_init)
qed

lemma length_call_field_ok: "call_ok st \<Longrightarrow> length (call_field st l c) = 7"
  by (cases st) (simp add: length_call_field)

lemma make_split_frame:
  assumes "call_ok dest" "call_ok src" "list_all call_ok ds" "length ds \<le> 8"
    and "if ctrl AND 1 = 0 \<or> ctrl = 0x03 then 0 \<le> pid \<and> pid < 256 else pid = -1"
  shows "rbind (make_frame (call_str dest) (call_str src) ctrl payload pid response (map call_str ds))
           split_frame =
         Inr (call_str dest, call_str src, map call_str ds, ctrl, pid, payload)"
proof -
  let ?tail = "ctrl # (if 0 \<le> pid then [word_of_int pid] else []) @ payload"
  let ?frame = "call_field dest False (\<not> response)
          @ (if ds = [] then call_field src True response
             else call_field src False response @ digi_fields ds) @ ?tail"
  from assms(5) have "pid < 256" by (auto split: if_splits)
  with assms have mk: "make_frame (call_str dest) (call_str src) ctrl payload pid response
      (map call_str ds) = Inr ?frame"
    by (subst make_frame_calls) auto
  have len: "15 \<le> length ?frame"
    using assms(1,2) by (simp add: length_call_field_ok)
  have addrs: "split_addrs [] ?frame = Inr (call_str dest # call_str src # map call_str ds, ?tail)"
    using assms by (intro split_addrs_frame)
  have pid: "0 \<le> pid \<Longrightarrow> uint (word_of_int pid :: byte) = pid"
    using \<open>pid < 256\<close> by (simp add: uint_word_of_int)
  show ?thesis
    using assms(5) len pid unfolding mk by (auto simp: split_frame_def addrs split: if_splits)
qed

section \<open>I-frames between two stations\<close>

text \<open>The bytes of an I-frame that station \<open>st\<close> sends to station \<open>gws\<close>.\<close>

definition iframe_bytes :: "station \<Rightarrow> station \<Rightarrow> nat \<Rightarrow> nat \<Rightarrow> bytes \<Rightarrow> bytes" where
  "iframe_bytes gws st k r p =
     (case make_frame (call_str gws) (call_str st) (iframe k r False) p PID_NO_L3 False [] of
        Inr f \<Rightarrow> f | Inl _ \<Rightarrow> [])"

lemma split_iframe_bytes:
  assumes "call_ok gws" "call_ok st"
  shows "split_frame (iframe_bytes gws st k r p)
         = Inr (call_str gws, call_str st, [], iframe k r False, PID_NO_L3, p)"
proof -
  have "rbind (make_frame (call_str gws) (call_str st) (iframe k r False) p PID_NO_L3 False
               (map call_str [])) split_frame
        = Inr (call_str gws, call_str st, map call_str [], iframe k r False, PID_NO_L3, p)"
    using assms iframe_fields(4) [of k r False]
    by (intro make_split_frame) (simp_all add: is_i_def)
  then show ?thesis
    by (auto simp: iframe_bytes_def split: sum.splits)
qed

lemma iframe_not_u: "\<not> is_sabm (iframe s r p)" "\<not> is_disc (iframe s r p)"
proof -
  have even: "even (iframe s r p)" using iframe_fields(4) [of s r p] by (simp add: is_i_def even_and_1)
  have "even (c AND 0xEF)" if "even c" for c :: byte using that by (simp add: even_and_iff)
  with even show "\<not> is_sabm (iframe s r p)" "\<not> is_disc (iframe s r p)"
    by (metis is_sabm_def odd_numeral, metis is_disc_def odd_numeral)
qed

lemma iframe_bytes_make:
  assumes "call_ok gws" "call_ok st"
  shows "make_frame (call_str gws) (call_str st) (iframe k r False) p PID_NO_L3 False []
         = Inr (iframe_bytes gws st k r p)"
  using make_frame_calls [OF assms, of "[]" PID_NO_L3 "iframe k r False" p False]
  by (simp add: iframe_bytes_def)

section \<open>Properties\<close>

text \<open>C25. AX.25 frame round trip: for canonical callsigns, at most eight digipeaters and a
  PID exactly on the frames that carry one (I and UI), \<^verbatim>\<open>make_frame\<close> succeeds and
  \<^verbatim>\<open>split_frame\<close> returns the same addresses, digipeater path, control, PID and payload.\<close>

theorem make_split_roundtrip:
  assumes "call_ok dest" "call_ok src" "list_all call_ok ds" "length ds \<le> 8"
    and "if ctrl AND 1 = 0 \<or> ctrl = 0x03 then 0 \<le> pid \<and> pid < 256 else pid = -1"
  shows "rbind (make_frame (call_str dest) (call_str src) ctrl payload pid response (map call_str ds))
           split_frame =
         Inr (call_str dest, call_str src, map call_str ds, ctrl, pid, payload)"
  using assms by (rule make_split_frame)

theorem make_split_roundtrip_witness:
  "rbind (make_frame ''CQ'' ''KP4PRA-10'' 0x03 [0x41] 0xF0 False [''WIDE1-1'']) split_frame =
   Inr (''CQ'', ''KP4PRA-10'', [''WIDE1-1''], 0x03, 0xF0, [0x41])"
  using make_split_roundtrip [of "(''CQ'', 0)" "(''KP4PRA'', 10)" "[(''WIDE1'', 1)]" "0x03" "0xF0"
      "[0x41]" False]
  by (simp add: py_eval)

text \<open>Command/response convention: every frame \<^verbatim>\<open>make_frame\<close> builds has exactly one of the
  two C bits set, the destination's on a command and the source's on a response.\<close>

theorem make_frame_c_bits:
  assumes "call_ok dest" "call_ok src" "list_all call_ok ds" "pid < 256"
  shows "rbind (make_frame (call_str dest) (call_str src) ctrl payload pid response (map call_str ds))
           frame_command_bits = Inr (\<not> response, response)"
proof -
  have field6: "call_field st l c ! 6 = ssid_byte (snd st) l c" if "call_ok st" for st l c
    using that by (cases st) (simp add: call_field_def ljust_def nth_append)
  have n: "snd dest < 16" "snd src < 16" using assms by (cases dest; cases src; simp)+
  have len: "length (call_field st l c) = 7" if "call_ok st" for st l c
    using that by (rule length_call_field_ok)
  show ?thesis
    unfolding make_frame_calls [OF assms]
    using assms(1,2) n
    by (simp add: frame_command_bits_def nth_append len field6 ssid_byte_fields)
qed

theorem make_frame_c_bits_witness:
  "rbind (make_frame ''KP4CE'' ''KP4PRA-10'' UA [] (-1) True []) frame_command_bits = Inr (False, True)"
  using make_frame_c_bits [of "(''KP4CE'', 0)" "(''KP4PRA'', 10)" "[]" "-1" UA "[]" True]
  by (simp add: py_eval)

end
