(* ===== verification/Arq.thy ===== *)
theory Arq
  imports Prelude
begin

text \<open>
  Modulo-8 sequence numbers against the unbounded ones they stand for. The RMS gateway
  (gateway.py) and the outbound stream (rfsend.py) both number I-frames modulo 8, accept
  only the expected number, and hold back when seven frames are unacknowledged. The
  abstract protocol counts frames without wrapping; the locales below say what a concrete
  receiver or sender must do per step, and carry the refinement once.
\<close>

section \<open>The send window\<close>

text \<open>\<open>outstanding vs va\<close> is the code's \<^verbatim>\<open>(vs - va) & 7\<close>.\<close>

definition outstanding :: "nat \<Rightarrow> nat \<Rightarrow> nat" where
  "outstanding vs va = nat ((int vs - int va) AND 7)"

lemma outstanding_mod: "outstanding vs va = nat ((int vs - int va) mod 8)"
  by (simp add: outstanding_def and7_int)

lemma outstanding_less [simp]: "outstanding vs va < 8"
  by (simp add: outstanding_mod nat_less_iff)

lemma outstanding_le_7 [simp]: "outstanding vs va \<le> 7"
  using outstanding_less [of vs va] by linarith

text \<open>With \<open>S\<close> frames sent and \<open>A\<close> of them acknowledged, at most seven apart, the test
  on the wrapped counters is the test on the true distance.\<close>

lemma outstanding_abs:
  assumes "A \<le> S" and "S \<le> A + 7"
  shows "outstanding (S mod 8) (A mod 8) = S - A"
proof -
  have "(int (S mod 8) - int (A mod 8)) mod 8 = (int S - int A) mod 8"
    by (simp add: zmod_int mod_diff_eq)
  also have "int S - int A = int (S - A)" using assms by simp
  also have "int (S - A) mod 8 = int (S - A)" using assms by simp
  finally show ?thesis by (simp only: outstanding_mod nat_int)
qed

lemma outstanding_Suc:
  assumes "outstanding vs va < 7"
  shows "outstanding ((vs + 1) AND 7) va = outstanding vs va + 1"
proof -
  let ?d = "(int vs - int va) mod 8"
  have "(int ((vs + 1) mod 8) - int va) mod 8 = (int vs + 1 - int va) mod 8"
    by (simp add: zmod_int mod_diff_left_eq add.commute)
  also have "\<dots> = (?d + 1) mod 8" by (simp add: mod_simps algebra_simps)
  also have "\<dots> = ?d + 1"
    using assms by (simp add: outstanding_mod nat_less_iff)
  finally show ?thesis
    by (simp add: outstanding_mod and7_nat nat_add_distrib)
qed

text \<open>Advancing the lower counter towards the upper one, both below eight.\<close>

lemma outstanding_advance:
  assumes "v < 8" "w < 8" "v \<noteq> w"
  shows "outstanding w ((v + 1) AND 7) + 1 = outstanding w v"
proof -
  have "\<forall>v\<in>{..<8::nat}. \<forall>w\<in>{..<8}. v \<noteq> w \<longrightarrow>
          nat ((int w - int ((v + 1) mod 8)) mod 8) + 1 = nat ((int w - int v) mod 8)"
    by (simp add: lessThan_nat_numeral lessThan_Suc)
  with assms show ?thesis by (simp add: outstanding_mod and7_nat)
qed

lemma outstanding_self [simp]: "outstanding n n = 0"
  by (simp add: outstanding_mod)

section \<open>The receiver\<close>

text \<open>
  The abstract receiver has accepted frames \<open>0, \<dots>, n - 1\<close> and waits for frame \<open>n\<close>;
  frame \<open>k\<close> is accepted exactly when \<open>k = n\<close>. A sender with a window of seven never has a
  frame on the air whose true number is eight or more away from \<open>n\<close>.
\<close>

fun next_expected :: "nat \<Rightarrow> nat list \<Rightarrow> nat" where
  "next_expected n [] = n"
| "next_expected n (k # ks) = next_expected (if k = n then n + 1 else n) ks"

fun in_window :: "nat \<Rightarrow> nat list \<Rightarrow> bool" where
  "in_window n [] = True"
| "in_window n (k # ks) \<longleftrightarrow>
     k < n + 8 \<and> n < k + 8 \<and> in_window (if k = n then n + 1 else n) ks"

lemma next_expected_ge: "n \<le> next_expected n ks"
proof (induction ks arbitrary: n)
  case (Cons k ks)
  show ?case using Cons.IH [of n] Cons.IH [of "Suc n"] by auto
qed simp

locale arq_receiver =
  fixes accept :: "nat \<Rightarrow> 'x list \<Rightarrow> 's \<Rightarrow> 's"
    and expected :: "'s \<Rightarrow> nat"
    and delivered :: "'s \<Rightarrow> 'x list"
    and ready :: "'s \<Rightarrow> bool"
  assumes accept_ready: "ready s \<Longrightarrow> k < 8 \<Longrightarrow> ready (accept k p s)"
    and accept_in_order: "ready s \<Longrightarrow> k < 8 \<Longrightarrow> k = expected s \<Longrightarrow>
          expected (accept k p s) = (k + 1) mod 8 \<and> delivered (accept k p s) = delivered s @ p"
    and accept_other: "ready s \<Longrightarrow> k < 8 \<Longrightarrow> k \<noteq> expected s \<Longrightarrow>
          expected (accept k p s) = expected s \<and> delivered (accept k p s) = delivered s"
begin

text \<open>Frame number \<open>k\<close> arrives with its number modulo 8 and its payload \<open>data k\<close>.\<close>

definition arrive :: "(nat \<Rightarrow> 'x list) \<Rightarrow> nat \<Rightarrow> 's \<Rightarrow> 's" where
  "arrive data k s = accept (k mod 8) (data k) s"

lemma arrivals_refine:
  assumes "ready s" "expected s = n mod 8" "in_window n ks"
  shows "ready (fold (arrive data) ks s)
       \<and> expected (fold (arrive data) ks s) = next_expected n ks mod 8
       \<and> delivered (fold (arrive data) ks s)
         = delivered s @ concat (map data [n..<next_expected n ks])"
  using assms
proof (induction ks arbitrary: s n)
  case Nil
  then show ?case by simp
next
  case (Cons k ks)
  let ?s = "arrive data k s"
  show ?case
  proof (cases "k = n")
    case True
    have "ready ?s" "expected ?s = Suc n mod 8" "delivered ?s = delivered s @ data n"
      using accept_ready [of s "k mod 8" "data k"] accept_in_order [of s "k mod 8" "data k"]
        Cons.prems True by (simp_all add: arrive_def mod_Suc_eq)
    moreover have "[n..<next_expected (Suc n) ks] = n # [Suc n..<next_expected (Suc n) ks]"
      using next_expected_ge [of "Suc n" ks] by (simp add: upt_conv_Cons)
    ultimately show ?thesis
      using Cons.IH [of ?s "Suc n"] Cons.prems True by simp
  next
    case False
    with Cons.prems have "k mod 8 \<noteq> n mod 8"
      using mod8_near_eq [of k n] by auto
    then have "ready ?s" "expected ?s = n mod 8" "delivered ?s = delivered s"
      using accept_ready [of s "k mod 8" "data k"] accept_other [of s "k mod 8" "data k"]
        Cons.prems by (simp_all add: arrive_def)
    then show ?thesis
      using Cons.IH [of ?s n] Cons.prems False by simp
  qed
qed

end

section \<open>Sender, receiver and a lossy channel\<close>

text \<open>
  The protocol on true frame numbers: \<open>a_sent\<close> frames numbered, the first \<open>a_acked\<close>
  acknowledged, the receiver waiting for frame \<open>a_next\<close>. The two channels keep the order and
  may lose frames. The sender repeats everything unacknowledged at any time (go-back-N).
\<close>

record arq =
  a_sent :: nat
  a_acked :: nat
  a_next :: nat
  a_fwd :: "nat list"
  a_back :: "nat list"

inductive arq_step :: "arq \<Rightarrow> arq \<Rightarrow> bool" where
  arq_skip: "arq_step a a"
| arq_send: "a_sent a < a_acked a + 7 \<Longrightarrow>
     arq_step a (a\<lparr>a_sent := a_sent a + 1, a_fwd := a_fwd a @ [a_sent a]\<rparr>)"
| arq_resend: "arq_step a (a\<lparr>a_fwd := a_fwd a @ [a_acked a..<a_sent a]\<rparr>)"
| arq_lose_fwd: "a_fwd a = k # ks \<Longrightarrow> arq_step a (a\<lparr>a_fwd := ks\<rparr>)"
| arq_lose_back: "a_back a = r # rs \<Longrightarrow> arq_step a (a\<lparr>a_back := rs\<rparr>)"
| arq_deliver: "a_fwd a = k # ks \<Longrightarrow> m = (if k = a_next a then k + 1 else a_next a) \<Longrightarrow>
     arq_step a (a\<lparr>a_fwd := ks, a_next := m, a_back := a_back a @ [m]\<rparr>)"
| arq_ack: "a_back a = r # rs \<Longrightarrow> arq_step a (a\<lparr>a_back := rs, a_acked := r\<rparr>)"

definition arq_inv :: "arq \<Rightarrow> bool" where
  "arq_inv a \<longleftrightarrow> a_acked a \<le> a_next a \<and> a_next a \<le> a_sent a \<and> a_sent a \<le> a_acked a + 7
     \<and> sorted (a_back a) \<and> (\<forall>r\<in>set (a_back a). a_acked a \<le> r \<and> r \<le> a_next a)
     \<and> (\<forall>k\<in>set (a_fwd a). k < a_sent a \<and> a_next a \<le> k + 7)
     \<and> sorted_wrt (\<lambda>i j. i \<le> j + 6) (a_fwd a)"

lemma arq_step_inv: "arq_step a a' \<Longrightarrow> arq_inv a \<Longrightarrow> arq_inv a'"
proof (induction rule: arq_step.induct)
  case (arq_send a)
  then show ?case by (force simp: arq_inv_def sorted_wrt_append)
next
  case (arq_resend a)
  then show ?case
    by (fastforce simp: arq_inv_def sorted_wrt_append intro: sorted_wrt_mono_rel [OF _ sorted_wrt_upt])
next
  case (arq_deliver a k ks m)
  then show ?case by (fastforce simp: arq_inv_def sorted_append)
next
  case (arq_ack a r rs)
  then show ?case by (fastforce simp: arq_inv_def)
qed (auto simp: arq_inv_def)

text \<open>What the invariant says of the three-bit numbers: a data frame about to arrive is the
  expected one exactly when its number is, and an acknowledgement about to arrive denotes
  exactly one frame of the window.\<close>

lemma arq_inv_data:
  assumes "arq_inv a" "a_fwd a = k # ks"
  shows "k mod 8 = a_next a mod 8 \<longleftrightarrow> k = a_next a"
  using assms mod8_near_eq [of k "a_next a"] by (auto simp: arq_inv_def)

lemma arq_inv_ack:
  assumes "arq_inv a" "a_back a = r # rs"
  shows "a_acked a \<le> r" "r \<le> a_sent a" "a_sent a \<le> a_acked a + 7"
  using assms by (auto simp: arq_inv_def)

section \<open>What an implementation owes\<close>

text \<open>A pair of programs joined by a channel implements the protocol when each of its steps is
  mirrored by a step on true numbers; it then delivers a prefix of what it was handed.\<close>

definition arq_start :: arq where
  "arq_start = \<lparr>a_sent = 0, a_acked = 0, a_next = 0, a_fwd = [], a_back = []\<rparr>"

locale arq_link =
  fixes step :: "'y \<Rightarrow> 'y \<Rightarrow> bool"
    and start :: "'y \<Rightarrow> bool"
    and mirror :: "'y \<Rightarrow> arq \<Rightarrow> bool"
    and handed :: "'y \<Rightarrow> 'x list list"
    and delivered :: "'y \<Rightarrow> 'x list"
    and drained :: "'y \<Rightarrow> bool"
  assumes start_mirror: "start y \<Longrightarrow> mirror y arq_start"
    and step_mirror: "step y z \<Longrightarrow> mirror y a \<Longrightarrow> arq_inv a \<Longrightarrow> \<exists>b. arq_step a b \<and> mirror z b"
    and mirror_delivered: "mirror y a \<Longrightarrow> delivered y = concat (take (a_next a) (handed y))"
    and mirror_handed: "mirror y a \<Longrightarrow> length (handed y) = a_sent a"
    and mirror_drained: "mirror y a \<Longrightarrow> arq_inv a \<Longrightarrow> drained y \<Longrightarrow> a_acked a = a_sent a"
begin

inductive reach :: "'y \<Rightarrow> bool" where
  reach_start: "start y \<Longrightarrow> reach y"
| reach_next: "reach y \<Longrightarrow> step y z \<Longrightarrow> reach z"

lemma reach_mirror: "reach y \<Longrightarrow> \<exists>a. arq_inv a \<and> mirror y a"
proof (induction rule: reach.induct)
  case (reach_start y)
  have "arq_inv arq_start" by (simp add: arq_inv_def arq_start_def)
  with start_mirror [OF reach_start] show ?case by blast
next
  case (reach_next y z)
  then show ?case using step_mirror arq_step_inv by blast
qed

lemma delivered:
  assumes "reach y"
  shows "(\<exists>n\<le>length (handed y). delivered y = concat (take n (handed y)))
     \<and> (drained y \<longrightarrow> delivered y = concat (handed y))"
proof -
  obtain a where inv: "arq_inv a" and m: "mirror y a" using reach_mirror [OF assms] by blast
  have "a_next a \<le> length (handed y)" using inv mirror_handed [OF m] by (simp add: arq_inv_def)
  moreover have "a_next a = length (handed y)" if "drained y"
    using mirror_drained [OF m inv that] inv mirror_handed [OF m] by (simp add: arq_inv_def)
  ultimately show ?thesis using mirror_delivered [OF m] by auto
qed

end

end
