(* ===== verification/Rf_Stream.thy ===== *)
theory Rf_Stream
  imports Ax25 Arq
begin

text \<open>
  The reliable byte stream of the RF mail route (class \<^verbatim>\<open>AX25Stream\<close> of
  src/src/web/rfsend.py): link set-up and tear-down, the modulo-8 send window with go-back-N,
  the in-sequence receiver, and the \<open>send\<close>/\<open>recv\<close> surface the B2F driver uses. The Dire Wolf
  socket is the list \<open>inbox\<close> of what its reads return, a timeout included; when the list is
  used up every later read times out. Frames written are collected in \<open>air\<close> before their
  KISS encoding. The session log is not modelled.
\<close>

section \<open>State\<close>

datatype rf_event = Rx bytes | Rx_timeout

record rf_link =
  my_call :: string
  peer_call :: string
  digi_path :: "string list"
  block_size :: nat
  retries :: nat

record rf_stream =
  s_vs :: nat
  s_vr :: nat
  s_va :: nat
  unacked :: "nat \<rightharpoonup> bytes"
  rxbuf :: bytes
  s_dec :: kiss_decoder
  s_closed :: bool
  air :: "bytes list"
  inbox :: "rf_event list"

definition stream_init :: "rf_event list \<Rightarrow> rf_stream" where
  "stream_init evs = \<lparr>s_vs = 0, s_vr = 0, s_va = 0, unacked = Map.empty, rxbuf = [],
     s_dec = kiss_init, s_closed = False, air = [], inbox = evs\<rparr>"

text \<open>The constructor's clamp of the configured block size.\<close>

definition clamp_block :: "int \<Rightarrow> nat" where
  "clamp_block n = nat (max 1 (min 255 n))"

abbreviation SABM :: byte where "SABM \<equiv> 0x2F"
abbreviation POLL :: byte where "POLL \<equiv> 0x10"
abbreviation WINDOW :: nat where "WINDOW \<equiv> 7"

definition RfError :: "string \<Rightarrow> exn" where
  "RfError m = AppError ''RfError'' m"

section \<open>Frames in and out\<close>

definition rf_tx :: "rf_link \<Rightarrow> byte \<Rightarrow> bytes \<Rightarrow> int \<Rightarrow> bool \<Rightarrow> (rf_stream, unit) sx" where
  "rf_tx l ctrl payload pid response s =
     (case make_frame (peer_call l) (my_call l) ctrl payload pid response (digi_path l) of
        Inl e \<Rightarrow> (Inl e, s)
      | Inr f \<Rightarrow> (Inr (), s\<lparr>air := air s @ [f]\<rparr>))"

text \<open>The first frame from the peer among the frames of one read; the others are dropped.\<close>

fun first_match :: "string \<Rightarrow> bytes list \<Rightarrow> (byte \<times> bytes) option" where
  "first_match peer [] = None"
| "first_match peer (kf # kfs) =
     (case split_frame kf of
        Inl _ \<Rightarrow> first_match peer kfs
      | Inr (dest, src, digis, ctrl, pid, payload) \<Rightarrow>
          if upper src \<noteq> upper peer then first_match peer kfs else Some (ctrl, payload))"

fun read_loop :: "string \<Rightarrow> kiss_decoder \<Rightarrow> rf_event list \<Rightarrow>
    (byte \<times> bytes) option result \<times> kiss_decoder \<times> rf_event list" where
  "read_loop peer d [] = (Inr None, d, [])"
| "read_loop peer d (Rx_timeout # evs) = (Inr None, d, evs)"
| "read_loop peer d (Rx data # evs) =
     (if data = [] then (Inl (RfError ''Dire Wolf connection closed''), d, evs)
      else case kiss_feed d data of (d', kfs) \<Rightarrow>
        (case first_match peer kfs of
           Some r \<Rightarrow> (Inr (Some r), d', evs)
         | None \<Rightarrow> read_loop peer d' evs))"

definition read_frame :: "rf_link \<Rightarrow> (rf_stream, (byte \<times> bytes) option) sx" where
  "read_frame l s =
     (case read_loop (peer_call l) (s_dec s) (inbox s) of
        (r, d, evs) \<Rightarrow> (r, s\<lparr>s_dec := d, inbox := evs\<rparr>))"

section \<open>The window\<close>

text \<open>Both loops compare three-bit counters, so the tests \<open>8 \<le> \<dots>\<close>, which make the functions
  total, never hold.\<close>

function ack_loop :: "nat \<Rightarrow> nat \<Rightarrow> (nat \<rightharpoonup> bytes) \<Rightarrow> nat \<times> (nat \<rightharpoonup> bytes)" where
  "ack_loop peer v un =
     (if v = peer \<or> 8 \<le> v \<or> 8 \<le> peer then (v, un)
      else ack_loop peer ((v + 1) AND 7) (un(v := None)))"
  by pat_completeness auto
termination
proof (relation "measure (\<lambda>(peer, v, un). outstanding peer v)", goal_cases)
  case (2 peer v un)
  then have "outstanding peer ((v + 1) AND 7) + 1 = outstanding peer v"
    using outstanding_advance [of v peer] by simp
  then show ?case by simp
qed simp

declare ack_loop.simps [simp del]

definition ack_upto :: "nat \<Rightarrow> rf_stream \<Rightarrow> rf_stream" where
  "ack_upto peer s =
     (case ack_loop peer (s_va s) (unacked s) of (v, un) \<Rightarrow> s\<lparr>s_va := v, unacked := un\<rparr>)"

function retransmit_from :: "rf_link \<Rightarrow> nat \<Rightarrow> (rf_stream, unit) sx" where
  "retransmit_from l n s =
     (if n = s_vs s \<or> 8 \<le> n \<or> 8 \<le> s_vs s then (Inr (), s)
      else case unacked s n of
        None \<Rightarrow> retransmit_from l ((n + 1) AND 7) s
      | Some chunk \<Rightarrow>
          (case rf_tx l (iframe n (s_vr s) False) chunk PID_NO_L3 False s of
             (Inl e, s') \<Rightarrow> (Inl e, s')
           | (Inr _, s') \<Rightarrow> retransmit_from l ((n + 1) AND 7) s'))"
  by pat_completeness auto
termination
proof (relation "measure (\<lambda>(l, n, s). outstanding (s_vs s) n)", goal_cases)
  case (2 l n s)
  then show ?case using outstanding_advance [of n "s_vs s"] by simp
next
  case (3 l n s chunk)
  then show ?case
    using outstanding_advance [of n "s_vs s"] by (auto simp: rf_tx_def split: sum.splits)
qed simp

declare retransmit_from.simps [simp del]

definition retransmit :: "rf_link \<Rightarrow> (rf_stream, unit) sx" where
  "retransmit l s = retransmit_from l (s_va s) s"

definition accept_iframe :: "rf_link \<Rightarrow> byte \<Rightarrow> bytes \<Rightarrow> (rf_stream, unit) sx" where
  "accept_iframe l ctrl payload s =
     (if ns ctrl = s_vr s then
        let s' = s\<lparr>s_vr := (s_vr s + 1) AND 7, rxbuf := rxbuf s @ payload\<rparr> in
        rf_tx l (rr (s_vr s') (poll_bit ctrl)) [] (-1) True s'
      else rf_tx l (rr (s_vr s) True) [] (-1) True s)"

text \<open>What \<^verbatim>\<open>_pump_once\<close> does with a frame.\<close>

definition on_frame :: "rf_link \<Rightarrow> byte \<Rightarrow> bytes \<Rightarrow> (rf_stream, unit) sx" where
  "on_frame l ctrl payload s =
     (let s1 = (if is_i ctrl \<or> is_s ctrl then ack_upto (nr ctrl) s else s) in
      if is_i ctrl then accept_iframe l ctrl payload s1
      else if is_s ctrl \<and> poll_bit ctrl then rf_tx l (rr (s_vr s1) True) [] (-1) True s1
      else (Inr (), s1))"

definition pump_once :: "rf_link \<Rightarrow> (rf_stream, bool) sx" where
  "pump_once l = sbind (read_frame l) (\<lambda>fr.
     case fr of None \<Rightarrow> sret False
     | Some (ctrl, payload) \<Rightarrow> sbind (on_frame l ctrl payload) (\<lambda>_. sret True))"

section \<open>Sending\<close>

text \<open>The wait for a free slot has no bound of its own: \<^const>\<open>None\<close> is not returning.\<close>

partial_function (option) wait_window :: "rf_link \<Rightarrow> rf_stream \<Rightarrow> (unit result \<times> rf_stream) option" where
  "wait_window l s =
     (if WINDOW \<le> outstanding (s_vs s) (s_va s) then
        (case pump_once l s of
           (Inl e, s1) \<Rightarrow> Some (Inl e, s1)
         | (Inr got, s1) \<Rightarrow>
             if got then wait_window l s1
             else (case retransmit l s1 of
                (Inl e, s2) \<Rightarrow> Some (Inl e, s2)
              | (Inr _, s2) \<Rightarrow> wait_window l s2))
      else Some (Inr (), s))"

text \<open>The rest of \<^verbatim>\<open>_send_chunk\<close>: number the chunk, remember it, put it on the air.\<close>

definition push_chunk :: "rf_link \<Rightarrow> bytes \<Rightarrow> (rf_stream, unit) sx" where
  "push_chunk l chunk s =
     (case rf_tx l (iframe (s_vs s) (s_vr s) False) chunk PID_NO_L3 False
             (s\<lparr>unacked := (unacked s)(s_vs s \<mapsto> chunk)\<rparr>) of
        (Inl e, s') \<Rightarrow> (Inl e, s')
      | (Inr _, s') \<Rightarrow> (Inr (), s'\<lparr>s_vs := (s_vs s' + 1) AND 7\<rparr>))"

definition send_chunk :: "rf_link \<Rightarrow> bytes \<Rightarrow> rf_stream \<Rightarrow> (unit result \<times> rf_stream) option" where
  "send_chunk l chunk s =
     (case wait_window l s of
        None \<Rightarrow> None
      | Some (Inl e, s') \<Rightarrow> Some (Inl e, s')
      | Some (Inr _, s') \<Rightarrow> Some (push_chunk l chunk s'))"

fun send_chunks :: "rf_link \<Rightarrow> bytes list \<Rightarrow> rf_stream \<Rightarrow> (unit result \<times> rf_stream) option" where
  "send_chunks l [] s = Some (Inr (), s)"
| "send_chunks l (c # cs) s =
     (case send_chunk l c s of
        None \<Rightarrow> None
      | Some (Inl e, s') \<Rightarrow> Some (Inl e, s')
      | Some (Inr _, s') \<Rightarrow> send_chunks l cs s')"


lemma rf_tx_frame [simp]:
  "inbox (snd (rf_tx l c p pid r s)) = inbox s" "s_vs (snd (rf_tx l c p pid r s)) = s_vs s"
  "s_vr (snd (rf_tx l c p pid r s)) = s_vr s" "s_va (snd (rf_tx l c p pid r s)) = s_va s"
  "unacked (snd (rf_tx l c p pid r s)) = unacked s" "rxbuf (snd (rf_tx l c p pid r s)) = rxbuf s"
  by (simp_all add: rf_tx_def split: sum.splits)

lemma rf_tx_inbox: "rf_tx l c p pid r s = (x, s') \<Longrightarrow> inbox s' = inbox s"
  by (metis rf_tx_frame(1) snd_conv)

lemma retransmit_from_inbox: "inbox (snd (retransmit_from l n s)) = inbox s"
proof (induction l n s rule: retransmit_from.induct)
  case (1 l n s)
  show ?case
  proof (cases "n = s_vs s \<or> 8 \<le> n \<or> 8 \<le> s_vs s")
    case True
    then show ?thesis by (simp add: retransmit_from.simps [of l n s])
  next
    case False
    show ?thesis
    proof (cases "unacked s n")
      case None
      with False "1.IH"(1) show ?thesis by (simp add: retransmit_from.simps [of l n s])
    next
      case (Some c)
      obtain e s1 where tx: "rf_tx l (iframe n (s_vr s) False) c PID_NO_L3 False s = (e, s1)"
        by fastforce
      then have "inbox s1 = inbox s" by (rule rf_tx_inbox)
      with False Some tx "1.IH"(2) [OF False Some tx [symmetric]] show ?thesis
        by (cases e) (simp_all add: retransmit_from.simps [of l n s])
    qed
  qed
qed

lemma retransmit_inbox: "inbox (snd (retransmit l s)) = inbox s"
  by (simp add: retransmit_def retransmit_from_inbox)

lemma read_loop_inbox:
  "read_loop peer d evs = (r, d', evs') \<Longrightarrow>
     length evs' \<le> length evs \<and> (\<forall>x. r = Inr (Some x) \<longrightarrow> length evs' < length evs)"
  by (induction peer d evs arbitrary: r d' evs' rule: read_loop.induct)
     (force split: if_splits prod.splits option.splits)+

lemma read_frame_inbox:
  "read_frame l s = (r, s') \<Longrightarrow> length (inbox s') \<le> length (inbox s)
     \<and> (\<forall>x. r = Inr (Some x) \<longrightarrow> length (inbox s') < length (inbox s))"
  by (auto simp: read_frame_def split: prod.splits dest: read_loop_inbox)

lemma ack_upto_inbox [simp]: "inbox (ack_upto peer s) = inbox s"
  by (simp add: ack_upto_def split: prod.splits)

lemma accept_iframe_inbox [simp]: "inbox (snd (accept_iframe l ctrl payload s)) = inbox s"
  by (simp add: accept_iframe_def Let_def)

lemma on_frame_inbox [simp]: "inbox (snd (on_frame l ctrl payload s)) = inbox s"
  by (simp add: on_frame_def Let_def)

lemma pump_once_inbox:
  assumes "pump_once l s = (r, s')"
  shows "length (inbox s') \<le> length (inbox s)
     \<and> (r = Inr True \<longrightarrow> length (inbox s') < length (inbox s))"
proof -
  obtain x s1 where rd: "read_frame l s = (x, s1)" by fastforce
  note len = read_frame_inbox [OF rd]
  show ?thesis
  proof (cases "\<exists>c p. x = Inr (Some (c, p))")
    case True
    then obtain c p where x: "x = Inr (Some (c, p))" by blast
    obtain y s2 where fr: "on_frame l c p s1 = (y, s2)" by fastforce
    have "inbox s2 = inbox s1" using on_frame_inbox [of l c p s1] by (simp add: fr)
    then show ?thesis
      using assms len by (cases y) (auto simp: pump_once_def sbind_def rd x fr)
  next
    case False
    then have "s' = s1 \<and> r \<noteq> Inr True"
      using assms by (auto simp: pump_once_def sbind_def rd split: sum.splits option.splits)
    with len show ?thesis by simp
  qed
qed

function drain_window :: "rf_link \<Rightarrow> nat \<Rightarrow> (rf_stream, unit) sx" where
  "drain_window l tries s =
     (if s_va s = s_vs s then (Inr (), s)
      else case pump_once l s of
        (Inl e, s1) \<Rightarrow> (Inl e, s1)
      | (Inr got, s1) \<Rightarrow>
          if got then drain_window l tries s1
          else (case retransmit l s1 of
             (Inl e, s2) \<Rightarrow> (Inl e, s2)
           | (Inr _, s2) \<Rightarrow>
               if retries l * (WINDOW + 1) < tries + 1
               then (Inl (RfError ''no ack for outstanding I-frames''), s2)
               else drain_window l (tries + 1) s2))"
  by pat_completeness auto
termination
proof (relation "measures [\<lambda>(l, tries, s). length (inbox s),
                           \<lambda>(l, tries, s). Suc (retries l * 8) - tries]", goal_cases)
  case (2 l tries s x s1 got)
  then show ?case using pump_once_inbox [of l s "Inr True" s1] by simp
next
  case (3 l tries s x s1 got y s2 u)
  then show ?case
    using pump_once_inbox [of l s "Inr False" s1] retransmit_inbox [of l s1]
    by (auto dest: arg_cong [where f = snd])
qed simp

declare drain_window.simps [simp del]

text \<open>\<^verbatim>\<open>send\<close>: chunk, queue, then wait until everything is acknowledged.\<close>

definition rf_send :: "rf_link \<Rightarrow> bytes \<Rightarrow> rf_stream \<Rightarrow> (unit result \<times> rf_stream) option" where
  "rf_send l data s =
     (case send_chunks l (chunks (block_size l) data) s of
        None \<Rightarrow> None
      | Some (Inl e, s') \<Rightarrow> Some (Inl e, s')
      | Some (Inr _, s') \<Rightarrow> Some (drain_window l 0 s'))"

section \<open>Receiving, connecting, closing\<close>

definition take_rx :: "nat \<Rightarrow> (rf_stream, bytes) sx" where
  "take_rx n s = (Inr (take n (rxbuf s)), s\<lparr>rxbuf := drop n (rxbuf s)\<rparr>)"

definition rf_recv :: "rf_link \<Rightarrow> nat \<Rightarrow> (rf_stream, bytes) sx" where
  "rf_recv l n s =
     (if rxbuf s \<noteq> [] then take_rx n s
      else sbind (pump_once l) (\<lambda>got. if got then take_rx n else sret []) s)"

fun connect_tries :: "rf_link \<Rightarrow> nat \<Rightarrow> (rf_stream, unit) sx" where
  "connect_tries l 0 s = (Inl (RfError ''no UA''), s)"
| "connect_tries l (Suc k) s =
     sbind (rf_tx l (SABM OR POLL) [] (-1) False) (\<lambda>_.
     sbind (read_frame l) (\<lambda>fr.
     case fr of
       None \<Rightarrow> connect_tries l k
     | Some (ctrl, _) \<Rightarrow>
         if is_ua ctrl then (\<lambda>s. (Inr (), s\<lparr>s_vs := 0, s_vr := 0, s_va := 0\<rparr>))
         else if ctrl AND 0xEF = DM then (\<lambda>s. (Inl (RfError ''remote refused connection (DM)''), s))
         else connect_tries l k)) s"

definition rf_connect :: "rf_link \<Rightarrow> (rf_stream, unit) sx" where
  "rf_connect l = connect_tries l (retries l)"

text \<open>\<^verbatim>\<open>_flush_acks\<close> swallows every exception: only the state it leaves matters.\<close>

function flush_acks :: "rf_link \<Rightarrow> rf_stream \<Rightarrow> rf_stream" where
  "flush_acks l s =
     (case read_frame l s of
        (Inr (Some (ctrl, payload)), s1) \<Rightarrow>
          let s2 = (if is_i ctrl \<or> is_s ctrl then ack_upto (nr ctrl) s1 else s1) in
          if is_i ctrl then
            (case accept_iframe l ctrl payload s2 of
               (Inl _, s3) \<Rightarrow> s3
             | (Inr _, s3) \<Rightarrow> flush_acks l s3)
          else flush_acks l s2
      | (_, s1) \<Rightarrow> s1)"
  by pat_completeness auto
termination
proof (relation "measure (\<lambda>(l, s). length (inbox s))", goal_cases)
  case (2 l s r s1 x y c p s2 e s3)
  then show ?case
    using read_frame_inbox [of l s r s1] accept_iframe_inbox [of l c p s2]
    by (auto split: if_splits dest: arg_cong [where f = snd])
next
  case (3 l s r s1 x y c p s2)
  then show ?case using read_frame_inbox [of l s r s1] by (auto split: if_splits)
qed simp

declare flush_acks.simps [simp del]

definition rf_close :: "rf_link \<Rightarrow> rf_stream \<Rightarrow> rf_stream" where
  "rf_close l s =
     (if s_closed s then s
      else snd (sbind (rf_tx l (DISC OR POLL) [] (-1) False) (\<lambda>_. read_frame l)
                 (flush_acks l (s\<lparr>s_closed := True\<rparr>))))"


section \<open>One frame per read\<close>

lemma read_loop_one:
  assumes "call_ok me" "call_ok peer" "kiss_clean d"
  shows "read_loop (call_str peer) d (Rx (kiss_encode (iframe_bytes me peer k r p) 0) # evs)
         = (Inr (Some (iframe k r False, p)), d, evs)"
proof -
  have "kiss_feed d (kiss_encode (iframe_bytes me peer k r p) 0) = (d, [iframe_bytes me peer k r p])"
    using kissf.feed_frames [OF assms(3), of "0" "[iframe_bytes me peer k r p]"] by simp
  then show ?thesis
    using assms by (simp add: split_iframe_bytes)
qed

definition rf_ready :: "rf_link \<Rightarrow> station \<Rightarrow> station \<Rightarrow> rf_stream \<Rightarrow> bool" where
  "rf_ready l me peer s \<longleftrightarrow> call_ok me \<and> call_ok peer \<and> my_call l = call_str me
     \<and> peer_call l = call_str peer \<and> digi_path l = [] \<and> kiss_clean (s_dec s)"

text \<open>The client reads one segment that holds one I-frame of the peer.\<close>

definition rf_arrival :: "rf_link \<Rightarrow> station \<Rightarrow> station \<Rightarrow> nat \<Rightarrow> nat \<Rightarrow> bytes \<Rightarrow> rf_stream \<Rightarrow> rf_stream" where
  "rf_arrival l me peer r k p s =
     snd (pump_once l (s\<lparr>inbox := [Rx (kiss_encode (iframe_bytes me peer k r p) 0)]\<rparr>))"

lemma rf_tx_ready:
  assumes "rf_ready l me peer s'"
  shows "rf_tx l c [] (-1) True s = (Inr (), s\<lparr>air := air s @
           [call_field peer False False @ call_field me True True @ [c]]\<rparr>)"
  using assms make_frame_calls [of peer me "[]" "-1" c "[]" True]
  by (simp add: rf_tx_def rf_ready_def)

lemma ack_upto_fields [simp]:
  "s_vr (ack_upto n s) = s_vr s" "rxbuf (ack_upto n s) = rxbuf s" "s_dec (ack_upto n s) = s_dec s"
  by (simp_all add: ack_upto_def split: prod.splits)

lemma rf_arrival_result:
  assumes "rf_ready l me peer s" "k < 8"
  shows "s_dec (rf_arrival l me peer r k p s) = s_dec s
     \<and> s_vr (rf_arrival l me peer r k p s) = (if k = s_vr s then (k + 1) mod 8 else s_vr s)
     \<and> rxbuf (rf_arrival l me peer r k p s) = rxbuf s @ (if k = s_vr s then p else [])"
proof -
  have ok: "call_ok me" "call_ok peer" "peer_call l = call_str peer" "kiss_clean (s_dec s)"
    using assms by (simp_all add: rf_ready_def)
  show ?thesis
    using assms(2) read_loop_one [OF ok(1,2,4), of k r p "[]"]
    by (simp add: rf_arrival_def pump_once_def sbind_def read_frame_def ok on_frame_def Let_def
        iframe_fields accept_iframe_def rf_tx_ready [OF assms(1)] seq8)
qed

interpretation rfrx: arq_receiver "rf_arrival l me peer r" s_vr rxbuf "rf_ready l me peer"
  for l me peer r
  by unfold_locales (auto simp: rf_arrival_result rf_ready_def)

section \<open>Silence\<close>

text \<open>With nothing left to read, a pump times out and only repeats what is unacknowledged.\<close>

lemma pump_silent: "inbox s = [] \<Longrightarrow> pump_once l s = (Inr False, s)"
  by (simp add: pump_once_def sbind_def read_frame_def)

lemma retransmit_keeps:
  "s_vs (snd (retransmit l s)) = s_vs s" "s_va (snd (retransmit l s)) = s_va s"
proof -
  have "s_vs (snd (retransmit_from l n s)) = s_vs s \<and> s_va (snd (retransmit_from l n s)) = s_va s" for n
  proof (induction l n s rule: retransmit_from.induct)
    case (1 l n s)
    show ?case
    proof (cases "n = s_vs s \<or> 8 \<le> n \<or> 8 \<le> s_vs s")
      case True
      then show ?thesis by (simp add: retransmit_from.simps [of l n s])
    next
      case False
      show ?thesis
      proof (cases "unacked s n")
        case None
        with False "1.IH"(1) show ?thesis by (simp add: retransmit_from.simps [of l n s])
      next
        case (Some c)
        obtain e s1 where tx: "rf_tx l (iframe n (s_vr s) False) c PID_NO_L3 False s = (e, s1)"
          by fastforce
        then have "s_vs s1 = s_vs s" "s_va s1 = s_va s" using rf_tx_frame by (metis snd_conv)+
        with False Some tx "1.IH"(2) [OF False Some tx [symmetric]] show ?thesis
          by (cases e) (simp_all add: retransmit_from.simps [of l n s])
      qed
    qed
  qed
  then show "s_vs (snd (retransmit l s)) = s_vs s" "s_va (snd (retransmit l s)) = s_va s"
    by (simp_all add: retransmit_def)
qed

text \<open>Repeating never raises when both callsigns can be encoded.\<close>

definition calls_encode :: "rf_link \<Rightarrow> bool" where
  "calls_encode l \<longleftrightarrow> (\<forall>c p. \<exists>f. make_frame (peer_call l) (my_call l) c p PID_NO_L3 False (digi_path l) = Inr f)"

lemma retransmit_no_exn: "calls_encode l \<Longrightarrow> fst (retransmit_from l n s) = Inr ()"
proof (induction l n s rule: retransmit_from.induct)
  case (1 l n s)
  show ?case
  proof (cases "n = s_vs s \<or> 8 \<le> n \<or> 8 \<le> s_vs s")
    case True
    then show ?thesis by (simp add: retransmit_from.simps [of l n s])
  next
    case False
    show ?thesis
    proof (cases "unacked s n")
      case None
      with False "1" show ?thesis by (simp add: retransmit_from.simps [of l n s])
    next
      case (Some c)
      have "\<exists>s1. rf_tx l (iframe n (s_vr s) False) c PID_NO_L3 False s = (Inr (), s1)"
        using "1.prems" unfolding calls_encode_def rf_tx_def by (metis (no_types, lifting) sum.simps(6))
      then obtain s1 where tx: "rf_tx l (iframe n (s_vr s) False) c PID_NO_L3 False s = (Inr (), s1)"
        by blast
      with False Some "1.IH"(2) [OF False Some tx [symmetric]] "1.prems" show ?thesis
        by (simp add: retransmit_from.simps [of l n s])
    qed
  qed
qed

lemma wait_window_silent:
  assumes "wait_window l s = Some y"
  shows "calls_encode l \<longrightarrow> inbox s = [] \<longrightarrow> outstanding (s_vs s) (s_va s) < 7"
proof (rule wait_window.raw_induct [OF _ assms])
  fix ww :: "rf_link \<Rightarrow> rf_stream \<Rightarrow> (unit result \<times> rf_stream) option" and l s y
  assume IH: "\<And>l s y. ww l s = Some y \<Longrightarrow>
      calls_encode l \<longrightarrow> inbox s = [] \<longrightarrow> outstanding (s_vs s) (s_va s) < 7"
    and body: "(if WINDOW \<le> outstanding (s_vs s) (s_va s) then
        (case pump_once l s of
           (Inl e, s1) \<Rightarrow> Some (Inl e, s1)
         | (Inr got, s1) \<Rightarrow>
             if got then ww l s1
             else (case retransmit l s1 of
                (Inl e, s2) \<Rightarrow> Some (Inl e, s2)
              | (Inr _, s2) \<Rightarrow> ww l s2))
      else Some (Inr (), s)) = Some y"
  show "calls_encode l \<longrightarrow> inbox s = [] \<longrightarrow> outstanding (s_vs s) (s_va s) < 7"
  proof (intro impI, rule ccontr)
    assume en: "calls_encode l" and quiet: "inbox s = []"
      and full: "\<not> outstanding (s_vs s) (s_va s) < 7"
    obtain s2 where re: "retransmit l s = (Inr (), s2)"
      using retransmit_no_exn [OF en] by (metis prod.collapse retransmit_def)
    then have s2: "inbox s2 = []" "s_vs s2 = s_vs s" "s_va s2 = s_va s"
      using retransmit_keeps [of l s] retransmit_inbox [of l s] quiet by simp_all
    have "ww l s2 = Some y" using body full pump_silent [OF quiet] re by simp
    from IH [OF this] en s2 full show False by simp
  qed
qed

lemma drain_silent:
  assumes "calls_encode l" "inbox s = []" "s_va s \<noteq> s_vs s" "tries \<le> retries l * 8"
  shows "fst (drain_window l tries s) = Inl (RfError ''no ack for outstanding I-frames'')"
  using assms(2-)
proof (induction "retries l * 8 - tries" arbitrary: tries s)
  case 0
  obtain s2 where "retransmit l s = (Inr (), s2)"
    using retransmit_no_exn [OF assms(1)] by (metis prod.collapse retransmit_def)
  with 0 show ?case by (subst drain_window.simps) (simp add: pump_silent)
next
  case (Suc n)
  obtain s2 where re: "retransmit l s = (Inr (), s2)"
    using retransmit_no_exn [OF assms(1)] by (metis prod.collapse retransmit_def)
  then have s2: "inbox s2 = []" "s_vs s2 = s_vs s" "s_va s2 = s_va s"
    using retransmit_keeps [of l s] retransmit_inbox [of l s] Suc.prems by simp_all
  have "fst (drain_window l (tries + 1) s2) = Inl (RfError ''no ack for outstanding I-frames'')"
    using Suc.hyps(2) Suc.prems s2 by (intro Suc.hyps(1)) simp_all
  with Suc re show ?case by (subst drain_window.simps) (simp add: pump_silent)
qed

lemma push_chunk_silent:
  assumes "calls_encode l"
  shows "\<exists>s'. push_chunk l c s = (Inr (), s') \<and> inbox s' = inbox s
           \<and> s_va s' = s_va s \<and> s_vs s' = (s_vs s + 1) AND 7"
proof -
  have "\<exists>f. make_frame (peer_call l) (my_call l) (iframe (s_vs s) (s_vr s) False) c PID_NO_L3 False
              (digi_path l) = Inr f"
    using assms by (simp add: calls_encode_def)
  then show ?thesis by (auto simp: push_chunk_def rf_tx_def)
qed

lemma send_chunks_silent:
  assumes "calls_encode l" "inbox s = []"
  shows "if outstanding (s_vs s) (s_va s) + length cs \<le> 7
         then \<exists>s'. send_chunks l cs s = Some (Inr (), s') \<and> inbox s' = []
                \<and> outstanding (s_vs s') (s_va s') = outstanding (s_vs s) (s_va s) + length cs
         else send_chunks l cs s = None"
  using assms(2)
proof (induction cs arbitrary: s)
  case Nil
  then show ?case by simp
next
  case (Cons c cs)
  show ?case
  proof (cases "outstanding (s_vs s) (s_va s) < 7")
    case True
    then have w: "wait_window l s = Some (Inr (), s)" by (simp add: wait_window.simps)
    obtain s' where p: "push_chunk l c s = (Inr (), s')" "inbox s' = []"
        "s_va s' = s_va s" "s_vs s' = (s_vs s + 1) AND 7"
      using push_chunk_silent [OF assms(1), of c s] Cons.prems by auto
    then have "outstanding (s_vs s') (s_va s') = outstanding (s_vs s) (s_va s) + 1"
      using outstanding_Suc [OF True] by simp
    with Cons.IH [of s'] p w True show ?thesis by (simp add: send_chunk_def split: if_splits)
  next
    case False
    then have "wait_window l s = None"
      using wait_window_silent [of l s] assms(1) Cons.prems by (cases "wait_window l s") auto
    with False show ?thesis by (simp add: send_chunk_def)
  qed
qed

lemma outstanding_pos: "outstanding v w \<noteq> 0 \<Longrightarrow> w \<noteq> v"
  by auto

text \<open>Two frames of the peer in one read: the second is lost.\<close>

lemma second_frame_dropped:
  assumes "rf_ready l me peer s"
  shows "pump_once l (s\<lparr>inbox := Rx (kiss_encode (iframe_bytes me peer k r p) 0
                                 @ kiss_encode (iframe_bytes me peer k' r' p') 0) # evs\<rparr>)
       = pump_once l (s\<lparr>inbox := Rx (kiss_encode (iframe_bytes me peer k r p) 0) # evs\<rparr>)"
proof -
  have ok: "call_ok me" "call_ok peer" "peer_call l = call_str peer" "kiss_clean (s_dec s)"
    using assms by (simp_all add: rf_ready_def)
  have "kiss_feed (s_dec s) (kiss_encode f 0 @ kiss_encode f' 0) = (s_dec s, [f, f'])" for f f'
    using kissf.feed_frames [OF ok(4), of "0" "[f, f']"] by simp
  then have "read_loop (call_str peer) (s_dec s)
      (Rx (kiss_encode (iframe_bytes me peer k r p) 0 @ kiss_encode (iframe_bytes me peer k' r' p') 0) # evs)
      = (Inr (Some (iframe k r False, p)), s_dec s, evs)"
    using ok by (simp add: split_iframe_bytes)
  then show ?thesis
    by (simp add: pump_once_def sbind_def read_frame_def ok(3) read_loop_one [OF ok(1,2,4)]
        del: read_loop.simps)
qed

text \<open>An empty answer of \<^verbatim>\<open>recv\<close> is not the end of the stream: when the next frame of the
  peer is an acknowledgement, \<^verbatim>\<open>recv\<close> returns no bytes at once, although the link is up and
  more frames are waiting to be read.\<close>

lemma recv_empty_on_ack:
  assumes "call_ok me" "call_ok peer" "peer_call l = call_str peer" "kiss_clean (s_dec s)"
    and "rxbuf s = []" "inbox s = Rx (kiss_encode f 0) # evs"
    and "make_frame (call_str me) (call_str peer) (rr n False) [] (-1) True [] = Inr f"
  shows "\<exists>s'. rf_recv l k s = (Inr [], s') \<and> inbox s' = evs \<and> s_vr s' = s_vr s"
proof -
  have "rbind (make_frame (call_str me) (call_str peer) (rr n False) [] (-1) True (map call_str []))
          split_frame = Inr (call_str me, call_str peer, map call_str [], rr n False, -1, [])"
    using assms(1,2) rr_kind(7,8) [of n False] by (intro make_split_frame) simp_all
  with assms(7) have split: "split_frame f = Inr (call_str me, call_str peer, [], rr n False, -1, [])"
    by simp
  have "kiss_feed (s_dec s) (kiss_encode f 0) = (s_dec s, [f])"
    using kissf.feed_frames [OF assms(4), of "0" "[f]"] by simp
  then have "read_loop (call_str peer) (s_dec s) (Rx (kiss_encode f 0) # evs)
             = (Inr (Some (rr n False, [])), s_dec s, evs)"
    using split by simp
  then show ?thesis
    using assms(3,5,6)
    by (simp add: rf_recv_def sbind_def pump_once_def read_frame_def on_frame_def rr_kind take_rx_def)
qed

section \<open>Properties\<close>

text \<open>The client's receiver is exactly-once too: any sequence of I-frames of the peer within
  the modulo-8 window, each arriving as bytes through the KISS decoder, appends exactly the
  payloads of the newly accepted frames to the receive buffer, in order.\<close>

theorem rf_receives_exactly_once:
  assumes "rf_ready l me peer s" "s_vr s = n mod 8" "in_window n ks"
  shows "rxbuf (fold (\<lambda>k s. rf_arrival l me peer r (k mod 8) (data k) s) ks s)
         = rxbuf s @ concat (map data [n..<next_expected n ks])"
  using rfrx.arrivals_refine [OF assms, where data = data and r = r] by (simp add: rfrx.arrive_def [abs_def])

theorem rf_receives_exactly_once_witness:
  "rxbuf (fold (\<lambda>k s. rf_arrival \<lparr>my_call = ''KP4CE'', peer_call = ''KP4PR'', digi_path = [],
              block_size = 250, retries = 3\<rparr> (''KP4CE'', 0) (''KP4PR'', 0) 0 (k mod 8) [0x46] s)
            [0, 0, 2, 1] (stream_init []))
   = rxbuf (stream_init []) @ concat (map (\<lambda>k. [0x46]) [0..<next_expected 0 [0, 0, 2, 1]])"
  by (rule rf_receives_exactly_once)
     (simp_all add: rf_ready_def stream_init_def is_upper_def is_digit_def ord_def)

text \<open>C36. A peer that has gone silent: up to seven chunks, \<^verbatim>\<open>send\<close> repeats a bounded number of
  times and raises; from eight chunks on it never returns, because the wait for a free slot in
  \<^verbatim>\<open>_send_chunk\<close> has no retry limit.\<close>

theorem send_to_silent_peer:
  assumes "calls_encode l" "inbox s = []" "s_va s = s_vs s" "data \<noteq> []" "0 < block_size l"
  shows "if length (chunks (block_size l) data) \<le> 7
         then \<exists>s'. rf_send l data s = Some (Inl (RfError ''no ack for outstanding I-frames''), s')
         else rf_send l data s = None"
proof (cases "length (chunks (block_size l) data) \<le> 7")
  case True
  have "chunks (block_size l) data \<noteq> []" using assms by (simp add: chunks_rec)
  then have ne: "0 < length (chunks (block_size l) data)" by simp
  obtain s' where s': "send_chunks l (chunks (block_size l) data) s = Some (Inr (), s')" "inbox s' = []"
      "outstanding (s_vs s') (s_va s') = length (chunks (block_size l) data)"
    using send_chunks_silent [OF assms(1,2), of "chunks (block_size l) data"] True assms(3) by auto
  then have "s_va s' \<noteq> s_vs s'" using ne outstanding_pos [of "s_vs s'" "s_va s'"] by simp
  then have "fst (drain_window l 0 s') = Inl (RfError ''no ack for outstanding I-frames'')"
    using s' by (intro drain_silent [OF assms(1)]) simp_all
  with True s' show ?thesis by (cases "drain_window l 0 s'") (simp add: rf_send_def)
next
  case False
  then show ?thesis
    using send_chunks_silent [OF assms(1,2), of "chunks (block_size l) data"] assms(3)
    by (simp add: rf_send_def)
qed

lemma calls_encode_station:
  "call_ok me \<Longrightarrow> call_ok peer \<Longrightarrow> my_call l = call_str me \<Longrightarrow> peer_call l = call_str peer \<Longrightarrow>
   digi_path l = [] \<Longrightarrow> calls_encode l"
  using make_frame_calls [of peer me "[]" PID_NO_L3] by (simp add: calls_encode_def)

theorem send_to_silent_peer_witness:
  "if length (chunks 1 (replicate 8 (0x46::byte))) \<le> 7
   then \<exists>s'. rf_send \<lparr>my_call = ''KP4CE'', peer_call = ''KP4PR'', digi_path = [], block_size = 1,
               retries = 3\<rparr> (replicate 8 0x46) (stream_init [])
             = Some (Inl (RfError ''no ack for outstanding I-frames''), s')
   else rf_send \<lparr>my_call = ''KP4CE'', peer_call = ''KP4PR'', digi_path = [], block_size = 1,
               retries = 3\<rparr> (replicate 8 0x46) (stream_init []) = None"
proof -
  let ?l = "\<lparr>my_call = ''KP4CE'', peer_call = ''KP4PR'', digi_path = [], block_size = 1, retries = 3\<rparr>"
  have "calls_encode ?l"
    by (rule calls_encode_station [of "(''KP4CE'', 0)" "(''KP4PR'', 0)"])
       (simp_all add: is_upper_def is_digit_def ord_def)
  then show ?thesis
    using send_to_silent_peer [of ?l "stream_init []" "replicate 8 0x46"]
    by (simp add: stream_init_def)
qed

end
