(* ===== verification/Rms_Gateway.thy ===== *)
theory Rms_Gateway
  imports Ax25 Arq
begin

text \<open>
  The RF side of the Winlink RMS gateway (class \<^verbatim>\<open>Gateway\<close> of src/src/rms/gateway.py): the
  handler of received AX.25 frames, the task that relays CMS bytes to the radio, and the
  session they share. A step of the system is one received frame handled or one step of
  the relay task between two suspension points; what the network does (does the CMS
  connection succeed, does a write to it raise, what does a read return) is an argument.
  Writes to the Dire Wolf socket are taken to succeed.

  \<^verbatim>\<open>self.cms_task\<close> is \<open>relay\<close>: \<^const>\<open>None\<close> for no task or a finished one, otherwise where the task
  is suspended. A task that was created but never ran is a state of its own, because
  cancelling it does not run its \<^verbatim>\<open>finally\<close> block.
\<close>

section \<open>State\<close>

datatype relay_pc =
    RNew                 \<comment> \<open>created, not started\<close>
  | RRecv                \<comment> \<open>awaiting \<^verbatim>\<open>cms.recv(220)\<close>\<close>
  | RSend "bytes list"   \<comment> \<open>in the chunk loop, with the chunks still to send\<close>

text \<open>An open CMS session: the station it logged in for and the bytes sent on it.\<close>

record cms_conn =
  c_remote :: string
  c_sent :: bytes

record gateway =
  link :: "link_state option"
  cms :: "cms_conn option"
  relay :: "relay_pc option"
  closed :: "cms_conn list"
  radio :: "bytes list"
  status :: string

definition gateway_init :: gateway where
  "gateway_init = \<lparr>link = None, cms = None, relay = None, closed = [], radio = [],
                   status = ''starting''\<rparr>"

text \<open>What the CMS socket does while a handler runs.\<close>

record cms_env =
  e_connect :: "exn option"
  e_send :: "exn option"

type_synonym outcome = "gateway \<times> exn option"

definition then_do :: "outcome \<Rightarrow> (gateway \<Rightarrow> outcome) \<Rightarrow> outcome" where
  "then_do r f = (case r of (g, None) \<Rightarrow> f g | (g, Some e) \<Rightarrow> (g, Some e))"

definition tx :: "bytes result \<Rightarrow> gateway \<Rightarrow> outcome" where
  "tx r g = (case r of Inl e \<Rightarrow> (g, Some e) | Inr f \<Rightarrow> (g\<lparr>radio := radio g @ [f]\<rparr>, None))"

definition close_cms :: "gateway \<Rightarrow> gateway" where
  "close_cms g = g\<lparr>closed := closed g @ (case cms g of None \<Rightarrow> [] | Some c \<Rightarrow> [c])\<rparr>"

definition close_session :: "gateway \<Rightarrow> gateway" where
  "close_session g = (close_cms g)\<lparr>cms := None, link := None, status := ''listening''\<rparr>"

section \<open>The relay task\<close>

definition relay_exit :: "gateway \<Rightarrow> gateway" where
  "relay_exit g = (close_session g)\<lparr>relay := None\<rparr>"

text \<open>The head of the \<^verbatim>\<open>while self.link and self.cms\<close> loop.\<close>

definition relay_head :: "gateway \<Rightarrow> gateway" where
  "relay_head g = (if link g \<noteq> None \<and> cms g \<noteq> None then g\<lparr>relay := Some RRecv\<rparr> else relay_exit g)"

definition relay_chunk :: "string \<Rightarrow> gateway \<Rightarrow> bytes \<Rightarrow> bytes list \<Rightarrow> gateway" where
  "relay_chunk cms_call g chunk rest =
     (case link g of
        None \<Rightarrow> relay_head g
      | Some l \<Rightarrow>
          if 7 \<le> outstanding (vs l) (va l) then g
          else let c = iframe (vs l) (vr l) False;
                   g' = g\<lparr>link := Some (l\<lparr>vs := (vs l + 1) AND 7\<rparr>)\<rparr>
               in (case tx (make_frame (remote l) cms_call c chunk PID_NO_L3 False []) g' of
                     (g'', None) \<Rightarrow> g''\<lparr>relay := Some (RSend rest)\<rparr>
                   | (g'', Some e) \<Rightarrow> relay_exit (g''\<lparr>status := ''cms_error''\<rparr>)))"

datatype relay_event = Run | Data bytes | Fail

fun relay_step :: "string \<Rightarrow> relay_event \<Rightarrow> gateway \<Rightarrow> gateway" where
  "relay_step call Run g =
     (case relay g of
        Some RNew \<Rightarrow> relay_head g
      | Some (RSend []) \<Rightarrow> relay_head g
      | Some (RSend (c # cs)) \<Rightarrow> relay_chunk call g c cs
      | _ \<Rightarrow> g)"
| "relay_step call (Data d) g =
     (if relay g = Some RRecv then
        (if d = [] then relay_exit g else g\<lparr>relay := Some (RSend (chunks 200 d))\<rparr>)
      else g)"
| "relay_step call Fail g =
     (if relay g = Some RRecv then relay_exit (g\<lparr>status := ''cms_error''\<rparr>) else g)"

section \<open>The frame handler\<close>

definition busy_with_other :: "gateway \<Rightarrow> string \<Rightarrow> bool" where
  "busy_with_other g src \<longleftrightarrow> cms g \<noteq> None \<and> \<not> (\<exists>l. link g = Some l \<and> remote l = src)"

definition cancel_relay :: "gateway \<Rightarrow> gateway" where
  "cancel_relay g =
     (case relay g of
        None \<Rightarrow> g
      | Some RNew \<Rightarrow> g\<lparr>relay := None\<rparr>
      | Some _ \<Rightarrow> relay_exit g)"

definition start_new_session :: "cms_env \<Rightarrow> string \<Rightarrow> gateway \<Rightarrow> outcome" where
  "start_new_session env remote_call g =
     ((close_cms (cancel_relay g))\<lparr>cms := Some \<lparr>c_remote = remote_call, c_sent = []\<rparr>\<rparr>, e_connect env)"

definition with_f :: "byte \<Rightarrow> bool \<Rightarrow> byte" where
  "with_f ctrl pf = ctrl OR (if pf then 0x10 else 0)"

text \<open>The \<^verbatim>\<open>try\<close> block of the SABM branch, once the UA is on the air.\<close>

definition open_session :: "string \<Rightarrow> cms_env \<Rightarrow> string \<Rightarrow> gateway \<Rightarrow> outcome" where
  "open_session mycall env src g =
     (case start_new_session env src (g\<lparr>status := ''connecting_cms''\<rparr>) of
        (g2, None) \<Rightarrow> (g2\<lparr>status := ''connected'', relay := Some RNew\<rparr>, None)
      | (g2, Some e) \<Rightarrow>
          then_do (tx (make_frame src mycall DM [] (-1) True []) (g2\<lparr>status := ''cms_error''\<rparr>))
            (\<lambda>g3. (close_session g3, None)))"

definition handle_sabm :: "string \<Rightarrow> cms_env \<Rightarrow> gateway \<Rightarrow> string \<Rightarrow> byte \<Rightarrow> outcome" where
  "handle_sabm mycall env g src ctrl =
     (let pf_in = poll_bit ctrl in
      if busy_with_other g src then
        tx (make_frame src mycall (with_f DM pf_in) [] (-1) True []) g
      else
        then_do (tx (make_frame src mycall (with_f UA pf_in) [] (-1) True [])
                   (g\<lparr>link := Some (new_link src)\<rparr>))
          (open_session mycall env src))"

definition cms_send :: "cms_env \<Rightarrow> bytes \<Rightarrow> gateway \<Rightarrow> outcome" where
  "cms_send env payload g =
     (case cms g of
        None \<Rightarrow> (g, None)
      | Some c \<Rightarrow>
          if payload = [] then (g, None)
          else case e_send env of
                 None \<Rightarrow> (g\<lparr>cms := Some (c\<lparr>c_sent := c_sent c @ payload\<rparr>)\<rparr>, None)
               | Some e \<Rightarrow> (g, Some e))"

text \<open>A frame other than SABM from the station of the link \<open>l\<close>.\<close>

definition handle_link ::
    "string \<Rightarrow> cms_env \<Rightarrow> gateway \<Rightarrow> link_state \<Rightarrow> byte \<Rightarrow> bytes \<Rightarrow> outcome" where
  "handle_link mycall env g l ctrl payload =
     (let src = remote l; pf_in = poll_bit ctrl in
      if is_disc ctrl then
        then_do (tx (make_frame src mycall (with_f UA pf_in) [] (-1) True []) g)
          (\<lambda>g1. (close_session g1, None))
      else
        let l1 = (if is_i ctrl \<or> is_s ctrl then l\<lparr>va := nr ctrl\<rparr> else l);
            g1 = g\<lparr>link := Some l1\<rparr>
        in if is_i ctrl then
             if ns ctrl = vr l1 then
               let l2 = l1\<lparr>vr := (vr l1 + 1) AND 7\<rparr> in
               then_do (tx (make_frame src mycall (rr (vr l2) pf_in) [] (-1) True [])
                          (g1\<lparr>link := Some l2\<rparr>)) (cms_send env payload)
             else tx (make_frame src mycall (rr (vr l1) True) [] (-1) True []) g1
           else (g1, None))"

definition handle :: "string \<Rightarrow> cms_env \<Rightarrow> gateway \<Rightarrow> bytes \<Rightarrow> outcome" where
  "handle cms_call env g raw =
     (case split_frame raw of
        Inl _ \<Rightarrow> (g, None)
      | Inr (dest, src, path, ctrl, pid, payload) \<Rightarrow>
          let mycall = upper cms_call in
          if upper dest \<noteq> mycall then (g, None)
          else if is_sabm ctrl then handle_sabm mycall env g src ctrl
          else (case link g of
                  None \<Rightarrow> (g, None)
                | Some l \<Rightarrow> if src \<noteq> remote l then (g, None)
                            else handle_link mycall env g l ctrl payload))"

section \<open>Reachable states\<close>

inductive gw_step :: "string \<Rightarrow> gateway \<Rightarrow> gateway \<Rightarrow> bool" for call where
  on_frame: "gw_step call g (fst (handle call env g raw))"
| on_relay: "gw_step call g (relay_step call ev g)"

inductive gw_reach :: "string \<Rightarrow> gateway \<Rightarrow> bool" for call where
  reach_init: "gw_reach call gateway_init"
| reach_step: "gw_reach call g \<Longrightarrow> gw_step call g g' \<Longrightarrow> gw_reach call g'"

definition seq_ok :: "link_state \<Rightarrow> bool" where
  "seq_ok l \<longleftrightarrow> vs l < 8 \<and> vr l < 8 \<and> va l < 8"

text \<open>
  The session invariant: counters stay below eight; an open CMS session always has a relay
  task that will close it; and it was opened for the station that holds the link.
\<close>

definition gw_inv :: "gateway \<Rightarrow> bool" where
  "gw_inv g \<longleftrightarrow>
     (\<forall>l. link g = Some l \<longrightarrow> seq_ok l)
     \<and> (cms g \<noteq> None \<longrightarrow> relay g \<noteq> None)
     \<and> (\<forall>l c. link g = Some l \<longrightarrow> cms g = Some c \<longrightarrow> c_remote c = remote l)"

lemmas session_defs = close_session_def close_cms_def relay_exit_def relay_head_def

lemma then_do_fst:
  "P (fst r) \<Longrightarrow> (\<And>g. r = (g, None) \<Longrightarrow> P (fst (f g))) \<Longrightarrow> P (fst (then_do r f))"
  by (auto simp: then_do_def split: prod.splits option.splits)

lemma tx_fields [simp]:
  "link (fst (tx r g)) = link g" "cms (fst (tx r g)) = cms g" "relay (fst (tx r g)) = relay g"
  "closed (fst (tx r g)) = closed g" "status (fst (tx r g)) = status g"
  by (simp_all add: tx_def split: sum.splits)

lemma tx_None: "tx r g = (g', None) \<Longrightarrow> \<exists>f. r = Inr f \<and> g' = g\<lparr>radio := radio g @ [f]\<rparr>"
  by (auto simp: tx_def split: sum.splits)

lemma gw_inv_tx: "gw_inv g \<Longrightarrow> gw_inv (fst (tx r g))"
  by (simp add: gw_inv_def)

lemma gw_inv_close: "gw_inv (close_session g)" "gw_inv (relay_exit g)"
  by (simp_all add: gw_inv_def session_defs)

lemma seq_ok_new [simp]: "seq_ok (new_link src)" "remote (new_link src) = src"
  by (simp_all add: seq_ok_def new_link_def)

lemma link_start_new_session:
  "start_new_session env src g = (g', e) \<Longrightarrow>
     (link g' = link g \<or> link g' = None) \<and> cms g' = Some \<lparr>c_remote = src, c_sent = []\<rparr>
     \<and> e = e_connect env"
  by (auto simp: start_new_session_def cancel_relay_def session_defs
      split: option.splits relay_pc.splits)

lemma gw_inv_open_session:
  assumes "link g = Some (new_link src)" "gw_inv g" "\<And>f. make_frame src call DM [] (-1) True [] \<noteq> Inl f"
  shows "gw_inv (fst (open_session call env src g))"
proof -
  obtain g2 e where g2: "start_new_session env src (g\<lparr>status := ''connecting_cms''\<rparr>) = (g2, e)"
    by fastforce
  note facts = link_start_new_session [OF g2]
  show ?thesis
  proof (cases e)
    case None
    with facts assms(1) show ?thesis
      by (auto simp: open_session_def g2 gw_inv_def)
  next
    case (Some x)
    with assms(3) show ?thesis
      by (auto simp: open_session_def g2 then_do_def tx_def gw_inv_close split: sum.splits)
  qed
qed

text \<open>\<^verbatim>\<open>make_frame\<close> raises, if at all, on one of the two callsigns: never because of the control byte.\<close>

lemma make_frame_ctrl_Inr:
  "make_frame d s c p pid r [] = Inr f \<Longrightarrow> \<exists>f'. make_frame d s c' [] (-1) r [] = Inr f'"
  by (auto simp: make_frame_def rbind_eq_Inr split: if_splits)

lemma gw_inv_sabm:
  assumes "gw_inv g"
  shows "gw_inv (fst (handle_sabm call env g src ctrl))"
proof (cases "busy_with_other g src")
  case True
  with assms show ?thesis by (simp add: handle_sabm_def Let_def gw_inv_tx)
next
  case False
  let ?g0 = "g\<lparr>link := Some (new_link src)\<rparr>"
  have g0: "gw_inv ?g0"
    using assms False by (auto simp: gw_inv_def busy_with_other_def)
  show ?thesis
  proof (cases "make_frame src call (with_f UA (poll_bit ctrl)) [] (-1) True []")
    case (Inl e)
    with False g0 show ?thesis by (simp add: handle_sabm_def tx_def then_do_def)
  next
    case (Inr f)
    then have "\<And>e. make_frame src call DM [] (-1) True [] \<noteq> Inl e"
      using make_frame_ctrl_Inr [of src call _ _ _ True f DM] by auto
    moreover have "gw_inv (?g0\<lparr>radio := radio g @ [f]\<rparr>)"
      using g0 by (simp add: gw_inv_def)
    ultimately show ?thesis
      using False Inr by (simp add: handle_sabm_def tx_def then_do_def gw_inv_open_session)
  qed
qed

lemma gw_inv_cms_send: "gw_inv g \<Longrightarrow> gw_inv (fst (cms_send env payload g))"
  by (auto simp: cms_send_def gw_inv_def split: option.splits)

lemma gw_inv_set_link:
  "gw_inv g \<Longrightarrow> link g = Some l \<Longrightarrow> remote l' = remote l \<Longrightarrow> seq_ok l' \<Longrightarrow>
   gw_inv (g\<lparr>link := Some l'\<rparr>)"
  by (auto simp: gw_inv_def)

lemma gw_inv_tx_then:
  "gw_inv g \<Longrightarrow> (\<And>g1. gw_inv g1 \<Longrightarrow> gw_inv (fst (f g1))) \<Longrightarrow> gw_inv (fst (then_do (tx r g) f))"
  using gw_inv_tx [of g r] by (auto intro: then_do_fst)

lemma gw_inv_link:
  assumes g: "gw_inv g" and l: "link g = Some l"
  shows "gw_inv (fst (handle_link call env g l ctrl payload))"
proof -
  have ok: "seq_ok l" using g l by (simp add: gw_inv_def)
  have set: "gw_inv (g\<lparr>link := Some (l\<lparr>va := nr ctrl\<rparr>)\<rparr>)"
       "gw_inv (g\<lparr>link := Some l\<rparr>)"
       "gw_inv (g\<lparr>link := Some (l\<lparr>va := nr ctrl, vr := (vr l + 1) AND 7\<rparr>)\<rparr>)"
    using ok by (auto intro!: gw_inv_set_link [OF g l] simp: seq_ok_def seq8)
  have disc: "gw_inv (fst (then_do (tx r g) (\<lambda>g1. (close_session g1, None))))" for r
    using g by (intro gw_inv_tx_then) (simp_all add: gw_inv_close)
  have acc: "gw_inv (fst (then_do (tx r (g\<lparr>link := Some (l\<lparr>va := nr ctrl, vr := (vr l + 1) AND 7\<rparr>)\<rparr>))
                            (cms_send env payload)))" for r
    using set by (intro gw_inv_tx_then gw_inv_cms_send)
  show ?thesis
    using disc acc set gw_inv_tx
    by (simp add: handle_link_def Let_def split del: if_split split: if_split)
qed

lemma gw_inv_handle: "gw_inv g \<Longrightarrow> gw_inv (fst (handle call env g raw))"
  by (auto simp: handle_def Let_def gw_inv_sabm gw_inv_link split: sum.splits option.splits)

lemma gw_inv_relay_head: "gw_inv g \<Longrightarrow> gw_inv (relay_head g)"
  by (auto simp: relay_head_def gw_inv_close) (auto simp: gw_inv_def)

lemma gw_inv_relay_chunk:
  assumes "gw_inv g" and "relay g \<noteq> None"
  shows "gw_inv (relay_chunk call g c cs)"
proof (cases "link g")
  case None
  with assms show ?thesis by (simp add: relay_chunk_def gw_inv_relay_head)
next
  case (Some l)
  then have "gw_inv (g\<lparr>link := Some (l\<lparr>vs := (vs l + 1) AND 7\<rparr>)\<rparr>)"
    using assms by (intro gw_inv_set_link) (auto simp: gw_inv_def seq_ok_def seq8)
  then show ?thesis
    using assms Some
    by (auto simp: relay_chunk_def Let_def tx_def gw_inv_close split: sum.splits)
       (auto simp: gw_inv_def)
qed

lemma gw_inv_relay_step: "gw_inv g \<Longrightarrow> gw_inv (relay_step call ev g)"
  by (cases ev)
     (auto simp: gw_inv_relay_head gw_inv_relay_chunk gw_inv_close
        split: option.splits relay_pc.splits list.splits, auto simp: gw_inv_def)

lemma gw_reach_inv: "gw_reach call g \<Longrightarrow> gw_inv g"
proof (induction rule: gw_reach.induct)
  case reach_init
  show ?case by (simp add: gw_inv_def gateway_init_def)
next
  case (reach_step g g')
  then show ?case by (auto elim!: gw_step.cases simp: gw_inv_handle gw_inv_relay_step)
qed

section \<open>I-frames from the linked station\<close>

lemma handle_iframe:
  assumes "call_ok gws" "call_ok st" "link g = Some l" "remote l = call_str st"
  shows "handle (call_str gws) env g (iframe_bytes gws st k r p)
         = handle_link (call_str gws) env g l (iframe k r False) p"
  using assms
  by (simp add: handle_def split_iframe_bytes Let_def call_str_plain iframe_not_u)

text \<open>The bytes of a response frame of the gateway to station \<open>st\<close>.\<close>

definition reply_bytes :: "station \<Rightarrow> station \<Rightarrow> byte \<Rightarrow> bytes" where
  "reply_bytes st gws c = call_field st False False @ call_field gws True True @ [c]"

lemma tx_calls:
  assumes "call_ok gws" "call_ok st"
  shows "tx (make_frame (call_str st) (call_str gws) c [] (-1) True []) g
         = (g\<lparr>radio := radio g @ [reply_bytes st gws c]\<rparr>, None)"
  using make_frame_calls [OF assms(2,1), of "[]" "-1" c "[]" True]
  by (simp add: tx_def reply_bytes_def)

definition gw_expected :: "gateway \<Rightarrow> nat" where
  "gw_expected g = (case link g of None \<Rightarrow> 0 | Some l \<Rightarrow> vr l)"

definition gw_delivered :: "gateway \<Rightarrow> bytes" where
  "gw_delivered g = (case cms g of None \<Rightarrow> [] | Some c \<Rightarrow> c_sent c)"

definition gw_ready :: "station \<Rightarrow> station \<Rightarrow> cms_env \<Rightarrow> gateway \<Rightarrow> bool" where
  "gw_ready gws st env g \<longleftrightarrow> call_ok gws \<and> call_ok st \<and> e_send env = None \<and> cms g \<noteq> None
     \<and> (\<exists>l. link g = Some l \<and> remote l = call_str st)"

lemma gw_readyE:
  assumes "gw_ready gws st env g"
  obtains l c where "link g = Some l" "remote l = call_str st" "cms g = Some c"
    "call_ok gws" "call_ok st" "e_send env = None"
  using assms by (auto simp: gw_ready_def)

text \<open>One I-frame: the expected one is acknowledged and forwarded, any other only re-polled.\<close>

lemma handle_iframe_result:
  assumes "call_ok gws" "call_ok st" "e_send env = None"
    and "link g = Some l" "remote l = call_str st" "cms g = Some c" "k < 8"
  shows "fst (handle (call_str gws) env g (iframe_bytes gws st k r p)) =
     (if k = vr l then
        g\<lparr>link := Some (l\<lparr>va := r mod 8, vr := (k + 1) mod 8\<rparr>),
          radio := radio g @ [reply_bytes st gws (rr ((k + 1) mod 8) False)],
          cms := Some (c\<lparr>c_sent := c_sent c @ p\<rparr>)\<rparr>
      else
        g\<lparr>link := Some (l\<lparr>va := r mod 8\<rparr>),
          radio := radio g @ [reply_bytes st gws (rr (vr l) True)]\<rparr>)"
proof -
  note h = handle_iframe [OF assms(1,2,4,5), of env k r p]
  show ?thesis
    unfolding h handle_link_def Let_def
    using assms
    by (cases g; cases c)
       (simp add: iframe_not_u iframe_fields and7_nat tx_calls [OF assms(1,2)]
        then_do_def cms_send_def)
qed

interpretation gwrx: arq_receiver
  "\<lambda>k p g. fst (handle (call_str gws) env g (iframe_bytes gws st k r p))"
  gw_expected gw_delivered "gw_ready gws st env"
  for gws st env r
proof (unfold_locales, goal_cases)
  case (1 s k p)
  then show ?case by (auto elim!: gw_readyE simp: handle_iframe_result gw_ready_def)
next
  case (2 s k p)
  then show ?case
    by (auto elim!: gw_readyE simp: handle_iframe_result gw_expected_def gw_delivered_def)
next
  case (3 s k p)
  then show ?case
    by (auto elim!: gw_readyE simp: handle_iframe_result gw_expected_def gw_delivered_def)
qed

section \<open>The relay task over several steps\<close>

text \<open>How many I-frames the relay may still send before an acknowledgement.\<close>

definition credit :: "gateway \<Rightarrow> nat" where
  "credit g = (case link g of None \<Rightarrow> 0 | Some l \<Rightarrow> 7 - outstanding (vs l) (va l))"

lemma close_radio [simp]:
  "radio (relay_exit g) = radio g" "radio (relay_head g) = radio g"
  "link (relay_exit g) = None" "credit (relay_exit g) = 0"
  by (simp_all add: session_defs credit_def)

lemma credit_relay_head: "credit (relay_head g) \<le> credit g"
  by (simp add: relay_head_def credit_def)

lemma relay_chunk_credit:
  "length (radio (relay_chunk call g c cs)) + credit (relay_chunk call g c cs)
     \<le> length (radio g) + credit g"
proof (cases "link g")
  case None
  then show ?thesis by (simp add: relay_chunk_def credit_relay_head)
next
  case (Some l)
  then show ?thesis
    by (cases "7 \<le> outstanding (vs l) (va l)")
       (use outstanding_Suc [of "vs l" "va l"] in
        \<open>auto simp: relay_chunk_def Let_def tx_def credit_def split: sum.splits\<close>)
qed

lemma relay_step_credit:
  "length (radio (relay_step call ev g)) + credit (relay_step call ev g)
     \<le> length (radio g) + credit g"
  by (cases ev)
     (auto simp: relay_chunk_credit credit_relay_head split: option.splits relay_pc.splits list.splits,
      auto simp: credit_def)

lemma relay_steps_credit:
  "length (radio (fold (relay_step call) evs g)) + credit (fold (relay_step call) evs g)
     \<le> length (radio g) + credit g"
proof (induction evs arbitrary: g)
  case (Cons ev evs)
  show ?case
    using Cons.IH [of "relay_step call ev g"] relay_step_credit [of call ev g] by simp
qed simp

lemma relay_chunk_open:
  assumes "call_ok gws" "call_ok st" "link g = Some l" "remote l = call_str st"
    and "outstanding (vs l) (va l) < 7"
  shows "relay_chunk (call_str gws) g c cs =
     g\<lparr>link := Some (l\<lparr>vs := (vs l + 1) mod 8\<rparr>),
       radio := radio g @ [iframe_bytes st gws (vs l) (vr l) c], relay := Some (RSend cs)\<rparr>"
  using assms by (simp add: relay_chunk_def Let_def iframe_bytes_make tx_def seq8)

text \<open>The relay task scheduled \<open>n\<close> times.\<close>

fun relay_run :: "string \<Rightarrow> nat \<Rightarrow> gateway \<Rightarrow> gateway" where
  "relay_run call 0 g = g"
| "relay_run call (Suc n) g = relay_run call n (relay_step call Run g)"

lemma relay_sends_chunks:
  assumes "call_ok gws" "call_ok st" "remote l = call_str st"
    and "link g = Some l" "cms g \<noteq> None" "relay g = Some (RSend cs)"
    and "outstanding (vs l) (va l) + length cs \<le> 7" "vs l < 8"
  shows "relay_run (call_str gws) (Suc (length cs)) g =
     g\<lparr>link := Some (l\<lparr>vs := (vs l + length cs) mod 8\<rparr>), relay := Some RRecv,
       radio := radio g @ map (\<lambda>i. iframe_bytes st gws ((vs l + i) mod 8) (vr l) (cs ! i))
                              [0..<length cs]\<rparr>"
  using assms(3-)
proof (induction cs arbitrary: g l)
  case Nil
  then show ?case by (simp add: relay_head_def)
next
  case (Cons c cs)
  let ?l = "l\<lparr>vs := (vs l + 1) mod 8\<rparr>"
  let ?g = "g\<lparr>link := Some ?l, radio := radio g @ [iframe_bytes st gws (vs l) (vr l) c],
              relay := Some (RSend cs)\<rparr>"
  have step: "relay_step (call_str gws) Run g = ?g"
    using Cons.prems relay_chunk_open [OF assms(1,2), of g l c cs] by simp
  have out: "outstanding ((vs l + 1) mod 8) (va l) = outstanding (vs l) (va l) + 1"
    using outstanding_Suc [of "vs l" "va l"] Cons.prems by (simp add: seq8)
  have IH: "relay_run (call_str gws) (Suc (length cs)) ?g =
     ?g\<lparr>link := Some (?l\<lparr>vs := (vs ?l + length cs) mod 8\<rparr>), relay := Some RRecv,
       radio := radio ?g @ map (\<lambda>i. iframe_bytes st gws ((vs ?l + i) mod 8) (vr ?l) (cs ! i))
                              [0..<length cs]\<rparr>"
    using Cons.prems out by (intro Cons.IH) simp_all
  have idx: "map f [0..<Suc n] = f 0 # map (\<lambda>i. f (Suc i)) [0..<n]" for f :: "nat \<Rightarrow> bytes" and n
    by (simp add: map_upt_Suc del: upt_Suc)
  have run: "relay_run (call_str gws) (Suc (length (c # cs))) g
        = relay_run (call_str gws) (Suc (length cs)) ?g"
    by (simp only: length_Cons relay_run.simps(2) [of _ "Suc (length cs)"] step)
  show ?case
    unfolding run using IH Cons.prems
    by (simp add: idx mod_simps del: relay_run.simps relay_step.simps upt_Suc)
qed

section \<open>Frames of other stations, and a station that reconnects\<close>

lemma busy_other: "link g = Some l \<Longrightarrow> remote l \<noteq> src \<Longrightarrow> cms g \<noteq> None \<Longrightarrow> busy_with_other g src"
  by (simp add: busy_with_other_def)

definition sabm_bytes :: "station \<Rightarrow> station \<Rightarrow> bool \<Rightarrow> bytes" where
  "sabm_bytes gws st pf =
     (case make_frame (call_str gws) (call_str st) (with_f 0x2F pf) [] (-1) False [] of
        Inr f \<Rightarrow> f | Inl _ \<Rightarrow> [])"

lemma with_f_sabm: "is_sabm (with_f 0x2F pf)" "poll_bit (with_f 0x2F pf) = pf"
  by (simp_all add: with_f_def is_sabm_def poll_bit_def)

lemma split_sabm_bytes:
  assumes "call_ok gws" "call_ok st"
  shows "split_frame (sabm_bytes gws st pf)
         = Inr (call_str gws, call_str st, [], with_f 0x2F pf, -1, [])"
proof -
  have "rbind (make_frame (call_str gws) (call_str st) (with_f 0x2F pf) [] (-1) False
               (map call_str [])) split_frame
        = Inr (call_str gws, call_str st, map call_str [], with_f 0x2F pf, -1, [])"
    using assms by (intro make_split_frame) (simp_all add: with_f_def)
  then show ?thesis by (auto simp: sabm_bytes_def split: sum.splits)
qed

lemma handle_sabm_bytes:
  assumes "call_ok gws" "call_ok st" "\<not> busy_with_other g (call_str st)"
  shows "handle (call_str gws) env g (sabm_bytes gws st pf)
         = open_session (call_str gws) env (call_str st)
             (g\<lparr>link := Some (new_link (call_str st)),
                radio := radio g @ [reply_bytes st gws (with_f UA pf)]\<rparr>)"
  using assms
  by (simp add: handle_def split_sabm_bytes Let_def call_str_plain with_f_sabm handle_sabm_def
      tx_calls [OF assms(1,2)] then_do_def)

section \<open>Properties\<close>

text \<open>C3. Exactly-once forwarding: while a session is up, any sequence of I-frames from the
  linked station whose true numbers stay within the modulo-8 window (retransmissions,
  duplicates and gaps included) puts on the CMS stream exactly the payloads of the frames
  from the first expected one to the last accepted one, each once and in order.\<close>

theorem rms_forwards_exactly_once:
  assumes "gw_ready gws st env g" "gw_expected g = n mod 8" "in_window n ks"
  shows "gw_delivered (fold (\<lambda>k g. fst (handle (call_str gws) env g
                               (iframe_bytes gws st (k mod 8) r (data k)))) ks g)
         = gw_delivered g @ concat (map data [n..<next_expected n ks])"
  using gwrx.arrivals_refine [OF assms, of r data] by (simp add: gwrx.arrive_def [abs_def])

definition sample_session :: gateway where
  "sample_session = gateway_init\<lparr>link := Some (new_link ''KP4CE''), relay := Some RRecv,
     cms := Some \<lparr>c_remote = ''KP4CE'', c_sent = []\<rparr>\<rparr>"

theorem rms_forwards_exactly_once_witness:
  "gw_delivered (fold (\<lambda>k g. fst (handle ''KP4PRA-10'' \<lparr>e_connect = None, e_send = None\<rparr> g
       (iframe_bytes (''KP4PRA'', 10) (''KP4CE'', 0) (k mod 8) 0 ([[0x46], [0x43]] ! k))))
       [0, 0, 1, 0] sample_session)
   = gw_delivered sample_session @ concat (map (\<lambda>k. [[0x46], [0x43]] ! k) [0..<2])"
proof -
  have kp: "call_str (''KP4PRA'', 10) = ''KP4PRA-10''" by (simp add: py_eval)
  show ?thesis
    using rms_forwards_exactly_once [of "(''KP4PRA'', 10)" "(''KP4CE'', 0)"
        "\<lparr>e_connect = None, e_send = None\<rparr>" sample_session 0 "[0, 0, 1, 0]" 0
        "\<lambda>k. [[0x46], [0x43]] ! k"]
    unfolding kp
    by (simp add: gw_ready_def gw_expected_def sample_session_def gateway_init_def new_link_def
        is_upper_def is_digit_def ord_def numeral_2_eq_2)
qed

text \<open>C30. Session identity: in every reachable state the sequence counters are below eight, an
  open CMS session has a relay task that will close it, and an open CMS session was logged
  in for the very station that holds the RF link.\<close>

theorem session_identity:
  assumes "gw_reach call g"
  shows "(\<forall>l. link g = Some l \<longrightarrow> seq_ok l)
     \<and> (cms g \<noteq> None \<longrightarrow> relay g \<noteq> None)
     \<and> (\<forall>l c. link g = Some l \<longrightarrow> cms g = Some c \<longrightarrow> c_remote c = remote l)"
  using gw_reach_inv [OF assms] by (simp only: gw_inv_def)

theorem session_identity_witness:
  "let g = fst (handle ''KP4PRA-10'' \<lparr>e_connect = None, e_send = None\<rparr> gateway_init
                  (sabm_bytes (''KP4PRA'', 10) (''KP4CE'', 0) True)) in
   (\<forall>l. link g = Some l \<longrightarrow> seq_ok l) \<and> (cms g \<noteq> None \<longrightarrow> relay g \<noteq> None)
     \<and> (\<forall>l c. link g = Some l \<longrightarrow> cms g = Some c \<longrightarrow> c_remote c = remote l)"
  unfolding Let_def by (rule session_identity) (rule reach_step [OF reach_init on_frame])

text \<open>C29. Exclusive session: while a station holds the link and the CMS session is open, a frame
  from any other station changes neither the link, nor the CMS session, nor the relay, nor the
  published status; at most one frame (the DM refusal) goes on the air.\<close>

theorem others_locked_out:
  assumes "link g = Some l" "cms g = Some c"
    and "split_frame raw = Inr (dest, src, path, ctrl, pid, payload)" "src \<noteq> remote l"
  shows "\<exists>fs. length fs \<le> 1 \<and> fst (handle call env g raw) = g\<lparr>radio := radio g @ fs\<rparr>"
proof -
  have nop: "\<exists>fs. length fs \<le> 1 \<and> g = g\<lparr>radio := radio g @ fs\<rparr>"
    by (rule exI [of _ "[]"]) simp
  have one: "\<exists>fs. length fs \<le> 1 \<and> fst (tx r g) = g\<lparr>radio := radio g @ fs\<rparr>" for r
    using nop by (auto simp: tx_def split: sum.splits intro: exI [of _ "[f]" for f])
  have "busy_with_other g src" using assms by (simp add: busy_with_other_def)
  with assms nop one show ?thesis by (simp add: handle_def Let_def handle_sabm_def)
qed

theorem others_locked_out_witness:
  "\<exists>fs. length fs \<le> 1 \<and>
     fst (handle ''KP4PRA-10'' \<lparr>e_connect = None, e_send = None\<rparr> sample_session
            (sabm_bytes (''KP4PRA'', 10) (''NP4A'', 0) True))
     = sample_session\<lparr>radio := radio sample_session @ fs\<rparr>"
proof -
  have "split_frame (sabm_bytes (''KP4PRA'', 10) (''NP4A'', 0) True)
        = Inr (call_str (''KP4PRA'', 10), call_str (''NP4A'', 0), [], with_f 0x2F True, -1, [])"
    by (rule split_sabm_bytes) (simp_all add: is_upper_def is_digit_def ord_def)
  then show ?thesis
    by (rule others_locked_out [where l = "new_link ''KP4CE''", rotated 2])
       (simp_all add: sample_session_def new_link_def)
qed

text \<open>C38. Send window of the relay: over any run of the relay task (reads, failures and
  scheduling in any order) without a frame from the peer, at most seven I-frames minus those
  already unacknowledged go on the air.\<close>

theorem relay_respects_window:
  "length (radio (fold (relay_step call) evs g))
     \<le> length (radio g)
       + (case link g of None \<Rightarrow> 0 | Some l \<Rightarrow> 7 - outstanding (vs l) (va l))"
  using relay_steps_credit [of call evs g] by (simp add: credit_def)

text \<open>What the relay sends: data read from the CMS goes out as I-frames of at most 200 bytes
  with consecutive modulo-8 numbers, in order and without loss, when the window has room; the
  relay then reads again, and nothing else of the state changes.\<close>

theorem relay_sends_data:
  assumes "call_ok gws" "call_ok st" "remote l = call_str st"
    and "link g = Some l" "cms g \<noteq> None" "relay g = Some RRecv" "d \<noteq> []"
    and "outstanding (vs l) (va l) + length (chunks 200 d) \<le> 7" "vs l < 8"
  shows "relay_run (call_str gws) (Suc (length (chunks 200 d)))
           (relay_step (call_str gws) (Data d) g) =
     g\<lparr>link := Some (l\<lparr>vs := (vs l + length (chunks 200 d)) mod 8\<rparr>), relay := Some RRecv,
       radio := radio g @ map (\<lambda>i. iframe_bytes st gws ((vs l + i) mod 8) (vr l) (chunks 200 d ! i))
                              [0..<length (chunks 200 d)]\<rparr>
     \<and> concat (chunks 200 d) = d \<and> (\<forall>c\<in>set (chunks 200 d). c \<noteq> [] \<and> length c \<le> 200)"
proof -
  let ?g = "g\<lparr>relay := Some (RSend (chunks 200 d))\<rparr>"
  have "relay_step (call_str gws) (Data d) g = ?g" using assms by simp
  moreover have "relay_run (call_str gws) (Suc (length (chunks 200 d))) ?g =
     ?g\<lparr>link := Some (l\<lparr>vs := (vs l + length (chunks 200 d)) mod 8\<rparr>), relay := Some RRecv,
       radio := radio ?g @ map (\<lambda>i. iframe_bytes st gws ((vs l + i) mod 8) (vr l) (chunks 200 d ! i))
                              [0..<length (chunks 200 d)]\<rparr>"
    using assms by (intro relay_sends_chunks) simp_all
  ultimately show ?thesis using chunks_bounds [of _ 200 d] by (simp del: relay_run.simps relay_step.simps)
qed

theorem relay_sends_data_witness:
  "relay_run (call_str (''KP4PRA'', 10)) (Suc (length (chunks 200 [0x46, 0x46 :: byte])))
      (relay_step (call_str (''KP4PRA'', 10)) (Data [0x46, 0x46]) sample_session) =
   sample_session\<lparr>link := Some ((new_link ''KP4CE'')\<lparr>vs := 1\<rparr>), relay := Some RRecv,
     radio := radio sample_session
              @ [iframe_bytes (''KP4CE'', 0) (''KP4PRA'', 10) 0 0 [0x46, 0x46]]\<rparr>"
proof -
  have c: "chunks 200 [0x46, 0x46 :: byte] = [[0x46, 0x46]]" by (rule chunks_short) simp_all
  show ?thesis
    using relay_sends_data [of "(''KP4PRA'', 10)" "(''KP4CE'', 0)" "new_link ''KP4CE''"
        sample_session "[0x46, 0x46]"]
    unfolding c
    by (simp add: sample_session_def new_link_def is_upper_def is_digit_def ord_def
        gateway_init_def del: relay_run.simps relay_step.simps)
qed

text \<open>Reconnecting loses the session: when the station of a running session sends SABM again,
  cancelling the old relay runs its \<^verbatim>\<open>finally\<close> block, which clears the link that was just set
  up. The gateway publishes ''connected'' with no link, and the new relay's first step closes
  the CMS session it was created for.\<close>

theorem reconnect_kills_session:
  assumes "call_ok gws" "call_ok st" "link g = Some l" "remote l = call_str st" "cms g = Some c"
    and "relay g = Some RRecv \<or> relay g = Some (RSend cs)" "e_connect env = None"
    and "g1 = fst (handle (call_str gws) env g (sabm_bytes gws st pf))"
  shows "status g1 = ''connected'' \<and> link g1 = None \<and> relay g1 = Some RNew
     \<and> cms g1 = Some \<lparr>c_remote = call_str st, c_sent = []\<rparr>
     \<and> cms (relay_step (call_str gws) Run g1) = None
     \<and> closed (relay_step (call_str gws) Run g1)
       = closed g @ [c, \<lparr>c_remote = call_str st, c_sent = []\<rparr>]"
proof -
  have "\<not> busy_with_other g (call_str st)" using assms by (simp add: busy_with_other_def)
  note h = handle_sabm_bytes [OF assms(1,2) this, of env pf]
  show ?thesis
    using assms(5-7) unfolding assms(8) h
    by (auto simp: open_session_def start_new_session_def cancel_relay_def session_defs)
qed

theorem reconnect_kills_session_witness:
  "let g1 = fst (handle (call_str (''KP4PRA'', 10)) \<lparr>e_connect = None, e_send = None\<rparr> sample_session
              (sabm_bytes (''KP4PRA'', 10) (''KP4CE'', 0) True)) in
   status g1 = ''connected'' \<and> link g1 = None \<and> relay g1 = Some RNew
     \<and> cms g1 = Some \<lparr>c_remote = call_str (''KP4CE'', 0), c_sent = []\<rparr>
     \<and> cms (relay_step (call_str (''KP4PRA'', 10)) Run g1) = None
     \<and> closed (relay_step (call_str (''KP4PRA'', 10)) Run g1)
       = closed sample_session @ [\<lparr>c_remote = ''KP4CE'', c_sent = []\<rparr>,
                                  \<lparr>c_remote = call_str (''KP4CE'', 0), c_sent = []\<rparr>]"
  unfolding Let_def
  by (rule reconnect_kills_session [where cs = "[]" and l = "new_link ''KP4CE''"])
     (simp_all add: sample_session_def new_link_def is_upper_def is_digit_def ord_def)

end
