(* ===== verification/Rf_Rms.thy ===== *)
theory Rf_Rms
  imports Rf_Stream Rms_Gateway
begin

text \<open>
  The two ends of the RF mail route together: the \<^verbatim>\<open>AX25Stream\<close> of src/src/web/rfsend.py
  sends to the gateway of src/src/rms/gateway.py over a half-duplex channel that keeps the
  order of the frames and may lose any of them. The system is a simulation of the protocol on
  true frame numbers of \<^theory_text>\<open>Arq\<close>; what follows is that the CMS receives a prefix of what the
  stream was given, and all of it once the stream's window is empty.
\<close>

section \<open>The system\<close>

record rf_sys =
  client :: rf_stream
  server :: gateway
  up_air :: "bytes list"
  down_air :: "bytes list"
  handed :: "bytes list"

text \<open>The client puts a chunk, or everything unacknowledged, on the air.\<close>

definition sys_push :: "rf_link \<Rightarrow> bytes \<Rightarrow> rf_sys \<Rightarrow> rf_sys" where
  "sys_push l c y = (case push_chunk l c ((client y)\<lparr>air := []\<rparr>) of (r, s) \<Rightarrow>
     y\<lparr>client := s, up_air := up_air y @ air s, handed := handed y @ [c]\<rparr>)"

definition sys_resend :: "rf_link \<Rightarrow> rf_sys \<Rightarrow> rf_sys" where
  "sys_resend l y = (case retransmit l ((client y)\<lparr>air := []\<rparr>) of (r, s) \<Rightarrow>
     y\<lparr>client := s, up_air := up_air y @ air s\<rparr>)"

text \<open>A frame reaches the gateway; a frame reaches the client.\<close>

definition sys_up :: "string \<Rightarrow> cms_env \<Rightarrow> bytes \<Rightarrow> bytes list \<Rightarrow> rf_sys \<Rightarrow> rf_sys" where
  "sys_up call env f fs y = (let g = fst (handle call env ((server y)\<lparr>radio := []\<rparr>) f) in
     y\<lparr>server := g, up_air := fs, down_air := down_air y @ radio g\<rparr>)"

definition sys_down :: "rf_link \<Rightarrow> bytes \<Rightarrow> bytes list \<Rightarrow> rf_sys \<Rightarrow> rf_sys" where
  "sys_down l f fs y =
     (case first_match (peer_call l) [f] of
        None \<Rightarrow> y\<lparr>down_air := fs\<rparr>
      | Some (ctrl, payload) \<Rightarrow>
          (case on_frame l ctrl payload ((client y)\<lparr>air := []\<rparr>) of (r, s) \<Rightarrow>
             y\<lparr>client := s, down_air := fs, up_air := up_air y @ air s\<rparr>))"

inductive sys_step :: "rf_link \<Rightarrow> string \<Rightarrow> cms_env \<Rightarrow> rf_sys \<Rightarrow> rf_sys \<Rightarrow> bool"
  for l call env where
  step_push: "outstanding (s_vs (client y)) (s_va (client y)) < WINDOW \<Longrightarrow>
                sys_step l call env y (sys_push l c y)"
| step_resend: "sys_step l call env y (sys_resend l y)"
| step_up: "up_air y = f # fs \<Longrightarrow> sys_step l call env y (sys_up call env f fs y)"
| step_down: "down_air y = f # fs \<Longrightarrow> sys_step l call env y (sys_down l f fs y)"
| lose_up: "up_air y = f # fs \<Longrightarrow> sys_step l call env y (y\<lparr>up_air := fs\<rparr>)"
| lose_down: "down_air y = f # fs \<Longrightarrow> sys_step l call env y (y\<lparr>down_air := fs\<rparr>)"

text \<open>The link has just been set up, and the CMS session with it.\<close>

definition sys_start :: "station \<Rightarrow> rf_sys \<Rightarrow> bool" where
  "sys_start st y \<longleftrightarrow> s_vs (client y) = 0 \<and> s_va (client y) = 0
     \<and> link (server y) = Some (new_link (call_str st)) \<and> cms (server y) \<noteq> None
     \<and> gw_delivered (server y) = [] \<and> up_air y = [] \<and> down_air y = [] \<and> handed y = []"

inductive sys_reach :: "rf_link \<Rightarrow> station \<Rightarrow> string \<Rightarrow> cms_env \<Rightarrow> rf_sys \<Rightarrow> bool"
  for l st call env where
  sys_init: "sys_start st y \<Longrightarrow> sys_reach l st call env y"
| sys_next: "sys_reach l st call env y \<Longrightarrow> sys_step l call env y z \<Longrightarrow> sys_reach l st call env z"

section \<open>The sender's window on true numbers\<close>

lemma ack_loop_true:
  assumes "A \<le> R" "R \<le> A + 7"
  shows "ack_loop (R mod 8) (A mod 8) un
         = (R mod 8, \<lambda>i. if \<exists>k\<in>{A..<R}. i = k mod 8 then None else un i)"
  using assms
proof (induction "R - A" arbitrary: A un)
  case 0
  then show ?case by (simp add: ack_loop.simps)
next
  case (Suc n)
  then have lt: "A < R" by simp
  have neq: "A mod 8 \<noteq> R mod 8" using mod8_near_eq [of A R] Suc.prems lt by auto
  have "ack_loop (R mod 8) (A mod 8) un
        = ack_loop (R mod 8) (Suc A mod 8) (un(A mod 8 := None))"
    using neq by (subst ack_loop.simps) (simp add: and7_nat mod_Suc_eq)
  also have "\<dots> = (R mod 8, \<lambda>i. if \<exists>k\<in>{Suc A..<R}. i = k mod 8 then None
                                else (un(A mod 8 := None)) i)"
    using Suc.hyps(2) Suc.prems lt by (intro Suc.hyps(1)) simp_all
  also have "(\<lambda>i. if \<exists>k\<in>{Suc A..<R}. i = k mod 8 then None else (un(A mod 8 := None)) i)
             = (\<lambda>i. if \<exists>k\<in>{A..<R}. i = k mod 8 then None else un i)"
  proof -
    have "{A..<R} = insert A {Suc A..<R}" using lt by auto
    then show ?thesis by (auto simp: fun_eq_iff)
  qed
  finally show ?case .
qed

definition window_ok :: "bytes list \<Rightarrow> rf_stream \<Rightarrow> nat \<Rightarrow> nat \<Rightarrow> bool" where
  "window_ok hs s S A \<longleftrightarrow> length hs = S \<and> s_vs s = S mod 8 \<and> s_va s = A mod 8 \<and> A \<le> S \<and> S \<le> A + 7
     \<and> (\<forall>k. A \<le> k \<longrightarrow> k < S \<longrightarrow> unacked s (k mod 8) = Some (hs ! k))"

lemma window_ok_ack:
  assumes "window_ok hs s S A" "A \<le> R" "R \<le> S"
  shows "window_ok hs (ack_upto (R mod 8) s) S R"
proof -
  have "k mod 8 \<noteq> j mod 8" if "R \<le> k" "k < S" "A \<le> j" "j < R" for k j
    using mod8_near_eq [of k j] that assms by (auto simp: window_ok_def)
  then show ?thesis
    using assms ack_loop_true [of A R "unacked s"] by (auto simp: window_ok_def ack_upto_def)
qed

lemma window_ok_open:
  "window_ok hs s S A \<Longrightarrow> outstanding (s_vs s) (s_va s) < 7 \<longleftrightarrow> S < A + 7"
  by (auto simp: window_ok_def outstanding_abs)

lemma rf_tx_iframe:
  assumes "call_ok gws" "call_ok st"
    and "peer_call l = call_str gws" "my_call l = call_str st" "digi_path l = []"
  shows "rf_tx l (iframe k r False) p PID_NO_L3 False s
         = (Inr (), s\<lparr>air := air s @ [iframe_bytes gws st k r p]\<rparr>)"
  using assms by (simp add: rf_tx_def iframe_bytes_make)

lemma rf_tx_reply:
  assumes "call_ok gws" "call_ok st"
    and "peer_call l = call_str gws" "my_call l = call_str st" "digi_path l = []"
  shows "rf_tx l c [] (-1) True s = (Inr (), s\<lparr>air := air s @ [reply_bytes gws st c]\<rparr>)"
  using assms make_frame_calls [OF assms(1,2), of "[]" "-1" c "[]" True]
  by (simp add: rf_tx_def reply_bytes_def)

text \<open>Go-back-N: exactly the unacknowledged frames, oldest first, each with its own number.\<close>

lemma retransmit_true:
  assumes calls: "call_ok gws" "call_ok st"
    "peer_call l = call_str gws" "my_call l = call_str st" "digi_path l = []"
    and "window_ok hs s S B" "B \<le> A" "A \<le> S"
  shows "retransmit_from l (A mod 8) s
         = (Inr (), s\<lparr>air := air s @ map (\<lambda>k. iframe_bytes gws st (k mod 8) (s_vr s) (hs ! k))
                                       [A..<S]\<rparr>)"
  using assms(6-)
proof (induction "S - A" arbitrary: A s)
  case 0
  then show ?case by (simp add: retransmit_from.simps window_ok_def)
next
  case (Suc n)
  then have lt: "A < S" by simp
  have neq: "A mod 8 \<noteq> S mod 8"
    using mod8_near_eq [of A S] Suc.prems lt by (auto simp: window_ok_def)
  let ?s = "s\<lparr>air := air s @ [iframe_bytes gws st (A mod 8) (s_vr s) (hs ! A)]\<rparr>"
  have "retransmit_from l (A mod 8) s = retransmit_from l (Suc A mod 8) ?s"
    using neq Suc.prems lt
    by (subst retransmit_from.simps)
       (simp add: window_ok_def rf_tx_iframe [OF calls] and7_nat mod_Suc_eq)
  also have "\<dots> = (Inr (), ?s\<lparr>air := air ?s @ map (\<lambda>k. iframe_bytes gws st (k mod 8) (s_vr ?s) (hs ! k))
                                       [Suc A..<S]\<rparr>)"
    using Suc.hyps(2) Suc.prems lt by (intro Suc.hyps(1)) (simp_all add: window_ok_def)
  finally show ?case using lt by (simp add: upt_conv_Cons [of A S])
qed


section \<open>Frames of the client and of the gateway\<close>

lemma split_reply_bytes:
  assumes "call_ok dest" "call_ok src"
  shows "split_frame (reply_bytes dest src (rr n p))
         = Inr (call_str dest, call_str src, [], rr n p, -1, [])"
proof -
  have "rbind (make_frame (call_str dest) (call_str src) (rr n p) [] (-1) True (map call_str []))
          split_frame = Inr (call_str dest, call_str src, map call_str [], rr n p, -1, [])"
    using assms rr_kind(7,8) [of n p] by (intro make_split_frame) simp_all
  then show ?thesis
    using make_frame_calls [OF assms, of "[]" "-1" "rr n p" "[]" True]
    by (simp add: reply_bytes_def)
qed

text \<open>A receive-ready frame of the client reaches the gateway.\<close>

lemma handle_rr:
  assumes "call_ok gws" "call_ok st" "link g = Some l" "remote l = call_str st"
  shows "fst (handle (call_str gws) env g (reply_bytes gws st (rr n p)))
         = g\<lparr>link := Some (l\<lparr>va := n mod 8\<rparr>)\<rparr>"
  using assms
  by (simp add: handle_def split_reply_bytes Let_def call_str_plain rr_kind handle_link_def)

text \<open>A receive-ready frame of the gateway reaches the client.\<close>

lemma client_rr:
  assumes calls: "call_ok gws" "call_ok st"
    "peer_call l = call_str gws" "my_call l = call_str st" "digi_path l = []"
  shows "sys_down l (reply_bytes st gws (rr n p)) fs y =
     y\<lparr>client := ack_upto (n mod 8) ((client y)\<lparr>air :=
          if p then [reply_bytes gws st (rr (s_vr (client y)) True)] else []\<rparr>),
       down_air := fs,
       up_air := up_air y @ (if p then [reply_bytes gws st (rr (s_vr (client y)) True)] else [])\<rparr>"
proof -
  have "first_match (peer_call l) [reply_bytes st gws (rr n p)] = Some (rr n p, [])"
    using assms by (simp add: split_reply_bytes)
  then show ?thesis
    by (simp add: sys_down_def on_frame_def rr_kind Let_def rf_tx_reply [OF calls] ack_upto_def
        split: prod.splits)
qed

section \<open>Simulation\<close>

text \<open>A frame on the way up is an I-frame with a true number, or it carries no data.\<close>

definition up_frame :: "station \<Rightarrow> station \<Rightarrow> bytes list \<Rightarrow> bytes \<Rightarrow> nat option \<Rightarrow> bool" where
  "up_frame gws st hs f x \<longleftrightarrow> (case x of
     Some k \<Rightarrow> k < length hs \<and> (\<exists>r. f = iframe_bytes gws st (k mod 8) r (hs ! k))
   | None \<Rightarrow> \<exists>n. f = reply_bytes gws st (rr n True))"

definition down_frame :: "station \<Rightarrow> station \<Rightarrow> bytes \<Rightarrow> nat \<Rightarrow> bool" where
  "down_frame gws st f r \<longleftrightarrow> (\<exists>p. f = reply_bytes st gws (rr (r mod 8) p))"

definition kept :: "nat option list \<Rightarrow> nat list" where
  "kept xs = List.map_filter (\<lambda>x. x) xs"

definition mirrors :: "station \<Rightarrow> station \<Rightarrow> rf_sys \<Rightarrow> arq \<Rightarrow> bool" where
  "mirrors gws st y a \<longleftrightarrow>
     window_ok (handed y) (client y) (a_sent a) (a_acked a)
     \<and> (\<exists>l. link (server y) = Some l \<and> remote l = call_str st \<and> vr l = a_next a mod 8)
     \<and> (\<exists>c. cms (server y) = Some c \<and> c_sent c = concat (take (a_next a) (handed y)))
     \<and> (\<exists>xs. a_fwd a = kept xs \<and> list_all2 (up_frame gws st (handed y)) (up_air y) xs)
     \<and> list_all2 (down_frame gws st) (down_air y) (a_back a)"

lemma kept_simps [simp]:
  "kept [] = []" "kept (Some k # xs) = k # kept xs" "kept (None # xs) = kept xs"
  "kept (xs @ ys) = kept xs @ kept ys" "kept (map Some ks) = ks" "kept (replicate n None) = []"
  by (simp_all add: kept_def map_filter_def, induction ks) simp_all

lemma up_frame_mono:
  "up_frame gws st hs f x \<Longrightarrow> up_frame gws st (hs @ [c]) f x"
  by (auto simp: up_frame_def nth_append split: option.splits)

lemma window_ok_air [simp]: "window_ok hs (s\<lparr>air := x\<rparr>) S A = window_ok hs s S A"
  by (simp add: window_ok_def)

lemma ack_upto_air: "ack_upto r (s\<lparr>air := x\<rparr>) = (ack_upto r s)\<lparr>air := x\<rparr>"
  by (simp add: ack_upto_def split: prod.splits)

lemma window_ok_push:
  assumes "window_ok hs s S A" "S < A + 7"
  shows "window_ok (hs @ [c])
           (s\<lparr>unacked := (unacked s)(s_vs s \<mapsto> c), s_vs := (s_vs s + 1) AND 7\<rparr>) (S + 1) A"
proof -
  have "k mod 8 \<noteq> S mod 8" if "A \<le> k" "k < S" for k
    using mod8_near_eq [of k S] that assms by auto
  then show ?thesis
    using assms by (auto simp: window_ok_def nth_append and7_nat mod_Suc_eq less_Suc_eq)
qed

text \<open>Both callsigns are canonical, the client talks to the gateway directly, and the gateway's
  writes to the CMS succeed.\<close>

definition pair_ok :: "station \<Rightarrow> station \<Rightarrow> rf_link \<Rightarrow> cms_env \<Rightarrow> bool" where
  "pair_ok gws st l env \<longleftrightarrow> call_ok gws \<and> call_ok st \<and> peer_call l = call_str gws
     \<and> my_call l = call_str st \<and> digi_path l = [] \<and> e_send env = None"

lemma pair_okD:
  assumes "pair_ok gws st l env"
  shows "call_ok gws" "call_ok st" "peer_call l = call_str gws" "my_call l = call_str st"
    "digi_path l = []" "e_send env = None"
  using assms by (simp_all add: pair_ok_def)

lemma push_chunk_frame:
  assumes "pair_ok gws st l env"
  shows "push_chunk l c s =
     (Inr (), s\<lparr>unacked := (unacked s)(s_vs s \<mapsto> c), s_vs := (s_vs s + 1) AND 7,
                air := air s @ [iframe_bytes gws st (s_vs s) (s_vr s) c]\<rparr>)"
  by (simp add: push_chunk_def rf_tx_iframe [OF pair_okD(1-5) [OF assms]])

lemma sim_push:
  assumes ok: "pair_ok gws st l env" and m: "mirrors gws st y a" and inv: "arq_inv a" and room: "a_sent a < a_acked a + 7"
  shows "mirrors gws st (sys_push l c y)
           (a\<lparr>a_sent := a_sent a + 1, a_fwd := a_fwd a @ [a_sent a]\<rparr>)"
proof -
  note calls = pair_okD(1-5) [OF ok] and cms_up = pair_okD(6) [OF ok]
  let ?hs = "handed y"
  obtain xs where w: "window_ok ?hs (client y) (a_sent a) (a_acked a)"
    and xs: "a_fwd a = kept xs" "list_all2 (up_frame gws st ?hs) (up_air y) xs"
    using m by (auto simp: mirrors_def)
  have len: "length ?hs = a_sent a" "s_vs (client y) = a_sent a mod 8"
    using w by (simp_all add: window_ok_def)
  have "list_all2 (up_frame gws st (?hs @ [c]))
          (up_air y @ [iframe_bytes gws st (s_vs (client y)) (s_vr (client y)) c])
          (xs @ [Some (a_sent a)])"
  proof (rule list_all2_appendI)
    show "list_all2 (up_frame gws st (?hs @ [c])) (up_air y) xs"
      using xs(2) by (rule list_all2_mono) (rule up_frame_mono)
  qed (use len in \<open>auto simp: up_frame_def nth_append\<close>)
  moreover have "a_next a \<le> length ?hs" using inv len by (simp add: arq_inv_def)
  ultimately show ?thesis
    using m xs(1) window_ok_push [OF w room, of c]
    by (auto simp: mirrors_def sys_push_def push_chunk_frame [OF ok] window_ok_def
        intro!: exI [of _ "xs @ [Some (a_sent a)]"])
qed

lemma sim_resend:
  assumes ok: "pair_ok gws st l env" and m: "mirrors gws st y a"
  shows "mirrors gws st (sys_resend l y) (a\<lparr>a_fwd := a_fwd a @ [a_acked a..<a_sent a]\<rparr>)"
proof -
  note calls = pair_okD(1-5) [OF ok] and cms_up = pair_okD(6) [OF ok]
  let ?hs = "handed y"
  obtain xs where w: "window_ok ?hs (client y) (a_sent a) (a_acked a)"
    and xs: "a_fwd a = kept xs" "list_all2 (up_frame gws st ?hs) (up_air y) xs"
    using m by (auto simp: mirrors_def)
  have va: "s_va (client y) = a_acked a mod 8" "a_acked a \<le> a_sent a" "length ?hs = a_sent a"
    using w by (simp_all add: window_ok_def)
  let ?fs = "map (\<lambda>k. iframe_bytes gws st (k mod 8) (s_vr (client y)) (?hs ! k)) [a_acked a..<a_sent a]"
  have "retransmit l ((client y)\<lparr>air := []\<rparr>) = (Inr (), (client y)\<lparr>air := ?fs\<rparr>)"
    using retransmit_true [OF calls, of ?hs "(client y)\<lparr>air := []\<rparr>" "a_sent a" "a_acked a" "a_acked a"]
      w va by (simp add: retransmit_def)
  moreover have "list_all2 (up_frame gws st ?hs) (up_air y @ ?fs)
                   (xs @ map Some [a_acked a..<a_sent a])"
    using xs(2) va
    by (intro list_all2_appendI) (auto simp: list_all2_conv_all_nth up_frame_def)
  ultimately show ?thesis
    using m xs(1)
    by (auto simp: mirrors_def sys_resend_def intro!: exI [of _ "xs @ map Some [a_acked a..<a_sent a]"])
qed

lemma sim_up:
  assumes ok: "pair_ok gws st l env" and m: "mirrors gws st y a" and inv: "arq_inv a" and f: "up_air y = f # fs"
  shows "\<exists>b. arq_step a b \<and> mirrors gws st (sys_up (call_str gws) env f fs y) b"
proof -
  note calls = pair_okD(1-5) [OF ok] and cms_up = pair_okD(6) [OF ok]
  let ?hs = "handed y" and ?g = "(server y)\<lparr>radio := []\<rparr>"
  obtain lk c xs where w: "window_ok ?hs (client y) (a_sent a) (a_acked a)"
    and lk: "link (server y) = Some lk" "remote lk = call_str st" "vr lk = a_next a mod 8"
    and c: "cms (server y) = Some c" "c_sent c = concat (take (a_next a) ?hs)"
    and xs: "a_fwd a = kept xs" "list_all2 (up_frame gws st ?hs) (up_air y) xs"
    and dn: "list_all2 (down_frame gws st) (down_air y) (a_back a)"
    using m by (auto simp: mirrors_def)
  obtain x xs' where x: "xs = x # xs'" "up_frame gws st ?hs f x"
      "list_all2 (up_frame gws st ?hs) fs xs'"
    using xs(2) f by (auto simp: list_all2_Cons1)
  show ?thesis
  proof (cases x)
    case None
    then obtain n where "f = reply_bytes gws st (rr n True)"
      using x(2) by (auto simp: up_frame_def)
    then have "mirrors gws st (sys_up (call_str gws) env f fs y) a"
      using m lk x(3) xs(1) x(1) None calls
      by (auto simp: mirrors_def sys_up_def Let_def handle_rr)
    then show ?thesis using arq_skip by blast
  next
    case (Some k)
    then obtain r where k: "k < length ?hs" "f = iframe_bytes gws st (k mod 8) r (?hs ! k)"
      using x(2) by (auto simp: up_frame_def)
    have fwd: "a_fwd a = k # kept xs'" using xs(1) x(1) Some by simp
    have eq: "k mod 8 = vr lk \<longleftrightarrow> k = a_next a"
      using arq_inv_data [OF inv fwd] lk(3) by simp
    have down: "list_all2 (down_frame gws st) [reply_bytes st gws (rr (n mod 8) p)] [n]" for n p
      by (auto simp: down_frame_def)
    define m where "m = (if k = a_next a then k + 1 else a_next a)"
    let ?b = "a\<lparr>a_fwd := kept xs', a_next := m, a_back := a_back a @ [m]\<rparr>"
    note h = handle_iframe_result [of gws st env ?g lk c "k mod 8" r "?hs ! k"]
    have "mirrors gws st (sys_up (call_str gws) env f fs y) ?b"
    proof (cases "k = a_next a")
      case True
      then have "take (Suc k) ?hs = take k ?hs @ [?hs ! k]"
        using k(1) by (simp add: take_Suc_conv_app_nth)
      then show ?thesis
        using True h eq w lk c k(2) x(3) dn calls cms_up
        by (auto simp: mirrors_def sys_up_def Let_def m_def mod_Suc_eq
            intro!: list_all2_appendI down)
    next
      case False
      then show ?thesis
        using h eq w lk c k(2) x(3) dn calls cms_up
        by (auto simp: mirrors_def sys_up_def Let_def m_def intro!: list_all2_appendI down)
    qed
    moreover have "arq_step a ?b" by (rule arq_deliver [OF fwd m_def])
    ultimately show ?thesis by blast
  qed
qed

lemma sim_down:
  assumes ok: "pair_ok gws st l env" and m: "mirrors gws st y a" and inv: "arq_inv a" and f: "down_air y = f # fs"
  shows "\<exists>b. arq_step a b \<and> mirrors gws st (sys_down l f fs y) b"
proof -
  note calls = pair_okD(1-5) [OF ok] and cms_up = pair_okD(6) [OF ok]
  let ?hs = "handed y"
  obtain xs where w: "window_ok ?hs (client y) (a_sent a) (a_acked a)"
    and xs: "a_fwd a = kept xs" "list_all2 (up_frame gws st ?hs) (up_air y) xs"
    using m by (auto simp: mirrors_def)
  obtain r rs where r: "a_back a = r # rs" "down_frame gws st f r"
      "list_all2 (down_frame gws st) fs rs"
    using m f by (auto simp: mirrors_def list_all2_Cons1)
  then obtain p where fr: "f = reply_bytes st gws (rr (r mod 8) p)"
    by (auto simp: down_frame_def)
  note bounds = arq_inv_ack [OF inv r(1)]
  have w': "window_ok ?hs (ack_upto (r mod 8) (client y)) (a_sent a) r"
    using window_ok_ack [OF w] bounds by simp
  have "\<exists>ys. kept xs = kept ys \<and> list_all2 (up_frame gws st ?hs)
      (up_air y @ (if p then [reply_bytes gws st (rr (s_vr (client y)) True)] else [])) ys"
    using xs(2)
    by (intro exI [of _ "xs @ (if p then [None] else [])"] conjI list_all2_appendI)
       (auto simp: up_frame_def)
  then have "mirrors gws st (sys_down l f fs y) (a\<lparr>a_back := rs, a_acked := r\<rparr>)"
    using m xs(1) w' r(3)
    by (auto simp: mirrors_def fr client_rr [OF calls] ack_upto_air)
  moreover have "arq_step a (a\<lparr>a_back := rs, a_acked := r\<rparr>)" by (rule arq_ack [OF r(1)])
  ultimately show ?thesis by blast
qed

lemma sim_lose_up:
  assumes m: "mirrors gws st y a" and f: "up_air y = f # fs"
  shows "\<exists>b. arq_step a b \<and> mirrors gws st (y\<lparr>up_air := fs\<rparr>) b"
proof -
  obtain xs where xs: "a_fwd a = kept xs" "list_all2 (up_frame gws st (handed y)) (up_air y) xs"
    using m by (auto simp: mirrors_def)
  obtain x xs' where x: "xs = x # xs'" "list_all2 (up_frame gws st (handed y)) fs xs'"
    using xs(2) f by (auto simp: list_all2_Cons1)
  have "mirrors gws st (y\<lparr>up_air := fs\<rparr>) (a\<lparr>a_fwd := kept xs'\<rparr>)"
    using m x(2) by (auto simp: mirrors_def)
  moreover have "arq_step a (a\<lparr>a_fwd := kept xs'\<rparr>)"
  proof (cases x)
    case None
    then have "a\<lparr>a_fwd := kept xs'\<rparr> = a" using xs(1) x(1) by simp
    then show ?thesis by (simp add: arq_skip)
  next
    case (Some k)
    then show ?thesis using xs(1) x(1) by (simp add: arq_lose_fwd)
  qed
  ultimately show ?thesis by blast
qed

lemma sim_lose_down:
  assumes m: "mirrors gws st y a" and f: "down_air y = f # fs"
  shows "\<exists>b. arq_step a b \<and> mirrors gws st (y\<lparr>down_air := fs\<rparr>) b"
proof -
  obtain r rs where r: "a_back a = r # rs" "list_all2 (down_frame gws st) fs rs"
    using m f by (auto simp: mirrors_def list_all2_Cons1)
  have "mirrors gws st (y\<lparr>down_air := fs\<rparr>) (a\<lparr>a_back := rs\<rparr>)"
    using m r(2) by (auto simp: mirrors_def)
  then show ?thesis using arq_lose_back [OF r(1)] by blast
qed

lemma sim_step:
  assumes ok: "pair_ok gws st l env"
    and "sys_step l (call_str gws) env y z" "mirrors gws st y a" "arq_inv a"
  shows "\<exists>b. arq_step a b \<and> mirrors gws st z b"
  using assms(2)
proof (cases rule: sys_step.cases)
  case (step_push c)
  then have room: "a_sent a < a_acked a + 7"
    using window_ok_open assms(3) by (auto simp: mirrors_def)
  show ?thesis
    using sim_push [OF ok assms(3,4) room] arq_send [OF room] step_push(1) by blast
next
  case step_resend
  then show ?thesis using sim_resend [OF ok assms(3)] arq_resend [of a] by blast
next
  case (step_up f fs)
  then show ?thesis using sim_up [OF ok assms(3,4)] by blast
next
  case (step_down f fs)
  then show ?thesis using sim_down [OF ok assms(3,4)] by blast
next
  case (lose_up f fs)
  then show ?thesis using sim_lose_up [OF assms(3)] by blast
next
  case (lose_down f fs)
  then show ?thesis using sim_lose_down [OF assms(3)] by blast
qed

lemma sim_start: "sys_start st y \<Longrightarrow> mirrors gws st y arq_start"
  by (auto simp: mirrors_def sys_start_def window_ok_def new_link_def gw_delivered_def arq_start_def
      intro!: exI [of _ "[]"])

interpretation rfl: arq_link
  "\<lambda>y z. pair_ok gws st l env \<and> sys_step l (call_str gws) env y z"
  "\<lambda>y. sys_start st y" "mirrors gws st" handed "\<lambda>y. gw_delivered (server y)"
  "\<lambda>y. s_va (client y) = s_vs (client y)"
  for gws st l env
proof (unfold_locales, goal_cases)
  case (1 y)
  then show ?case by (rule sim_start)
next
  case (2 y z a)
  then show ?case using sim_step by blast
next
  case (3 y a)
  then show ?case by (auto simp: mirrors_def gw_delivered_def)
next
  case (4 y a)
  then show ?case by (simp add: mirrors_def window_ok_def)
next
  case (5 y a)
  then show ?case
    using mod8_near_eq [of "a_acked a" "a_sent a"]
    by (auto simp: arq_inv_def mirrors_def window_ok_def)
qed

lemma sys_reach_link:
  "sys_reach l st (call_str gws) env y \<Longrightarrow> pair_ok gws st l env \<Longrightarrow> rfl.reach gws st l env y"
proof (induction rule: sys_reach.induct)
  case (sys_init y)
  then show ?case by (intro rfl.reach.intros(1))
next
  case (sys_next y z)
  then show ?case by (intro rfl.reach.intros(2) [of gws st l env y z] conjI)
qed

section \<open>Properties\<close>

text \<open>C2. Reliable delivery over a lossy channel: whatever frames are lost, and whenever the client
  repeats, the CMS has received the concatenation of a prefix of the chunks the client was given
  (no gap, no duplicate, no reordering), and all of them as soon as the client's window is
  empty, which is when \<^verbatim>\<open>send\<close> returns.\<close>

theorem rf_reliable_delivery:
  assumes "pair_ok gws st l env" "sys_reach l st (call_str gws) env y"
  shows "(\<exists>n\<le>length (handed y). gw_delivered (server y) = concat (take n (handed y)))
     \<and> (s_va (client y) = s_vs (client y) \<longrightarrow> gw_delivered (server y) = concat (handed y))"
  using rfl.delivered [OF sys_reach_link [OF assms(2,1)]] by blast

definition sample_link :: rf_link where
  "sample_link = \<lparr>my_call = ''KP4CE'', peer_call = ''KP4PRA-10'', digi_path = [], block_size = 250,
     retries = 3\<rparr>"

definition sample_sys :: rf_sys where
  "sample_sys = \<lparr>client = stream_init [], server = sample_session, up_air = [], down_air = [],
     handed = []\<rparr>"

theorem rf_reliable_delivery_witness:
  "let y = sys_push sample_link [0x46] sample_sys in
   (\<exists>n\<le>length (handed y). gw_delivered (server y) = concat (take n (handed y)))
     \<and> (s_va (client y) = s_vs (client y) \<longrightarrow> gw_delivered (server y) = concat (handed y))"
proof -
  let ?env = "\<lparr>e_connect = None, e_send = None\<rparr>"
  let ?gws = "(''KP4PRA'', 10)" and ?st = "(''KP4CE'', 0)"
  have kp: "call_str ?gws = ''KP4PRA-10''" by (simp add: py_eval)
  have "sys_start ?st sample_sys"
    by (simp add: sys_start_def sample_sys_def stream_init_def sample_session_def
        gateway_init_def gw_delivered_def)
  moreover have "outstanding (s_vs (client sample_sys)) (s_va (client sample_sys)) < 7"
    by (simp add: sample_sys_def stream_init_def)
  ultimately have "sys_reach sample_link ?st (call_str ?gws) ?env (sys_push sample_link [0x46] sample_sys)"
    by (blast intro: sys_init sys_next step_push)
  moreover have "pair_ok ?gws ?st sample_link ?env"
    by (simp add: pair_ok_def sample_link_def kp is_upper_def is_digit_def ord_def
        del: call_str.simps) (simp add: py_eval)
  ultimately show ?thesis
    unfolding Let_def by (intro rf_reliable_delivery)
qed

end
