(* ===== verification/Py_Time.thy ===== *)
theory Py_Time
  imports Py_Str
begin

text \<open>
  The calendar functions of the Python library that the sources use, for times since 1970:
  \<^verbatim>\<open>time.gmtime\<close>, \<^verbatim>\<open>calendar.timegm\<close> and the \<^verbatim>\<open>strftime\<close> formats of the mail queue and the
  message builder. A date is year, month, day, hour, minute, second.
\<close>

record utc =
  u_year :: nat
  u_month :: nat
  u_day :: nat
  u_hour :: nat
  u_min :: nat
  u_sec :: nat

definition leap :: "nat \<Rightarrow> bool" where
  "leap y \<longleftrightarrow> 4 dvd y \<and> (\<not> 100 dvd y \<or> 400 dvd y)"

definition year_days :: "nat \<Rightarrow> nat" where
  "year_days y = (if leap y then 366 else 365)"

definition month_lengths :: "nat \<Rightarrow> nat list" where
  "month_lengths y = [31, if leap y then 29 else 28, 31, 30, 31, 30, 31, 31, 30, 31, 30, 31]"

function find_year :: "nat \<Rightarrow> nat \<Rightarrow> nat \<times> nat" where
  "find_year y d = (if d < year_days y then (y, d) else find_year (y + 1) (d - year_days y))"
  by pat_completeness auto
termination
  by (relation "measure snd") (auto simp: year_days_def split: if_splits)

declare find_year.simps [simp del]

fun find_month :: "nat \<Rightarrow> nat list \<Rightarrow> nat \<Rightarrow> nat \<times> nat" where
  "find_month m [] d = (m, d + 1)"
| "find_month m (l # ls) d = (if d < l then (m, d + 1) else find_month (m + 1) ls (d - l))"

definition gmtime :: "nat \<Rightarrow> utc" where
  "gmtime t = (case find_year 1970 (t div 86400) of (y, d) \<Rightarrow>
     (case find_month 1 (month_lengths y) d of (mo, dy) \<Rightarrow>
       \<lparr>u_year = y, u_month = mo, u_day = dy, u_hour = t mod 86400 div 3600,
        u_min = t mod 3600 div 60, u_sec = t mod 60\<rparr>))"

text \<open>Days before a year and before a month of it; \<^verbatim>\<open>timegm\<close>.\<close>

definition days_before_year :: "nat \<Rightarrow> nat" where
  "days_before_year y = sum_list (map year_days [1970..<y])"

definition days_before_month :: "nat \<Rightarrow> nat \<Rightarrow> nat" where
  "days_before_month y m = sum_list (take (m - 1) (month_lengths y))"

definition timegm :: "utc \<Rightarrow> nat" where
  "timegm u = ((days_before_year (u_year u) + days_before_month (u_year u) (u_month u) + (u_day u - 1))
     * 24 + u_hour u) * 3600 + u_min u * 60 + u_sec u"

text \<open>\<^verbatim>\<open>%02d\<close>, \<^verbatim>\<open>%04d\<close> and the formats.\<close>

definition pad_nat :: "nat \<Rightarrow> nat \<Rightarrow> string" where
  "pad_nat w n = replicate (w - length (show_nat n)) CHR ''0'' @ show_nat n"

definition fmt_winlink :: "utc \<Rightarrow> string" where
  "fmt_winlink u = pad_nat 4 (u_year u) @ ''/'' @ pad_nat 2 (u_month u) @ ''/'' @ pad_nat 2 (u_day u)
     @ '' '' @ pad_nat 2 (u_hour u) @ '':'' @ pad_nat 2 (u_min u)"

definition fmt_id :: "utc \<Rightarrow> string" where
  "fmt_id u = pad_nat 4 (u_year u) @ pad_nat 2 (u_month u) @ pad_nat 2 (u_day u) @ ''T''
     @ pad_nat 2 (u_hour u) @ pad_nat 2 (u_min u) @ pad_nat 2 (u_sec u) @ ''Z''"

definition fmt_iso :: "utc \<Rightarrow> string" where
  "fmt_iso u = pad_nat 4 (u_year u) @ ''-'' @ pad_nat 2 (u_month u) @ ''-'' @ pad_nat 2 (u_day u)
     @ '' '' @ pad_nat 2 (u_hour u) @ '':'' @ pad_nat 2 (u_min u) @ '':'' @ pad_nat 2 (u_sec u) @ ''Z''"

lemma pad_nat_digits: "list_all is_digit (pad_nat w n)"
  using show_nat_digits [of n]
  by (auto simp: pad_nat_def list_all_iff in_set_replicate is_digit_def ord_def)

lemma length_show_nat_le: "n < 10 ^ Suc k \<Longrightarrow> length (show_nat n) \<le> Suc k"
proof (induction n arbitrary: k rule: show_nat.induct)
  case (1 n)
  show ?case
  proof (cases "n < 10")
    case True
    then show ?thesis by (subst show_nat.simps) simp
  next
    case False
    then obtain j where k: "k = Suc j" using "1.prems" by (cases k) auto
    have "n div 10 < 10 ^ Suc j" using "1.prems" k by (simp add: less_mult_imp_div_less)
    from "1.IH" [OF False this] False k show ?thesis by (subst show_nat.simps) simp
  qed
qed

lemma length_pad_nat: "n < 10 ^ w \<Longrightarrow> 0 < w \<Longrightarrow> length (pad_nat w n) = w"
  using length_show_nat_le [of n "w - 1"] by (cases w) (simp_all add: pad_nat_def)

section \<open>The calendar is consistent\<close>

lemma year_days_months: "sum_list (month_lengths y) = year_days y"
  by (simp add: month_lengths_def year_days_def)

lemma length_month_lengths [simp]: "length (month_lengths y) = 12"
  by (simp add: month_lengths_def)

lemma find_year_correct:
  "1970 \<le> y0 \<Longrightarrow> find_year y0 d = (y, r) \<Longrightarrow>
   y0 \<le> y \<and> r < year_days y \<and> days_before_year y + r = days_before_year y0 + d"
proof (induction y0 d arbitrary: y r rule: find_year.induct)
  case (1 y0 d)
  show ?case
  proof (cases "d < year_days y0")
    case True
    with 1 show ?thesis by (auto simp: find_year.simps [of y0 d])
  next
    case False
    then have "find_year (y0 + 1) (d - year_days y0) = (y, r)"
      using "1.prems"(2) by (simp add: find_year.simps [of y0 d])
    from "1.IH" [OF False _ this] "1.prems"(1) False show ?thesis
      by (simp add: days_before_year_def)
  qed
qed

lemma find_month_correct:
  "find_month m ls d = (mo, dy) \<Longrightarrow> d < sum_list ls \<Longrightarrow>
   m \<le> mo \<and> mo < m + length ls \<and> 1 \<le> dy \<and> dy \<le> ls ! (mo - m)
   \<and> sum_list (take (mo - m) ls) + (dy - 1) = d"
proof (induction m ls d arbitrary: mo dy rule: find_month.induct)
  case (2 m l ls d)
  show ?case
  proof (cases "d < l")
    case True
    with 2 show ?thesis by auto
  next
    case False
    with "2.prems" have "find_month (m + 1) ls (d - l) = (mo, dy)" "d - l < sum_list ls" by auto
    note IH = "2.IH" [OF False this]
    then have "mo - m = Suc (mo - (m + 1))" by auto
    with IH False show ?thesis by auto
  qed
qed simp

definition utc_ok :: "utc \<Rightarrow> bool" where
  "utc_ok u \<longleftrightarrow> 1970 \<le> u_year u \<and> 1 \<le> u_month u \<and> u_month u \<le> 12 \<and> 1 \<le> u_day u
     \<and> u_day u \<le> month_lengths (u_year u) ! (u_month u - 1)
     \<and> u_hour u < 24 \<and> u_min u < 60 \<and> u_sec u < 60"

lemma mixed_radix:
  fixes q h m s r1 r2 t :: nat
  assumes "m * 60 + s = r1" "h * 3600 + r1 = r2" "q * 86400 + r2 = t"
  shows "(q * 24 + h) * 3600 + m * 60 + s = t"
  using assms by (simp add: algebra_simps)

lemma gmtime_correct: "utc_ok (gmtime t) \<and> timegm (gmtime t) = t"
proof -
  obtain y d where y: "find_year 1970 (t div 86400) = (y, d)" by fastforce
  obtain mo dy where m: "find_month 1 (month_lengths y) d = (mo, dy)" by fastforce
  have Y: "1970 \<le> y" "d < year_days y" "days_before_year y + d = t div 86400"
    using find_year_correct [OF _ y] by (simp_all add: days_before_year_def)
  have M: "1 \<le> mo" "mo \<le> 12" "1 \<le> dy" "dy \<le> month_lengths y ! (mo - 1)"
      "days_before_month y mo + (dy - 1) = d"
    using find_month_correct [OF m] Y(2) by (auto simp: year_days_months days_before_month_def)
  have g: "gmtime t = \<lparr>u_year = y, u_month = mo, u_day = dy, u_hour = t mod 86400 div 3600,
      u_min = t mod 3600 div 60, u_sec = t mod 60\<rparr>" using m by (simp add: gmtime_def y)
  have "utc_ok (gmtime t)"
    using Y M by (auto simp: g utc_ok_def less_mult_imp_div_less)
  moreover have "(t div 86400 * 24 + t mod 86400 div 3600) * 3600 + t mod 3600 div 60 * 60 + t mod 60 = t"
  proof -
    have "t mod 3600 div 60 * 60 + t mod 60 = t mod 3600"
      using div_mult_mod_eq [of "t mod 3600" 60] by (simp add: mod_mod_cancel)
    moreover have "t mod 86400 div 3600 * 3600 + t mod 3600 = t mod 86400"
      using div_mult_mod_eq [of "t mod 86400" 3600] by (simp add: mod_mod_cancel)
    moreover note div_mult_mod_eq [of t 86400]
    ultimately show ?thesis by (rule mixed_radix)
  qed
  ultimately show ?thesis using Y(3) M(5) by (simp add: g timegm_def)
qed

end
