(* ===== verification/Mail_Queue.thy ===== *)
theory Mail_Queue
  imports Py_Time
begin

text \<open>
  The holding queue of the web mail (src/src/web/mailqueue.py). The queue directory is the
  association list of the message files in the order \<^verbatim>\<open>os.listdir\<close> returns them, name
  (without .json) to record; a file holds the record last written to it. The random part of
  an id and the clock are arguments.
\<close>

section \<open>Records and ids\<close>

record mail =
  m_id :: string
  m_created :: nat
  m_created_iso :: string
  m_to :: string
  m_reply_to :: string
  m_subject :: string
  m_body :: string
  m_lang :: string
  m_status :: string
  m_route :: "string option"
  m_attempts :: nat
  m_error :: "string option"
  m_last_test :: "string option"

definition STATES :: "string list" where
  "STATES = [''Holding'', ''Approved'', ''Sending'', ''Sent'', ''Failed'', ''Rejected'']"

type_synonym mail_store = "(string \<times> mail) list"

definition is_hex_lower :: "char \<Rightarrow> bool" where
  "is_hex_lower c \<longleftrightarrow> is_digit c \<or> (97 \<le> ord c \<and> ord c \<le> 102)"

text \<open>The pattern of \<^verbatim>\<open>_ID_RE\<close>; its \<^verbatim>\<open>$\<close> also matches before a final newline.\<close>

definition id_shape :: "string \<Rightarrow> bool" where
  "id_shape s \<longleftrightarrow> length s = 25 \<and> list_all is_digit (take 8 s) \<and> s ! 8 = CHR ''T''
     \<and> list_all is_digit (take 6 (drop 9 s)) \<and> s ! 15 = CHR ''Z'' \<and> s ! 16 = CHR ''-''
     \<and> list_all is_hex_lower (drop 17 s)"

definition safe_id :: "string \<Rightarrow> bool" where
  "safe_id s \<longleftrightarrow> id_shape s \<or> (s \<noteq> [] \<and> last s = CHR 0x0A \<and> id_shape (butlast s))"

definition mail_path :: "string \<Rightarrow> string \<Rightarrow> string result" where
  "mail_path qdir mid =
     (if \<not> safe_id mid then Inl (ValueError ''invalid message id'')
      else Inr (qdir @ ''/'' @ mid @ ''.json''))"

definition new_id :: "nat \<Rightarrow> string \<Rightarrow> string" where
  "new_id now hex = fmt_id (gmtime now) @ ''-'' @ take 8 hex"

section \<open>Operations\<close>

fun store :: "string \<Rightarrow> mail \<Rightarrow> mail_store \<Rightarrow> mail_store" where
  "store mid r [] = [(mid, r)]"
| "store mid r ((k, v) # q) = (if k = mid then (k, r) # q else (k, v) # store mid r q)"

definition enqueue ::
    "nat \<Rightarrow> string \<Rightarrow> string \<Rightarrow> string \<Rightarrow> string \<Rightarrow> string \<Rightarrow> string \<Rightarrow> mail_store \<Rightarrow> (mail \<times> mail_store) result" where
  "enqueue now hex to_addr reply_to subject body lang q =
     (let mid = new_id now hex;
          r = \<lparr>m_id = mid, m_created = now, m_created_iso = fmt_iso (gmtime now), m_to = to_addr,
               m_reply_to = reply_to, m_subject = subject, m_body = body,
               m_lang = (if lang \<in> {''en'', ''es''} then lang else ''en''), m_status = ''Holding'',
               m_route = None, m_attempts = 0, m_error = None, m_last_test = None\<rparr>
      in rbind (mail_path [] mid) (\<lambda>_. Inr (r, store mid r q)))"

definition get_mail :: "string \<Rightarrow> mail_store \<Rightarrow> mail option" where
  "get_mail mid q = (if \<not> safe_id mid then None else map_of q mid)"

text \<open>The keyword arguments of \<^verbatim>\<open>update\<close> that callers pass; \<^const>\<open>None\<close> for one not given.\<close>

record mail_fields =
  up_status :: "string option"
  up_route :: "string option option"
  up_error :: "string option option"
  up_last_test :: "string option"

definition no_fields :: mail_fields where
  "no_fields = \<lparr>up_status = None, up_route = None, up_error = None, up_last_test = None\<rparr>"

definition merge_fields :: "mail_fields \<Rightarrow> mail \<Rightarrow> mail" where
  "merge_fields f r =
     r\<lparr>m_status := (case up_status f of None \<Rightarrow> m_status r | Some s \<Rightarrow> s),
       m_route := (case up_route f of None \<Rightarrow> m_route r | Some x \<Rightarrow> x),
       m_error := (case up_error f of None \<Rightarrow> m_error r | Some x \<Rightarrow> x),
       m_last_test := (case up_last_test f of None \<Rightarrow> m_last_test r | Some x \<Rightarrow> Some x)\<rparr>"

definition update_mail :: "string \<Rightarrow> mail_fields \<Rightarrow> mail_store \<Rightarrow> (mail option \<times> mail_store) result" where
  "update_mail mid f q =
     (case get_mail mid q of
        None \<Rightarrow> Inr (None, q)
      | Some r \<Rightarrow>
          if (\<exists>s. up_status f = Some s \<and> s \<notin> set STATES) then Inl (ValueError ''invalid status'')
          else let r' = merge_fields f r in
            rbind (mail_path [] mid) (\<lambda>_. Inr (Some r', store mid r' q)))"

definition set_status :: "string \<Rightarrow> string \<Rightarrow> mail_fields \<Rightarrow> mail_store \<Rightarrow> (mail option \<times> mail_store) result" where
  "set_status mid s extra q = update_mail mid (extra\<lparr>up_status := Some s\<rparr>) q"

definition delete_mail :: "string \<Rightarrow> mail_store \<Rightarrow> bool \<times> mail_store" where
  "delete_mail mid q =
     (if \<not> safe_id mid then (False, q)
      else if map_of q mid = None then (False, q)
      else (True, filter (\<lambda>(k, v). k \<noteq> mid) q))"

definition list_messages :: "string option \<Rightarrow> mail_store \<Rightarrow> mail list" where
  "list_messages st q =
     sort_key (\<lambda>r. - int (m_created r))
       (filter (\<lambda>r. st = None \<or> st = Some (m_status r)) (map snd q))"

definition counts :: "mail_store \<Rightarrow> (string \<times> nat) list" where
  "counts q = (let ms = list_messages None q in
     map (\<lambda>s. (s, length (filter (\<lambda>r. m_status r = s) ms))) STATES @ [(''total'', length ms)])"

section \<open>Ids stay inside the queue directory\<close>

lemma id_shape_chars:
  assumes "id_shape s" "c \<in> set s"
  shows "is_digit c \<or> is_hex_lower c \<or> c = CHR ''T'' \<or> c = CHR ''Z'' \<or> c = CHR ''-''"
proof -
  obtain i where i: "i < 25" "s ! i = c"
    using assms by (auto simp: id_shape_def in_set_conv_nth)
  have d: "i < 8 \<Longrightarrow> is_digit (s ! i)"
    using assms(1) by (auto simp: id_shape_def list_all_length)
  have t: "9 \<le> i \<Longrightarrow> i < 15 \<Longrightarrow> is_digit (s ! i)"
  proof -
    assume "9 \<le> i" "i < 15"
    moreover have "\<forall>n<6. is_digit (s ! (9 + n))"
      using assms(1) by (auto simp: id_shape_def list_all_length)
    ultimately show ?thesis using le_Suc_ex [of 9 i] by auto
  qed
  have h: "17 \<le> i \<Longrightarrow> is_hex_lower (s ! i)"
  proof -
    assume "17 \<le> i"
    moreover have "\<forall>n<8. is_hex_lower (s ! (17 + n))"
      using assms(1) by (auto simp: id_shape_def list_all_length)
    ultimately show ?thesis using le_Suc_ex [of 17 i] i(1) by auto
  qed
  consider "i < 8" | "i = 8" | "9 \<le> i \<and> i < 15" | "i = 15" | "i = 16" | "17 \<le> i" by linarith
  then show ?thesis using d t h i assms(1) by cases (auto simp: id_shape_def)
qed

lemma safe_id_chars:
  "safe_id s \<Longrightarrow> c \<in> set s \<Longrightarrow>
   is_digit c \<or> is_hex_lower c \<or> c = CHR ''T'' \<or> c = CHR ''Z'' \<or> c = CHR ''-'' \<or> c = CHR 0x0A"
proof (induction s rule: rev_induct)
  case (snoc x s)
  then show ?case using id_shape_chars [of "s @ [x]" c] id_shape_chars [of s c]
    by (auto simp: safe_id_def)
qed simp

lemma safe_id_no_slash:
  assumes "safe_id s"
  shows "CHR ''/'' \<notin> set s \<and> CHR ''.'' \<notin> set s"
  using safe_id_chars [OF assms, of "CHR ''/''"] safe_id_chars [OF assms, of "CHR ''.''"]
  by (auto simp: is_digit_def is_hex_lower_def ord_def)

section \<open>The store\<close>

definition queue_ok :: "mail_store \<Rightarrow> bool" where
  "queue_ok q \<longleftrightarrow> distinct (map fst q)
     \<and> (\<forall>(k, r)\<in>set q. safe_id k \<and> m_id r = k \<and> m_status r \<in> set STATES)"

lemma map_of_store [simp]: "map_of (store mid r q) = (map_of q)(mid \<mapsto> r)"
  by (induction q) (auto simp: fun_eq_iff)

lemma map_fst_store:
  "map fst (store mid r q) = (if mid \<in> fst ` set q then map fst q else map fst q @ [mid])"
  by (induction q) force+

lemma distinct_store: "distinct (map fst q) \<Longrightarrow> distinct (map fst (store mid r q))"
  by (simp add: map_fst_store)

lemma set_store: "x \<in> set (store mid r q) \<Longrightarrow> x = (mid, r) \<or> x \<in> set q"
  by (induction q) (auto split: if_splits)

lemma queue_ok_store:
  "queue_ok q \<Longrightarrow> safe_id mid \<Longrightarrow> m_id r = mid \<Longrightarrow> m_status r \<in> set STATES \<Longrightarrow> queue_ok (store mid r q)"
  by (auto simp: queue_ok_def distinct_store dest!: set_store)

lemma queue_ok_get:
  "queue_ok q \<Longrightarrow> get_mail mid q = Some r \<Longrightarrow> safe_id mid \<and> m_id r = mid \<and> m_status r \<in> set STATES"
  by (auto simp: queue_ok_def get_mail_def split: if_splits dest!: map_of_SomeD)

lemma queue_ok_update:
  assumes "queue_ok q" "update_mail mid f q = Inr (x, q')"
  shows "queue_ok q'"
proof (cases "get_mail mid q")
  case None
  with assms show ?thesis by (simp add: update_mail_def)
next
  case (Some r)
  then have r: "safe_id mid" "m_id r = mid" "m_status r \<in> set STATES"
    using queue_ok_get [OF assms(1)] by auto
  then have "m_id (merge_fields f r) = mid \<and> (up_status f = None \<longrightarrow> m_status (merge_fields f r) \<in> set STATES)"
    by (simp add: merge_fields_def)
  with assms Some r show ?thesis
    by (auto simp: update_mail_def Let_def mail_path_def merge_fields_def
        intro!: queue_ok_store split: if_splits option.splits)
qed

lemma queue_ok_delete: "queue_ok q \<Longrightarrow> queue_ok (snd (delete_mail mid q))"
  by (auto simp: queue_ok_def delete_mail_def distinct_map_filter)

section \<open>Reachable queues\<close>

inductive queue_reach :: "mail_store \<Rightarrow> bool" where
  empty_queue: "queue_reach []"
| q_enqueue: "queue_reach q \<Longrightarrow> enqueue now hex t r s b l q = Inr (m, q') \<Longrightarrow> queue_reach q'"
| q_update: "queue_reach q \<Longrightarrow> update_mail mid f q = Inr (x, q') \<Longrightarrow> queue_reach q'"
| q_delete: "queue_reach q \<Longrightarrow> queue_reach (snd (delete_mail mid q))"

lemma queue_reach_ok: "queue_reach q \<Longrightarrow> queue_ok q"
proof (induction rule: queue_reach.induct)
  case empty_queue
  show ?case by (simp add: queue_ok_def)
next
  case (q_enqueue q now hex t r s b l m q')
  then have "safe_id (m_id m)" "q' = store (m_id m) m q" "m_status m \<in> set STATES"
    by (auto simp: enqueue_def Let_def mail_path_def STATES_def split: if_splits)
  with q_enqueue.IH show ?case by (auto intro: queue_ok_store)
next
  case (q_update q mid f x q')
  then show ?case by (auto intro: queue_ok_update)
next
  case (q_delete q mid)
  show ?case by (rule queue_ok_delete [OF q_delete.IH])
qed

lemma length_list_messages: "length (list_messages None q) = length q"
  by (simp add: list_messages_def)

lemma filter_states_sum:
  "\<forall>r\<in>set ms. m_status r \<in> set STATES \<Longrightarrow>
   sum_list (map (\<lambda>s. length (filter (\<lambda>r. m_status r = s) ms)) STATES) = length ms"
proof (induction ms)
  case Nil
  then show ?case by (simp add: STATES_def)
next
  case (Cons m ms)
  then have "m_status m \<in> set STATES" by simp
  with Cons show ?case by (simp add: STATES_def) blast
qed

lemma new_id_shape:
  assumes "u_year (gmtime now) < 10000" "8 \<le> length hex" "list_all is_hex_lower hex"
  shows "id_shape (new_id now hex)"
proof -
  let ?u = "gmtime now"
  have u: "utc_ok ?u" using gmtime_correct by blast
  have "length (pad_nat 4 (u_year ?u)) = 4" using assms(1) by (simp add: length_pad_nat)
  moreover have "length (pad_nat 2 (u_month ?u)) = 2" using u by (simp add: length_pad_nat utc_ok_def)
  moreover have "length (pad_nat 2 (u_day ?u)) = 2"
  proof -
    have "month_lengths y ! i \<le> 31" if "i < 12" for y i
    proof -
      have "\<forall>i<12. month_lengths y ! i \<le> 31"
        by (auto simp: month_lengths_def less_Suc_eq numeral_eq_Suc)
      with that show ?thesis by blast
    qed
    then have "u_day ?u \<le> 31" using u unfolding utc_ok_def by (metis Suc_le_eq Suc_pred' le_trans less_Suc_eq_le One_nat_def diff_less less_le_trans zero_less_one)
    then show ?thesis by (simp add: length_pad_nat)
  qed
  moreover have "length (pad_nat 2 (u_hour ?u)) = 2" "length (pad_nat 2 (u_min ?u)) = 2"
    "length (pad_nat 2 (u_sec ?u)) = 2"
    using u by (simp_all add: length_pad_nat utc_ok_def)
  moreover have "list_all is_hex_lower (take 8 hex)"
    using assms(3) by (auto simp: list_all_iff dest: in_set_takeD)
  ultimately show ?thesis
    using assms(2) pad_nat_digits
    by (simp add: id_shape_def new_id_def fmt_id_def nth_append list_all_append)
qed

section \<open>Properties\<close>

text \<open>A message id never escapes the queue directory: whenever \<^verbatim>\<open>_path\<close> accepts an id, the file is
  directly in the directory, its name has no slash and no dot before \<^verbatim>\<open>.json\<close>; every other
  id is refused.\<close>

theorem mail_ids_confined:
  "(\<forall>qdir mid. case mail_path qdir mid of
        Inr p \<Rightarrow> p = qdir @ ''/'' @ mid @ ''.json'' \<and> CHR ''/'' \<notin> set mid \<and> CHR ''.'' \<notin> set mid
      | Inl e \<Rightarrow> e = ValueError ''invalid message id'')"
  using safe_id_no_slash by (auto simp: mail_path_def split: sum.splits)

text \<open>Enqueuing works: before the year 10000 a submission is always stored, in state Holding, under
  an id that finds it again with the submitted fields, and every other message is unchanged.\<close>

theorem enqueue_stores:
  assumes "u_year (gmtime now) < 10000" "8 \<le> length hex" "list_all is_hex_lower hex"
  shows "\<exists>r q'. enqueue now hex t rt s b lang q = Inr (r, q')
     \<and> get_mail (m_id r) q' = Some r \<and> m_status r = ''Holding'' \<and> m_created r = now
     \<and> m_to r = t \<and> m_reply_to r = rt \<and> m_subject r = s \<and> m_body r = b
     \<and> (\<forall>mid. mid \<noteq> m_id r \<longrightarrow> get_mail mid q' = get_mail mid q)"
proof -
  have "safe_id (new_id now hex)" using new_id_shape [OF assms] by (simp add: safe_id_def)
  then show ?thesis by (simp add: enqueue_def Let_def mail_path_def get_mail_def)
qed

theorem enqueue_stores_witness:
  "\<exists>r q'. enqueue 0 ''1a2b3c4d'' ''a@b.c'' ''d@e.f'' ''s'' ''b'' ''es'' [] = Inr (r, q')
     \<and> get_mail (m_id r) q' = Some r \<and> m_status r = ''Holding'' \<and> m_created r = 0
     \<and> m_to r = ''a@b.c'' \<and> m_reply_to r = ''d@e.f'' \<and> m_subject r = ''s'' \<and> m_body r = ''b''
     \<and> (\<forall>mid. mid \<noteq> m_id r \<longrightarrow> get_mail mid q' = get_mail mid [])"
proof (rule enqueue_stores)
  show "u_year (gmtime 0) < 10000"
    by (simp add: gmtime_def find_year.simps year_days_def split: prod.splits)
qed (simp_all add: is_hex_lower_def is_digit_def ord_def)

text \<open>The queue's bookkeeping: in every reachable queue, ids are distinct and every message has
  one of the six states, so the counts of the six states add up to the total, which is the
  number of message files.\<close>

theorem queue_counts_add_up:
  assumes "queue_reach q"
  shows "distinct (map fst q) \<and> (\<forall>(k, r)\<in>set q. safe_id k \<and> m_id r = k \<and> m_status r \<in> set STATES)
     \<and> map_of (counts q) ''total'' = Some (length q)
     \<and> sum_list (map snd (butlast (counts q))) = length q"
proof -
  have ok: "queue_ok q" by (rule queue_reach_ok [OF assms])
  then have "\<forall>r\<in>set (list_messages None q). m_status r \<in> set STATES"
    by (auto simp: list_messages_def queue_ok_def)
  from filter_states_sum [OF this]
  have "sum_list (map snd (butlast (counts q))) = length q"
    by (simp add: counts_def Let_def o_def length_list_messages)
  moreover have "map_of (counts q) ''total'' = Some (length q)"
    by (simp add: counts_def Let_def STATES_def length_list_messages)
  ultimately show ?thesis using ok by (simp add: queue_ok_def)
qed

theorem queue_counts_add_up_witness:
  "\<exists>q. length q = 1 \<and> distinct (map fst q) \<and> map_of (counts q) ''total'' = Some (length q)
     \<and> sum_list (map snd (butlast (counts q))) = length q"
proof -
  have hex: "list_all is_hex_lower ''1a2b3c4d''" by (simp add: is_hex_lower_def is_digit_def ord_def)
  have year: "u_year (gmtime 0) < 10000"
    by (simp add: gmtime_def find_year.simps year_days_def split: prod.splits)
  have "safe_id (new_id 0 ''1a2b3c4d'')"
    using new_id_shape [OF year _ hex] by (simp add: safe_id_def)
  then obtain r q where e: "enqueue 0 ''1a2b3c4d'' ''a@b.c'' ''d@e.f'' ''s'' ''b'' ''es'' [] = Inr (r, q)"
    and "length q = 1"
    by (simp add: enqueue_def Let_def mail_path_def)
  with queue_counts_add_up [OF q_enqueue [OF empty_queue e]] show ?thesis by blast
qed

end
