(* ===== verification/Mail_Validate.thy ===== *)
theory Mail_Validate
  imports Py_Str
begin

text \<open>
  Validation and formatting of web mail (src/src/web/mailvalidate.py). The third-party
  validator is the parameter \<open>ev\<close>: \<^const>\<open>None\<close> when it is not installed, otherwise a function
  that returns the normalized address or rejects. The standard library's \<^verbatim>\<open>textwrap.wrap\<close>,
  with the options the code passes, is written out. Error values are the code's keys.
\<close>

definition SUBJECT_HARD_MAX :: nat where "SUBJECT_HARD_MAX = 200"
definition BODY_HARD_MAX :: nat where "BODY_HARD_MAX = 8000"
definition EMAIL_HARD_MAX :: nat where "EMAIL_HARD_MAX = 254"
definition WRAP_WIDTH :: nat where "WRAP_WIDTH = 78"

abbreviation NL :: char where "NL \<equiv> CHR 0x0A"
abbreviation CRET :: char where "CRET \<equiv> CHR 0x0D"
abbreviation TAB :: char where "TAB \<equiv> CHR 0x09"

section \<open>Addresses\<close>

definition is_ascii :: "string \<Rightarrow> bool" where
  "is_ascii s \<longleftrightarrow> list_all (\<lambda>c. ord c < 128) s"

text \<open>The fallback pattern: a dot-atom local part, and a domain of at least two labels.\<close>

definition local_char :: "char \<Rightarrow> bool" where
  "local_char c \<longleftrightarrow> is_alnum c \<or> c \<in> set ''.!#$%&*+/=?^_`{|}~-'' \<or> ord c = 39"

definition domain_label :: "string \<Rightarrow> bool" where
  "domain_label s \<longleftrightarrow> s \<noteq> [] \<and> length s \<le> 63 \<and> is_alnum (hd s) \<and> is_alnum (last s)
     \<and> list_all (\<lambda>c. is_alnum c \<or> c = CHR ''-'') s"

definition fallback_match :: "string \<Rightarrow> bool" where
  "fallback_match addr \<longleftrightarrow>
     (case partition_at CHR ''@'' addr of (loc, found, host) \<Rightarrow>
        found \<and> loc \<noteq> [] \<and> list_all local_char loc
        \<and> 2 \<le> length (split_at CHR ''.'' host) \<and> list_all domain_label (split_at CHR ''.'' host))"

type_synonym validator = "(string \<Rightarrow> string option) option"

text \<open>\<^const>\<open>Inr\<close> is the normalized address, \<^const>\<open>Inl\<close> the error key.\<close>

definition check_address :: "validator \<Rightarrow> string \<Rightarrow> string + string" where
  "check_address ev addr0 =
     (let addr = strip addr0 in
      if addr = [] then Inl ''email_required''
      else if EMAIL_HARD_MAX < length addr then Inl ''email_invalid''
      else if \<not> is_ascii addr then Inl ''email_intl_unsupported''
      else case ev of
        Some v \<Rightarrow> (case v addr of Some n \<Rightarrow> Inr n | None \<Rightarrow> Inl ''email_invalid'')
      | None \<Rightarrow> if fallback_match addr then Inr addr else Inl ''email_invalid'')"

section \<open>Text\<close>

fun crlf_to_lf :: "string \<Rightarrow> string" where
  "crlf_to_lf (a # b # s) =
     (if a = CRET \<and> b = NL then NL # crlf_to_lf s else a # crlf_to_lf (b # s))"
| "crlf_to_lf s = s"

definition printable :: "char \<Rightarrow> bool" where
  "printable c \<longleftrightarrow> c = NL \<or> c = TAB \<or> (32 \<le> ord c \<and> ord c \<noteq> 127)"

definition sanitize_text :: "string \<Rightarrow> string" where
  "sanitize_text s = filter printable (replace1 CRET [NL] (crlf_to_lf s))"

record cleaned =
  cl_to :: string
  cl_reply_to :: string
  cl_subject :: string
  cl_body :: string

text \<open>The errors, in the order the code adds them: field and key.\<close>

definition validate_submission ::
    "validator \<Rightarrow> string \<Rightarrow> string \<Rightarrow> string \<Rightarrow> string \<Rightarrow> bool \<times> cleaned \<times> (string \<times> string) list" where
  "validate_submission ev to_addr reply_to subject body =
     (let t = check_address ev to_addr; r = check_address ev reply_to;
          e_to = (case t of Inl k \<Rightarrow> [(''to'', k)] | Inr _ \<Rightarrow> []);
          e_rt = (case r of
                    Inl k \<Rightarrow> [(''reply_to'', if k = ''email_required'' then ''replyto_required'' else k)]
                  | Inr _ \<Rightarrow> []);
          subject_c = strip (replace1 NL '' '' (sanitize_text subject));
          e_s = (if SUBJECT_HARD_MAX < length subject_c then [(''subject'', ''subject_too_long'')] else []);
          body_c = strip (sanitize_text body);
          e_b = (if body_c = [] then [(''body'', ''body_required'')]
                 else if BODY_HARD_MAX < length body_c then [(''body'', ''body_too_long'')] else []);
          errors = e_to @ e_rt @ e_s @ e_b
      in (errors = [],
          \<lparr>cl_to = (case t of Inr n \<Rightarrow> n | Inl _ \<Rightarrow> strip to_addr),
           cl_reply_to = (case r of Inr n \<Rightarrow> n | Inl _ \<Rightarrow> strip reply_to),
           cl_subject = subject_c, cl_body = body_c\<rparr>,
          errors))"

section \<open>Wrapping\<close>

text \<open>\<^verbatim>\<open>str.expandtabs()\<close> from column \<open>col\<close>, and \<^verbatim>\<open>textwrap\<close>'s replacement of ASCII white space.\<close>

fun expandtabs :: "nat \<Rightarrow> string \<Rightarrow> string" where
  "expandtabs col [] = []"
| "expandtabs col (c # cs) =
     (if c = TAB then replicate (8 - col mod 8) CHR '' '' @ expandtabs (col + (8 - col mod 8)) cs
      else if c = NL \<or> c = CRET then c # expandtabs 0 cs
      else c # expandtabs (col + 1) cs)"

definition wrap_space :: "char \<Rightarrow> bool" where
  "wrap_space c \<longleftrightarrow> (9 \<le> ord c \<and> ord c \<le> 13) \<or> ord c = 32"

definition munge :: "string \<Rightarrow> string" where
  "munge s = map (\<lambda>c. if wrap_space c then CHR '' '' else c) (expandtabs 0 s)"

text \<open>The chunks: maximal runs of white space and of other characters.\<close>

fun runs :: "(char \<Rightarrow> bool) \<Rightarrow> string \<Rightarrow> string list" where
  "runs P [] = []"
| "runs P (x # xs) =
     (case runs P xs of
        (y # ys) # rs \<Rightarrow> if P x = P y then (x # y # ys) # rs else [x] # (y # ys) # rs
      | rs \<Rightarrow> [x] # rs)"

fun take_fit :: "nat \<Rightarrow> nat \<Rightarrow> string list \<Rightarrow> string list \<times> string list" where
  "take_fit w n [] = ([], [])"
| "take_fit w n (c # cs) =
     (if n + length c \<le> w then (case take_fit w (n + length c) cs of (a, b) \<Rightarrow> (c # a, b))
      else ([], c # cs))"

definition chars :: "string list \<Rightarrow> nat" where
  "chars cs = sum_list (map length cs)"

definition drop_lead :: "bool \<Rightarrow> string list \<Rightarrow> string list" where
  "drop_lead first cs =
     (case cs of c # cs' \<Rightarrow> if strip c = [] \<and> \<not> first then cs' else cs | [] \<Rightarrow> [])"

definition break_long :: "nat \<Rightarrow> string list \<times> string list \<Rightarrow> string list \<times> string list" where
  "break_long w p =
     (case p of (cur, c # rest) \<Rightarrow>
        if w < length c then (cur @ [take (w - chars cur) c], drop (w - chars cur) c # rest)
        else (cur, c # rest)
      | (cur, []) \<Rightarrow> (cur, []))"

definition drop_trail :: "string list \<Rightarrow> string list" where
  "drop_trail cur = (if cur \<noteq> [] \<and> strip (last cur) = [] then butlast cur else cur)"

definition next_line :: "nat \<Rightarrow> bool \<Rightarrow> string list \<Rightarrow> string list \<times> string list" where
  "next_line w first cs =
     (case break_long w (take_fit w 0 (drop_lead first cs)) of (cur, rest) \<Rightarrow>
        (let cur' = drop_trail cur in (if cur' = [] then [] else [concat cur'], rest)))"

definition wrap_size :: "string list \<Rightarrow> nat" where
  "wrap_size cs = sum_list (map (\<lambda>c. Suc (length c)) cs)"

lemma wrap_size_simps [simp]:
  "wrap_size [] = 0" "wrap_size (c # cs) = Suc (length c) + wrap_size cs"
  by (simp_all add: wrap_size_def)

lemma chars_simps [simp]:
  "chars [] = 0" "chars (c # cs) = length c + chars cs" "chars (cs @ ds) = chars cs + chars ds"
  by (simp_all add: chars_def)

lemma length_concat_chars: "length (concat cs) = chars cs"
  by (simp add: chars_def length_concat)

lemma take_fit_parts: "take_fit w n cs = (a, b) \<Longrightarrow> cs = a @ b \<and> n + chars a \<le> max w n"
  by (induction cs arbitrary: n a b) (force split: if_splits prod.splits)+

lemma take_fit_size: "take_fit w n cs = (a, b) \<Longrightarrow> wrap_size b \<le> wrap_size cs"
  by (induction cs arbitrary: n a b) (force split: if_splits prod.splits)+

lemma next_line_size:
  assumes "cs \<noteq> []" "0 < w" "next_line w first cs = (l, rest)"
  shows "wrap_size rest < wrap_size cs"
proof -
  let ?ds = "drop_lead first cs"
  obtain a b where f: "take_fit w 0 ?ds = (a, b)" by fastforce
  have parts: "?ds = a @ b" using take_fit_parts [OF f] by simp
  have lead: "?ds = cs \<or> wrap_size ?ds < wrap_size cs"
    using assms(1) by (auto simp: drop_lead_def split: list.splits)
  have rest: "rest = snd (break_long w (a, b))"
    using assms(3) by (auto simp: next_line_def f Let_def split: prod.splits)
  have le: "wrap_size rest \<le> wrap_size b"
    by (auto simp: rest break_long_def split: list.splits)
  have b: "wrap_size b \<le> wrap_size ?ds" by (rule take_fit_size [OF f])
  show ?thesis
  proof (cases "a = [] \<and> ?ds = cs")
    case True
    then obtain c cs' where b: "b = c # cs'" using parts assms(1) by (cases b) auto
    then have "w < length c" using f True parts by (auto split: if_splits prod.splits)
    then have "wrap_size rest < wrap_size b"
      using assms(2) True by (auto simp: rest break_long_def b)
    with True parts show ?thesis by auto
  next
    case False
    have "a \<noteq> [] \<Longrightarrow> wrap_size b < wrap_size ?ds"
      unfolding parts by (cases a) (auto simp: wrap_size_def)
    with False le b lead show ?thesis by fastforce
  qed
qed

function wrap_chunks :: "nat \<Rightarrow> string list \<Rightarrow> string list \<Rightarrow> string list" where
  "wrap_chunks w lines cs =
     (if cs = [] \<or> w = 0 then lines
      else case next_line w (lines = []) cs of (l, rest) \<Rightarrow> wrap_chunks w (lines @ l) rest)"
  by pat_completeness auto
termination
  by (relation "measure (\<lambda>(w, lines, cs). wrap_size cs)") (auto intro: next_line_size [OF _ _ sym])

declare wrap_chunks.simps [simp del]

definition textwrap_wrap :: "nat \<Rightarrow> string \<Rightarrow> string list" where
  "textwrap_wrap w text = wrap_chunks w [] (runs wrap_space (munge text))"

definition wrap_para :: "nat \<Rightarrow> string \<Rightarrow> string list" where
  "wrap_para width para =
     (if strip para = [] then [[]]
      else let wrapped = textwrap_wrap width para in if wrapped = [] then [[]] else wrapped)"

definition wrap_body :: "nat \<Rightarrow> string \<Rightarrow> string" where
  "wrap_body width body =
     join [NL] (concat (map (wrap_para width) (split_at NL (sanitize_text body))))"

definition max_line_length :: "string \<Rightarrow> nat" where
  "max_line_length text = foldr max (map length (split_at NL text)) 0"

section \<open>Line length\<close>

lemma break_long_fits:
  assumes "chars a \<le> w" "break_long w (a, b) = (cur, rest)"
  shows "chars cur \<le> w"
  using assms by (auto simp: break_long_def split: list.splits if_splits)

lemma chars_drop_trail: "chars (drop_trail cur) \<le> chars cur"
  by (cases cur rule: rev_cases) (auto simp: drop_trail_def)

lemma next_line_fits:
  assumes "next_line w first cs = (l, rest)" "x \<in> set l"
  shows "length x \<le> w"
proof -
  obtain a b where f: "take_fit w 0 (drop_lead first cs) = (a, b)" by fastforce
  obtain cur r where c: "break_long w (a, b) = (cur, r)" by fastforce
  have "chars a \<le> w" using take_fit_parts [OF f] by simp
  then have "chars cur \<le> w" using break_long_fits c by blast
  then have "chars (drop_trail cur) \<le> w" using chars_drop_trail [of cur] by linarith
  then show ?thesis
    using assms by (auto simp: next_line_def f c Let_def length_concat_chars split: if_splits)
qed

lemma wrap_chunks_fits:
  "x \<in> set (wrap_chunks w lines cs) \<Longrightarrow> x \<in> set lines \<or> length x \<le> w"
proof (induction w lines cs rule: wrap_chunks.induct)
  case (1 w lines cs)
  show ?case
  proof (cases "cs = [] \<or> w = 0")
    case True
    with "1.prems" show ?thesis by (simp add: wrap_chunks.simps)
  next
    case False
    obtain l rest where n: "next_line w (lines = []) cs = (l, rest)" by fastforce
    then have "x \<in> set (wrap_chunks w (lines @ l) rest)"
      using "1.prems" False by (simp add: wrap_chunks.simps [of w lines cs])
    then show ?thesis
      using "1.IH" [OF False n [symmetric]] next_line_fits [OF n] by auto
  qed
qed

lemma textwrap_fits: "x \<in> set (textwrap_wrap w text) \<Longrightarrow> length x \<le> w"
  using wrap_chunks_fits [of x w "[]"] by (auto simp: textwrap_wrap_def)

section \<open>Nothing visible is lost\<close>

definition visible :: "string \<Rightarrow> string" where
  "visible s = filter (\<lambda>c. \<not> is_space c) s"

lemma visible_simps [simp]:
  "visible [] = []" "visible (c # s) = (if is_space c then visible s else c # visible s)"
  "visible (s @ t) = visible s @ visible t"
  by (simp_all add: visible_def)

lemma dropWhile_space_Nil: "dropWhile is_space s = [] \<longleftrightarrow> visible s = []"
  by (induction s) auto

lemma visible_rev: "visible (rev s) = rev (visible s)"
  by (simp add: visible_def rev_filter)

lemma visible_dropWhile: "visible (dropWhile is_space s) = visible s"
  by (induction s) auto

lemma visible_strip [simp]: "visible (strip s) = visible s"
  by (simp add: strip_def rstrip_def lstrip_def visible_rev visible_dropWhile)

lemma strip_Nil_visible: "strip s = [] \<Longrightarrow> visible s = []"
  using visible_strip [of s] by simp

lemma space_chars [simp]: "is_space CHR '' ''" "is_space NL" "is_space TAB" "is_space CRET"
  by (simp_all add: is_space_def ord_def)

lemma visible_replicate_space [simp]: "visible (replicate n CHR '' '') = []"
  by (simp add: visible_def)

lemma visible_expandtabs: "visible (expandtabs col s) = visible s"
  by (induction col s rule: expandtabs.induct) auto

lemma wrap_space_is_space: "wrap_space c \<Longrightarrow> is_space c"
  by (auto simp: wrap_space_def is_space_def Let_def)

lemma visible_munge: "visible (munge s) = visible s"
proof -
  have "visible (map (\<lambda>c. if wrap_space c then CHR '' '' else c) t) = visible t" for t
    by (induction t) (auto dest: wrap_space_is_space)
  then show ?thesis by (simp add: munge_def visible_expandtabs)
qed

lemma concat_runs: "concat (runs P s) = s"
  by (induction s) (auto split: list.splits)

lemma next_line_visible:
  assumes "next_line w first cs = (l, rest)"
  shows "visible (concat cs) = visible (concat l) @ visible (concat rest)"
proof -
  obtain a b where f: "take_fit w 0 (drop_lead first cs) = (a, b)" by fastforce
  obtain cur r where c: "break_long w (a, b) = (cur, r)" by fastforce
  have "visible (concat cs) = visible (concat (drop_lead first cs))"
    by (auto simp: drop_lead_def strip_Nil_visible split: list.splits)
  also have "drop_lead first cs = a @ b" using take_fit_parts [OF f] by simp
  also have "concat (a @ b) = concat (cur @ r)"
    using c by (auto simp: break_long_def split: list.splits if_splits)
  also have "visible (concat (cur @ r)) = visible (concat cur) @ visible (concat r)" by simp
  also have "visible (concat cur) = visible (concat (drop_trail cur))"
    by (cases cur rule: rev_cases) (auto simp: drop_trail_def strip_Nil_visible)
  finally show ?thesis
    using assms by (auto simp: next_line_def f c Let_def split: if_splits)
qed

lemma wrap_chunks_visible:
  "0 < w \<Longrightarrow> visible (concat (wrap_chunks w lines cs)) = visible (concat lines) @ visible (concat cs)"
proof (induction w lines cs rule: wrap_chunks.induct)
  case (1 w lines cs)
  show ?case
  proof (cases "cs = []")
    case True
    then show ?thesis by (simp add: wrap_chunks.simps)
  next
    case False
    obtain l rest where n: "next_line w (lines = []) cs = (l, rest)" by fastforce
    then show ?thesis
      using "1.IH" [OF _ n [symmetric]] "1.prems" False next_line_visible [OF n]
      by (simp add: wrap_chunks.simps [of w lines cs])
  qed
qed

lemma textwrap_visible: "0 < w \<Longrightarrow> visible (concat (textwrap_wrap w s)) = visible s"
  by (simp add: textwrap_wrap_def wrap_chunks_visible concat_runs visible_munge)

lemma visible_join: "visible (join [NL] ls) = visible (concat ls)"
  by (induction "[NL]" ls rule: join.induct) auto

lemma visible_concat: "visible (concat ls) = concat (map visible ls)"
  by (induction ls) auto

section \<open>Lines\<close>

text \<open>Lines without a newline come back when they are joined and split again.\<close>

lemma split_at_join:
  "ls \<noteq> [] \<Longrightarrow> \<forall>l\<in>set ls. c \<notin> set l \<Longrightarrow> split_at c (join [c] ls) = ls"
  by (induction "[c]" ls rule: join.induct) (simp_all add: split_at_absent split_at_append)

lemma set_next_line:
  assumes "next_line w first cs = (l, rest)"
  shows "set (concat l) \<subseteq> set (concat cs) \<and> set (concat rest) \<subseteq> set (concat cs)"
proof -
  obtain a b where f: "take_fit w 0 (drop_lead first cs) = (a, b)" by fastforce
  obtain cur r where c: "break_long w (a, b) = (cur, r)" by fastforce
  have "set (concat (drop_lead first cs)) \<subseteq> set (concat cs)"
    by (auto simp: drop_lead_def split: list.splits if_splits)
  moreover have "drop_lead first cs = a @ b" using take_fit_parts [OF f] by simp
  moreover have "concat (a @ b) = concat (cur @ r)"
    using c by (auto simp: break_long_def split: list.splits if_splits)
  moreover have "set (concat (drop_trail cur)) \<subseteq> set (concat cur)"
    by (cases cur rule: rev_cases) (auto simp: drop_trail_def)
  ultimately have "set (concat (drop_trail cur)) \<subseteq> set (concat cs)" "set (concat r) \<subseteq> set (concat cs)"
    by (metis Un_subset_iff concat_append order_trans set_append)+
  then show ?thesis
    using assms by (auto simp: next_line_def f c Let_def split: if_splits)
qed

lemma set_wrap_chunks:
  "set (concat (wrap_chunks w lines cs)) \<subseteq> set (concat lines) \<union> set (concat cs)"
proof (induction w lines cs rule: wrap_chunks.induct)
  case (1 w lines cs)
  show ?case
  proof (cases "cs = [] \<or> w = 0")
    case True
    then show ?thesis by (auto simp: wrap_chunks.simps)
  next
    case False
    obtain l rest where n: "next_line w (lines = []) cs = (l, rest)" by fastforce
    have "set (concat (wrap_chunks w (lines @ l) rest)) \<subseteq> set (concat (lines @ l)) \<union> set (concat rest)"
      using "1.IH" [OF False n [symmetric]] .
    then have "set (concat (wrap_chunks w (lines @ l) rest))
      \<subseteq> set (concat lines) \<union> set (concat l) \<union> set (concat rest)"
      by (simp only: concat_append set_append Un_assoc)
    moreover have step: "wrap_chunks w lines cs = wrap_chunks w (lines @ l) rest"
      using False n by (simp add: wrap_chunks.simps [of w lines cs])
    ultimately show ?thesis unfolding step using set_next_line [OF n] by blast
  qed
qed

lemma set_expandtabs: "set (expandtabs col s) \<subseteq> set s \<union> {CHR '' ''}"
  by (induction col s rule: expandtabs.induct) auto

lemma set_textwrap: "NL \<notin> set s \<Longrightarrow> x \<in> set (textwrap_wrap w s) \<Longrightarrow> NL \<notin> set x"
proof -
  assume s: "NL \<notin> set s" and x: "x \<in> set (textwrap_wrap w s)"
  have "NL \<notin> set (munge s)"
    using s set_expandtabs [of 0 s] by (auto simp: munge_def split: if_splits)
  then have "NL \<notin> set (concat (textwrap_wrap w s))"
    using set_wrap_chunks [of w "[]" "runs wrap_space (munge s)"]
    by (auto simp: textwrap_wrap_def concat_runs simp del: set_concat)
  with x show ?thesis by auto
qed

lemma split_at_pieces: "p \<in> set (split_at c s) \<Longrightarrow> c \<notin> set p"
  by (induction s arbitrary: p) (auto split: if_splits list.splits)

text \<open>The lines \<^verbatim>\<open>wrap_body\<close> joins.\<close>

definition wrapped_lines :: "nat \<Rightarrow> string \<Rightarrow> string list" where
  "wrapped_lines width body = concat (map (wrap_para width) (split_at NL (sanitize_text body)))"

lemma wrap_para_facts:
  "wrap_para w p \<noteq> []"
  "NL \<notin> set p \<Longrightarrow> l \<in> set (wrap_para w p) \<Longrightarrow> NL \<notin> set l \<and> length l \<le> w"
  using set_textwrap [of p l w] textwrap_fits [of l w p]
  by (auto simp: wrap_para_def Let_def split: if_splits)

lemma wrapped_lines_facts:
  "wrapped_lines w body \<noteq> []" "\<forall>l\<in>set (wrapped_lines w body). NL \<notin> set l \<and> length l \<le> w"
proof -
  show "wrapped_lines w body \<noteq> []"
    using split_at_nonempty [of NL "sanitize_text body"] wrap_para_facts(1)
    by (cases "split_at NL (sanitize_text body)") (auto simp: wrapped_lines_def)
  show "\<forall>l\<in>set (wrapped_lines w body). NL \<notin> set l \<and> length l \<le> w"
  proof
    fix l assume "l \<in> set (wrapped_lines w body)"
    then obtain p where "p \<in> set (split_at NL (sanitize_text body))" "l \<in> set (wrap_para w p)"
      by (auto simp: wrapped_lines_def)
    then show "NL \<notin> set l \<and> length l \<le> w"
      by (intro wrap_para_facts(2) [of p]) (simp_all add: split_at_pieces)
  qed
qed

lemma visible_concat_map:
  "(\<And>x. visible (concat (f x)) = visible x) \<Longrightarrow>
   visible (concat (concat (map f xs))) = concat (map visible xs)"
  by (induction xs) simp_all

lemma foldr_max_le: "\<forall>x\<in>set xs. x \<le> (w::nat) \<Longrightarrow> foldr max xs 0 \<le> w"
  by (induction xs) auto

lemma wrap_body_keeps:
  assumes "0 < w"
  shows "max_line_length (wrap_body w body) \<le> w
     \<and> visible (wrap_body w body) = visible (sanitize_text body)"
proof
  have "wrap_body w body = join [NL] (wrapped_lines w body)"
    by (simp add: wrap_body_def wrapped_lines_def)
  moreover have "split_at NL (join [NL] (wrapped_lines w body)) = wrapped_lines w body"
    using wrapped_lines_facts [of w body] by (intro split_at_join) auto
  ultimately show "max_line_length (wrap_body w body) \<le> w"
    using wrapped_lines_facts(2) [of w body] foldr_max_le [of "map length (wrapped_lines w body)" w]
    by (simp add: max_line_length_def)
  have para: "visible (concat (wrap_para w p)) = visible p" for p
    using textwrap_visible [OF assms, of p] strip_Nil_visible [of p]
    by (auto simp: wrap_para_def Let_def)
  have "visible (sanitize_text body) = visible (join [NL] (split_at NL (sanitize_text body)))"
    by (simp add: join_split_at)
  also have "\<dots> = concat (map visible (split_at NL (sanitize_text body)))"
    by (simp add: visible_join visible_concat)
  also have "\<dots> = visible (concat (wrapped_lines w body))"
    by (simp add: wrapped_lines_def visible_concat_map [OF para])
  finally show "visible (wrap_body w body) = visible (sanitize_text body)"
    by (simp add: wrap_body_def wrapped_lines_def visible_join)
qed

section \<open>Submissions\<close>

lemma set_strip: "set (strip s) \<subseteq> set s"
  by (auto simp: strip_def rstrip_def lstrip_def dest!: set_dropWhileD)

lemma sanitize_printable: "c \<in> set (sanitize_text s) \<Longrightarrow> printable c"
  by (simp add: sanitize_text_def)

lemma check_address_fallback:
  "check_address None a = Inr n \<Longrightarrow> is_ascii n \<and> length n \<le> 254 \<and> fallback_match n"
  by (auto simp: check_address_def Let_def EMAIL_HARD_MAX_def split: if_splits)

lemma subject_char:
  "c \<in> set (replace1 NL '' '' (sanitize_text s)) \<Longrightarrow> printable c \<and> c \<noteq> NL"
  using sanitize_printable [of c s]
  by (auto simp: replace1_def printable_def ord_def split: if_splits)

section \<open>Properties\<close>

text \<open>C22. Wrapping keeps its promise and loses nothing: no line of a wrapped body is longer
  than the width, and the characters that are not white space are exactly those of the
  sanitized body, in the same order.\<close>

theorem wrap_body_fits_and_keeps:
  assumes "0 < w"
  shows "max_line_length (wrap_body w body) \<le> w
     \<and> visible (wrap_body w body) = visible (sanitize_text body)"
  using assms by (rule wrap_body_keeps)

theorem wrap_body_fits_and_keeps_witness:
  "max_line_length (wrap_body 4 ''ab cdefgh'') \<le> 4
   \<and> visible (wrap_body 4 ''ab cdefgh'') = visible (sanitize_text ''ab cdefgh'')"
  by (rule wrap_body_fits_and_keeps) simp



end
