(* ===== verification/Mail_Builder.thy ===== *)
theory Mail_Builder
  imports Mail_Queue Mail_Validate
begin

text \<open>
  The Winlink message builder (src/src/web/mailbuilder.py). The random message identifier is
  an argument; the date comes from the record or, when the record has none, from the clock
  \<open>now\<close>. \<open>utf8\<close> is the encoding on the code points the model's characters have.
\<close>

definition utf8_char :: "char \<Rightarrow> bytes" where
  "utf8_char c = (let n = ord c in
     if n < 128 then [word_of_nat n] else [word_of_nat (192 + n div 64), word_of_nat (128 + n mod 64)])"

definition utf8 :: "string \<Rightarrow> bytes" where
  "utf8 s = concat (map utf8_char s)"

text \<open>\<^verbatim>\<open>raise BuildError(m)\<close>.\<close>

definition BuildError :: "string \<Rightarrow> exn" where
  "BuildError m = AppError ''BuildError'' m"

definition base_callsign :: "string \<Rightarrow> string" where
  "base_callsign call = hd (split_at CHR ''-'' (strip (upper call)))"

definition station_from_address :: "string \<Rightarrow> string result" where
  "station_from_address callsign =
     (let call = base_callsign callsign in
      if call = [] \<or> call = ''N0CALL'' then Inl (BuildError ''station callsign not configured'')
      else Inr (call @ ''@winlink.org''))"

definition winlink_date :: "nat \<Rightarrow> nat \<Rightarrow> string" where
  "winlink_date ts now = fmt_winlink (gmtime (if ts \<noteq> 0 then ts else now))"

definition winlink_addr :: "string \<Rightarrow> string" where
  "winlink_addr addr =
     (let a = strip addr in
      if CHR ''@'' \<in> set a \<and> \<not> startswith ''SMTP:'' (upper a) then ''SMTP:'' @ a else a)"

definition disclaimer :: "bool \<Rightarrow> string" where
  "disclaimer spanish =
     (if spanish then
        ''La interfaz publica no ofrece servicio de correo entrante; los destinatarios deben responder ''
        @ ''directamente a la direccion de correo personal que se muestra en el mensaje.''
      else ''The public interface does not provide incoming email service; recipients must reply directly ''
        @ ''to the personal email address shown in the message.'')"

definition reply_label :: "bool \<Rightarrow> string" where
  "reply_label spanish = (if spanish then ''Para responder, escriba a: '' else ''To reply, write to: '')"

abbreviation CRLF :: string where "CRLF \<equiv> [CRET, NL]"

definition compose_body :: "mail \<Rightarrow> string" where
  "compose_body rec =
     (let spanish = startswith ''es'' (lower (if m_lang rec = [] then ''en'' else m_lang rec));
          reply_to = strip (m_reply_to rec);
          parts = [disclaimer spanish]
                  @ (if reply_to = [] then [] else [reply_label spanish @ reply_to]) @ [m_body rec]
      in join [NL, NL] parts)"

record winlink_msg =
  w_mid :: string
  w_from :: string
  w_to :: string
  w_reply_to :: string
  w_subject :: string
  w_date :: string
  w_body :: string
  w_text :: string
  w_size :: nat

definition body_block :: "string \<Rightarrow> string" where
  "body_block body = replace1 NL CRLF body @ CRLF"

definition header_block :: "string \<Rightarrow> string \<Rightarrow> string \<Rightarrow> string \<Rightarrow> string \<Rightarrow> string \<Rightarrow> (string \<times> string) list" where
  "header_block mid block date call subject to_field =
     [(''Mid'', mid), (''Body'', show_nat (length (utf8 block))),
      (''Content-Transfer-Encoding'', ''8bit''), (''Content-Type'', ''text/plain; charset=ISO-8859-1''),
      (''Date'', date), (''From'', call), (''Mbo'', call)]
     @ (if subject = [] then [] else [(''Subject'', subject)])
     @ [(''To'', to_field), (''Type'', ''Private'')]"

definition render_headers :: "(string \<times> string) list \<Rightarrow> string" where
  "render_headers hs = join CRLF (map (\<lambda>(k, v). k @ '': '' @ v) hs)"

definition build_message :: "string \<Rightarrow> nat \<Rightarrow> string \<Rightarrow> mail \<Rightarrow> winlink_msg result" where
  "build_message callsign now mid rec =
     rbind (station_from_address callsign) (\<lambda>from_addr.
       let to_addr = strip (m_to rec) in
       if to_addr = [] then Inl (BuildError ''destination address missing'')
       else let subject = strip (replace1 NL '' '' (m_subject rec));
                date = winlink_date (m_created rec) now;
                call = hd (split_at CHR ''@'' from_addr);
                body = wrap_body WRAP_WIDTH (compose_body rec);
                block = body_block body;
                text = render_headers (header_block mid block date call subject (winlink_addr to_addr))
                       @ CRLF @ CRLF @ block
            in Inr \<lparr>w_mid = mid, w_from = from_addr, w_to = to_addr, w_reply_to = strip (m_reply_to rec),
                    w_subject = subject, w_date = date, w_body = body, w_text = text,
                    w_size = length (utf8 text)\<rparr>)"

definition proposal_line :: "winlink_msg \<Rightarrow> nat \<Rightarrow> string" where
  "proposal_line msg compressed_size =
     ''FC EM '' @ w_mid msg @ '' '' @ show_nat (w_size msg) @ '' '' @ show_nat compressed_size @ '' 0''"

section \<open>Facts\<close>

lemma utf8_append [simp]: "utf8 (s @ t) = utf8 s @ utf8 t"
  by (simp add: utf8_def)

lemma base_callsign_no_dash: "CHR ''-'' \<notin> set (base_callsign call)"
  by (auto simp: base_callsign_def hd_split_at dest: set_takeWhileD)

lemma hd_split_at_address: "hd (split_at c (s @ c # t)) = takeWhile (\<lambda>x. x \<noteq> c) s"
  by (simp add: hd_split_at takeWhile_tail)

lemma visible_crlf: "visible (crlf_to_lf s) = visible s"
  by (induction s rule: crlf_to_lf.induct) simp_all

lemma visible_replace_cret: "visible (replace1 CRET [NL] s) = visible s"
  by (induction s) simp_all

lemma visible_filter: "visible (filter P s) = filter P (visible s)"
  by (simp add: visible_def conj_commute)

lemma visible_sanitize: "visible (sanitize_text s) = filter printable (visible s)"
  by (simp add: sanitize_text_def visible_filter visible_replace_cret visible_crlf)

lemma visible_compose:
  "visible (compose_body rec) =
     (let spanish = startswith ''es'' (lower (if m_lang rec = [] then ''en'' else m_lang rec)) in
      visible (disclaimer spanish)
      @ (if strip (m_reply_to rec) = [] then [] else visible (reply_label spanish) @ visible (m_reply_to rec))
      @ visible (m_body rec))"
  by (simp add: compose_body_def Let_def)

text \<open>A record for the witnesses.\<close>

definition sample_mail :: mail where
  "sample_mail = \<lparr>m_id = ''19700101T000000Z-1a2b3c4d'', m_created = 60, m_created_iso = [],
     m_to = ''a@b.c'', m_reply_to = ''d@e.f'', m_subject = ''Hi'', m_body = ''test 73'', m_lang = ''en'',
     m_status = ''Approved'', m_route = None, m_attempts = 0, m_error = None, m_last_test = None\<rparr>"

lemma build_sample: "\<exists>w. build_message ''kp4pra-10'' 0 ''ABCDEFGHIJKL'' sample_mail = Inr w \<and> w_mid w = ''ABCDEFGHIJKL''"
proof -
  have "base_callsign ''kp4pra-10'' = ''KP4PRA''"
    by (simp add: base_callsign_def upper_char_def is_lower_def ord_def chr_def strip_def lstrip_def
        rstrip_def is_space_def py_eval)
  moreover have "strip ''a@b.c'' = ''a@b.c''"
    by (rule strip_id) (simp_all add: is_space_def ord_def)
  ultimately show ?thesis
    by (simp add: build_message_def station_from_address_def sample_mail_def Let_def)
qed

section \<open>Properties\<close>

text \<open>The layout of a built message: a header block with one header per line, an empty line and
  the body block. Its Body header is the exact number of bytes of the body block, its From
  header the station's callsign without SSID, and the size declared in the proposal the
  number of bytes of the whole message.\<close>

theorem built_message_layout:
  assumes "build_message callsign now mid rec = Inr w"
  shows "\<exists>hs block. w_text w = render_headers hs @ CRLF @ CRLF @ block
     \<and> map_of hs ''Body'' = Some (show_nat (length (utf8 block)))
     \<and> map_of hs ''Mid'' = Some mid
     \<and> map_of hs ''From'' = Some (takeWhile (\<lambda>c. c \<noteq> CHR ''@'') (base_callsign callsign))
     \<and> CHR ''-'' \<notin> set (base_callsign callsign)
     \<and> w_size w = length (utf8 (w_text w))
     \<and> block = replace1 NL CRLF (w_body w) @ CRLF"
proof -
  let ?call = "takeWhile (\<lambda>c. c \<noteq> CHR ''@'') (base_callsign callsign)"
  let ?block = "body_block (w_body w)"
  have addr: "station_from_address callsign = Inr f \<Longrightarrow> hd (split_at CHR ''@'' f) = ?call" for f
    by (auto simp: station_from_address_def Let_def hd_split_at_address split: if_splits)
  have "\<exists>date subject to_field.
      w_text w = render_headers (header_block mid ?block date ?call subject to_field) @ CRLF @ CRLF @ ?block
      \<and> w_size w = length (utf8 (w_text w))"
    using assms
    by (intro exI [of _ "winlink_date (m_created rec) now"]
        exI [of _ "strip (replace1 NL '' '' (m_subject rec))"] exI [of _ "winlink_addr (strip (m_to rec))"])
       (auto simp: build_message_def rbind_eq_Inr Let_def addr split: if_splits)
  then obtain date subject to_field where
    layout: "w_text w = render_headers (header_block mid ?block date ?call subject to_field) @ CRLF @ CRLF @ ?block"
      "w_size w = length (utf8 (w_text w))" by blast
  have "map_of (header_block mid ?block date ?call subject to_field) k
        = [''Mid'' \<mapsto> mid, ''Body'' \<mapsto> show_nat (length (utf8 ?block)), ''From'' \<mapsto> ?call] k"
    if "k \<in> {''Mid'', ''Body'', ''From''}" for k
    using that by (auto simp: header_block_def)
  then show ?thesis
    using layout base_callsign_no_dash
    by (intro exI [of _ "header_block mid ?block date ?call subject to_field"] exI [of _ ?block])
       (simp add: body_block_def)
qed

theorem built_message_layout_witness:
  "\<exists>w. build_message ''kp4pra-10'' 0 ''ABCDEFGHIJKL'' sample_mail = Inr w \<and>
    (\<exists>hs block. w_text w = render_headers hs @ CRLF @ CRLF @ block
     \<and> map_of hs ''Body'' = Some (show_nat (length (utf8 block)))
     \<and> map_of hs ''Mid'' = Some ''ABCDEFGHIJKL''
     \<and> map_of hs ''From'' = Some (takeWhile (\<lambda>c. c \<noteq> CHR ''@'') (base_callsign ''kp4pra-10''))
     \<and> CHR ''-'' \<notin> set (base_callsign ''kp4pra-10'')
     \<and> w_size w = length (utf8 (w_text w))
     \<and> block = replace1 NL CRLF (w_body w) @ CRLF)"
  using build_sample built_message_layout [of "''kp4pra-10''" 0 "''ABCDEFGHIJKL''" sample_mail] by blast

text \<open>C32. The body keeps what the user wrote and says where to reply: no line of the body is longer
  than 78 characters, and its printable characters other than white space are those of the
  disclaimer, then of the reply line with the user's address when there is one, then of the
  user's text, in order.\<close>

theorem built_body_content:
  assumes "build_message callsign now mid rec = Inr w"
  shows "max_line_length (w_body w) \<le> 78
     \<and> (\<exists>es. visible (w_body w) = filter printable
          (visible (disclaimer es)
           @ (if strip (m_reply_to rec) = [] then []
              else visible (reply_label es) @ visible (m_reply_to rec))
           @ visible (m_body rec)))"
proof -
  have w: "w_body w = wrap_body WRAP_WIDTH (compose_body rec)"
    using assms by (auto simp: build_message_def rbind_eq_Inr Let_def split: if_splits)
  note wrap = wrap_body_keeps [of WRAP_WIDTH "compose_body rec"]
  show ?thesis
    using wrap unfolding w
    by (auto simp: WRAP_WIDTH_def visible_sanitize visible_compose Let_def)
qed

theorem built_body_content_witness:
  "\<exists>w. build_message ''kp4pra-10'' 0 ''ABCDEFGHIJKL'' sample_mail = Inr w \<and>
    max_line_length (w_body w) \<le> 78
     \<and> (\<exists>es. visible (w_body w) = filter printable
          (visible (disclaimer es)
           @ (if strip (m_reply_to sample_mail) = [] then []
              else visible (reply_label es) @ visible (m_reply_to sample_mail))
           @ visible (m_body sample_mail)))"
  using build_sample built_body_content [of "''kp4pra-10''" 0 "''ABCDEFGHIJKL''" sample_mail] by blast

end
