(* ===== verification/B2f.thy ===== *)
theory B2f
  imports Mail_Builder
begin

text \<open>
  The pure part of the B2F forwarding protocol (src/src/web/b2f.py): system identification
  lines, the proposal block with its checksum, the FS answer, and the binary framing of a
  compressed message with its inverse.
\<close>

section \<open>System identification\<close>

definition CAPABILITIES :: string where "CAPABILITIES = ''B2FHM$''"
definition CLIENT_NAME :: string where "CLIENT_NAME = ''KP4PRA''"

text \<open>The \<^verbatim>\<open>webmail.delivery.sid\<close> section: \<^const>\<open>None\<close> for a key that is missing or null.\<close>

record sid_cfg =
  sc_client_name :: "string option"
  sc_capabilities :: "string option"
  sc_version :: "string option"

definition or_else :: "string option \<Rightarrow> string \<Rightarrow> string" where
  "or_else x d = (case x of None \<Rightarrow> d | Some s \<Rightarrow> if s = [] then d else s)"

definition client_sid :: "string \<Rightarrow> sid_cfg option \<Rightarrow> string" where
  "client_sid version cfg =
     (case cfg of
        None \<Rightarrow> ''['' @ CLIENT_NAME @ ''-'' @ version @ ''-'' @ CAPABILITIES @ '']''
      | Some sid \<Rightarrow>
          let name = strip (or_else (sc_client_name sid) CLIENT_NAME);
              caps = strip (or_else (sc_capabilities sid) CAPABILITIES);
              ver_override = strip (or_else (sc_version sid) [])
          in ''['' @ name @ ''-'' @ (if ver_override = [] then version else ver_override) @ ''-'' @ caps @ '']'')"

record sid_info =
  si_raw :: string
  si_name :: string
  si_version :: string
  si_caps :: string
  si_fbb :: bool
  si_b2 :: bool
  si_checksum :: bool

text \<open>\<^verbatim>\<open>s.rsplit("-", 2)\<close>.\<close>

definition rsplit2 :: "string \<Rightarrow> string list" where
  "rsplit2 s =
     (case rpartition_at CHR ''-'' s of
        (_, False, _) \<Rightarrow> [s]
      | (a, True, b) \<Rightarrow>
          (case rpartition_at CHR ''-'' a of
             (_, False, _) \<Rightarrow> [a, b]
           | (x, True, y) \<Rightarrow> [x, y, b]))"

definition parse_sid :: "string \<Rightarrow> sid_info" where
  "parse_sid line0 =
     (let line = strip line0;
          info = \<lparr>si_raw = line, si_name = [], si_version = [], si_caps = [],
                  si_fbb = False, si_b2 = False, si_checksum = False\<rparr>
      in if startswith ''['' line \<and> endswith '']'' line then
           let parts = rsplit2 (butlast (tl line));
               info1 = (case parts of
                          [n, v, c] \<Rightarrow> info\<lparr>si_name := n, si_version := v, si_caps := c\<rparr>
                        | n # _ \<Rightarrow> info\<lparr>si_name := n\<rparr>
                        | [] \<Rightarrow> info);
               caps = upper (si_caps info1)
           in info1\<lparr>si_fbb := (CHR ''F'' \<in> set caps), si_b2 := (CHR ''2'' \<in> set caps),
                    si_checksum := (CHR ''$'' \<in> set (si_caps info1))\<rparr>
         else info)"

section \<open>Proposals\<close>

definition byte_sum :: "bytes \<Rightarrow> int" where
  "byte_sum bs = sum_list (map uint bs)"

definition proposal_checksum :: "bytes \<Rightarrow> int" where
  "proposal_checksum block = (- byte_sum block) AND 0xFF"

definition hex_digit :: "nat \<Rightarrow> char" where
  "hex_digit n = (if n < 10 then chr (48 + n) else chr (55 + n))"

text \<open>\<^verbatim>\<open>%02X\<close> of a number below 256.\<close>

definition hex2 :: "int \<Rightarrow> string" where
  "hex2 n = [hex_digit (nat n div 16), hex_digit (nat n mod 16)]"

text \<open>\<^verbatim>\<open>s.encode("ascii")\<close>.\<close>

definition encode_ascii :: "string \<Rightarrow> bytes result" where
  "encode_ascii s = (if is_ascii s then Inr (map (\<lambda>c. word_of_nat (ord c)) s)
                     else Inl (ValueError ''ascii codec''))"

record proposals =
  pr_lines :: "string list"
  pr_block :: bytes
  pr_checksum :: int
  pr_text :: string

definition build_proposals :: "(winlink_msg \<times> nat) list \<Rightarrow> proposals result" where
  "build_proposals items =
     (let ls = map (\<lambda>(msg, csize). proposal_line msg csize) items;
          joined = join [CRET] ls @ [CRET]
      in rbind (encode_ascii joined) (\<lambda>block.
         let ck = proposal_checksum block in
         Inr \<lparr>pr_lines = ls, pr_block = block, pr_checksum = ck,
              pr_text = joined @ ''F> '' @ hex2 ck @ [CRET]\<rparr>))"

section \<open>The FS answer\<close>

datatype disposition = Send_it | Skip | Hold | Resume | Unknown

definition disposition_of :: "char \<Rightarrow> disposition" where
  "disposition_of ch =
     (let u = upper_char ch in
      if u = CHR ''Y'' then Send_it
      else if u \<in> {CHR ''N'', CHR ''L'', CHR ''R''} then Skip
      else if u \<in> {CHR ''H'', CHR ''=''} then Hold
      else if u = CHR ''!'' then Resume
      else Unknown)"

definition parse_fs :: "string \<Rightarrow> disposition list" where
  "parse_fs line0 =
     (let line = strip line0 in
      if \<not> startswith ''FS'' (upper line) then []
      else map disposition_of (strip (drop 2 line)))"

section \<open>Binary framing\<close>

abbreviation SOH :: byte where "SOH \<equiv> 0x01"
abbreviation STX :: byte where "STX \<equiv> 0x02"
abbreviation EOT :: byte where "EOT \<equiv> 0x04"

text \<open>\<^verbatim>\<open>title.encode("ascii", "replace")\<close>.\<close>

definition ascii_replace :: "string \<Rightarrow> bytes" where
  "ascii_replace s = map (\<lambda>c. if ord c < 128 then word_of_nat (ord c) else 0x3F) s"

record frame =
  fr_bytes :: bytes
  fr_checksum :: int
  fr_data_frames :: nat
  fr_header_len :: nat

definition data_frame :: "bytes \<Rightarrow> bytes" where
  "data_frame chunk = [STX, word_of_nat (length chunk)] @ chunk"

definition frame_binary :: "string \<Rightarrow> bytes \<Rightarrow> frame" where
  "frame_binary title compressed =
     (let t = take 80 (ascii_replace (if title = [] then ''No subject'' else title));
          offset = [0x30];
          hdr_len = length t + length offset + 2;
          data = chunks 250 compressed;
          checksum = (- byte_sum compressed) AND 0xFF
      in \<lparr>fr_bytes = [SOH, word_of_nat hdr_len] @ t @ [0x00] @ offset @ [0x00]
                       @ concat (map data_frame data) @ [EOT, word_of_int checksum],
          fr_checksum = checksum, fr_data_frames = length data, fr_header_len = hdr_len\<rparr>)"

function unframe :: "bytes \<Rightarrow> bytes \<Rightarrow> bytes result" where
  "unframe out [] = Inr out"
| "unframe out (c # rest) =
     (if c = SOH then (case rest of [] \<Rightarrow> Inl IndexError | ln # r \<Rightarrow> unframe out (drop (unat ln) r))
      else if c = STX then
        (case rest of [] \<Rightarrow> Inl IndexError
         | ln # r \<Rightarrow> unframe (out @ take (unat ln) r) (drop (unat ln) r))
      else if c = EOT then Inr out
      else Inl (ValueError ''bad control byte''))"
  by pat_completeness auto
termination by (relation "measure (\<lambda>(out, bs). length bs)") auto

definition unframe_binary :: "bytes \<Rightarrow> bytes result" where
  "unframe_binary framed = unframe [] framed"

section \<open>Facts\<close>

lemma and_255_int: "(x::int) AND 255 = x mod 256"
proof -
  have "x AND mask 8 = take_bit 8 x" by (simp only: take_bit_eq_mask)
  then show ?thesis by (simp add: mask_eq_exp_minus_1 take_bit_eq_mod)
qed

lemma checksum_cancels: "(byte_sum bs + ((- byte_sum bs) AND 0xFF)) mod 256 = 0"
  by (simp add: and_255_int mod_add_right_eq)

lemma checksum_range: "0 \<le> (- byte_sum bs) AND 0xFF" "(- byte_sum bs) AND 0xFF < 256"
  by (simp_all add: and_255_int)

lemma unframe_data:
  "list_all (\<lambda>c. length c < 256) cs \<Longrightarrow>
   unframe out (concat (map data_frame cs) @ rest) = unframe (out @ concat cs) rest"
proof (induction cs arbitrary: out)
  case (Cons c cs)
  then have "unat (word_of_nat (length c) :: byte) = length c"
    by (simp add: unat_of_nat take_bit_eq_mod)
  with Cons show ?case by (simp add: data_frame_def)
qed simp

lemma hex_digit_facts:
  "n < 16 \<Longrightarrow> (if is_digit (hex_digit n) then digit_val (hex_digit n) else ord (hex_digit n) - 55) = n"
  by (auto simp: hex_digit_def is_digit_def digit_val_def ord_chr)

definition hex_value :: "string \<Rightarrow> nat" where
  "hex_value s = foldl (\<lambda>a c. 16 * a + (if is_digit c then digit_val c else ord c - 55)) 0 s"

lemma hex_value_hex2: "0 \<le> n \<Longrightarrow> n < 256 \<Longrightarrow> int (hex_value (hex2 n)) = n"
proof -
  assume n: "0 \<le> n" "n < 256"
  then have "nat n div 16 < 16" by (simp add: nat_less_iff less_mult_imp_div_less)
  then have "hex_value (hex2 n) = 16 * (nat n div 16) + nat n mod 16"
    using hex_digit_facts [of "nat n div 16"] hex_digit_facts [of "nat n mod 16"]
    by (simp add: hex_value_def hex2_def)
  with n show ?thesis by simp
qed

lemma rsplit2_three:
  "CHR ''-'' \<notin> set v \<Longrightarrow> CHR ''-'' \<notin> set c \<Longrightarrow> rsplit2 (n @ CHR ''-'' # v @ CHR ''-'' # c) = [n, v, c]"
proof -
  assume v: "CHR ''-'' \<notin> set v" and c: "CHR ''-'' \<notin> set c"
  have "rpartition_at CHR ''-'' (n @ CHR ''-'' # v @ CHR ''-'' # c) = (n @ CHR ''-'' # v, True, c)"
    using rpartition_at_append [OF c, of "n @ CHR ''-'' # v"] by simp
  then show ?thesis by (simp add: rsplit2_def rpartition_at_append [OF v])
qed

lemma strip_bracketed: "strip (CHR ''['' # s @ '']'') = CHR ''['' # s @ '']''"
  by (rule strip_id) (simp_all add: is_space_def ord_def)

lemma parse_sid_brackets:
  assumes "CHR ''-'' \<notin> set v" "CHR ''-'' \<notin> set c"
  shows "parse_sid (''['' @ n @ ''-'' @ v @ ''-'' @ c @ '']'') =
     \<lparr>si_raw = ''['' @ n @ ''-'' @ v @ ''-'' @ c @ '']'', si_name = n, si_version = v, si_caps = c,
      si_fbb = (CHR ''F'' \<in> set (upper c)), si_b2 = (CHR ''2'' \<in> set (upper c)),
      si_checksum = (CHR ''$'' \<in> set c)\<rparr>"
proof -
  have s: "strip (''['' @ n @ ''-'' @ v @ ''-'' @ c @ '']'') = ''['' @ n @ ''-'' @ v @ ''-'' @ c @ '']''"
    using strip_bracketed [of "n @ ''-'' @ v @ ''-'' @ c"] by simp
  have "butlast (tl (''['' @ n @ ''-'' @ v @ ''-'' @ c @ '']'')) = n @ CHR ''-'' # v @ CHR ''-'' # c"
    by (simp add: butlast_append)
  moreover have "startswith ''['' (''['' @ n @ ''-'' @ v @ ''-'' @ c @ '']'')"
    "endswith '']'' (''['' @ n @ ''-'' @ v @ ''-'' @ c @ '']'')"
    by (simp_all add: startswith_def endswith_def)
  ultimately show ?thesis
    unfolding parse_sid_def Let_def s using rsplit2_three [OF assms, of n] by simp
qed

lemma strip_FS: "list_all (\<lambda>c. \<not> is_space c) cs \<Longrightarrow> cs \<noteq> [] \<Longrightarrow> strip (''FS '' @ cs) = ''FS '' @ cs"
  by (rule strip_id) (auto simp: is_space_def ord_def list_all_iff)

lemma ascii_simps [simp]:
  "is_ascii [] = True" "is_ascii (c # s) \<longleftrightarrow> ord c < 128 \<and> is_ascii s"
  "is_ascii (s @ t) \<longleftrightarrow> is_ascii s \<and> is_ascii t"
  by (simp_all add: is_ascii_def)

lemma ascii_show_nat [simp]: "is_ascii (show_nat n)"
  using show_nat_digits [of n] by (auto simp: is_ascii_def list_all_iff is_digit_def)

lemma ascii_hex2: "0 \<le> n \<Longrightarrow> n < 256 \<Longrightarrow> is_ascii (hex2 n)"
proof -
  assume n: "0 \<le> n" "n < 256"
  have d: "ord (hex_digit k) < 128" if "k < 16" for k
    using that by (simp add: hex_digit_def ord_chr)
  have "nat n div 16 < 16" "nat n mod 16 < 16"
    using n by (simp_all add: nat_less_iff less_mult_imp_div_less)
  then show ?thesis by (simp add: hex2_def d)
qed

text \<open>A message for the witnesses.\<close>

definition sample_msg :: winlink_msg where
  "sample_msg = \<lparr>w_mid = ''ABCDEFGHIJKL'', w_from = ''KP4PRA@winlink.org'', w_to = ''a@b.c'',
     w_reply_to = ''d@e.f'', w_subject = ''Hi'', w_date = ''1970/01/01 00:01'', w_body = ''test 73'',
     w_text = ''x'', w_size = 1\<rparr>"

lemma sample_burst:
  "\<exists>pr b. build_proposals [(sample_msg, 1)] = Inr pr
     \<and> encode_ascii (client_sid ''1.0'' None @ [CRET] @ pr_text pr) = Inr b"
proof -
  have line: "is_ascii (proposal_line sample_msg 1)"
    by (simp add: proposal_line_def sample_msg_def ord_def)
  then obtain pr where pr: "build_proposals [(sample_msg, 1)] = Inr pr"
    by (auto simp: build_proposals_def encode_ascii_def Let_def ord_def)
  then have "pr_text pr = proposal_line sample_msg 1 @ [CRET] @ ''F> '' @ hex2 (pr_checksum pr) @ [CRET]"
    "0 \<le> pr_checksum pr" "pr_checksum pr < 256"
    using checksum_range
    by (auto simp: build_proposals_def Let_def rbind_eq_Inr proposal_checksum_def)
  then have "is_ascii (client_sid ''1.0'' None @ [CRET] @ pr_text pr)"
    using line ascii_hex2 [of "pr_checksum pr"]
    by (simp add: client_sid_def CLIENT_NAME_def CAPABILITIES_def ord_def)
  with pr show ?thesis by (simp add: encode_ascii_def)
qed

section \<open>Properties\<close>

text \<open>C14. Binary framing round trip: whatever the title, the peer that reads the framing gets the
  compressed message back byte for byte; every data block has one to 250 bytes; and the sum
  of the message bytes and the final checksum byte is zero modulo 256.\<close>

theorem binary_frame_roundtrip:
  "unframe_binary (fr_bytes (frame_binary title data)) = Inr data
   \<and> list_all (\<lambda>c. c \<noteq> [] \<and> length c \<le> 250) (chunks 250 data)
   \<and> fr_header_len (frame_binary title data) \<le> 83
   \<and> (byte_sum data + uint (last (fr_bytes (frame_binary title data)))) mod 256 = 0"
proof -
  define t where "t = take 80 (ascii_replace (if title = [] then ''No subject'' else title))"
  define ck where "ck = (- byte_sum data) AND 0xFF"
  have len: "length t \<le> 80" by (simp add: t_def)
  obtain h where h: "h = length t + 3" by simp
  have u: "unat (word_of_nat h :: byte) = h"
    using len h by (simp only: unat_of_nat take_bit_eq_mod) simp
  have b: "fr_bytes (frame_binary title data) =
      SOH # word_of_nat h # (t @ [0, 0x30, 0]) @ concat (map data_frame (chunks 250 data))
      @ [EOT, word_of_int ck]"
    by (simp add: frame_binary_def Let_def t_def ck_def h)
  have skip: "drop h ((t @ [0, 0x30, 0]) @ rest) = rest" for rest :: bytes
    by (simp add: h numeral_3_eq_3)
  have "list_all (\<lambda>c. length c < 256) (chunks 250 data)"
    using chunks_bounds [of _ 250 data] by (fastforce simp: list_all_iff)
  note data = unframe_data [OF this, of "[]" "[EOT, word_of_int ck]"]
  have hdr: "unframe [] (SOH # word_of_nat h # r) = unframe [] (drop h r)" for r
    by (simp add: u)
  have "unframe [] (fr_bytes (frame_binary title data)) = Inr data"
    unfolding b hdr skip data by simp
  moreover have "uint (word_of_int ck :: byte) = ck"
    using checksum_range [of data] by (simp add: ck_def uint_word_of_int)
  then have "(byte_sum data + uint (last (fr_bytes (frame_binary title data)))) mod 256 = 0"
    unfolding b using checksum_cancels [of data] by (simp add: ck_def)
  moreover have "fr_header_len (frame_binary title data) \<le> 83"
    using len by (simp add: frame_binary_def Let_def t_def)
  ultimately show ?thesis
    using chunks_bounds [of _ 250 data] by (simp add: unframe_binary_def list_all_iff)
qed

text \<open>The proposal block: the block's bytes and the checksum after F> sum to zero modulo 256,
  the two hex digits denote that checksum, and the text sent is the proposal lines, each ended
  by a carriage return, followed by the F> line.\<close>

theorem proposal_block_checksum:
  assumes "build_proposals items = Inr p"
  shows "(byte_sum (pr_block p) + pr_checksum p) mod 256 = 0
     \<and> (\<exists>h. pr_text p = join [CRET] (pr_lines p) @ [CRET] @ ''F> '' @ h @ [CRET] \<and> int (hex_value h) = pr_checksum p)
     \<and> pr_lines p = map (\<lambda>(m, n). proposal_line m n) items
     \<and> pr_block p = map (\<lambda>c. word_of_nat (ord c)) (join [CRET] (pr_lines p) @ [CRET])"
proof -
  have "\<exists>h. pr_text p = join [CRET] (pr_lines p) @ [CRET] @ ''F> '' @ h @ [CRET] \<and> int (hex_value h) = pr_checksum p"
    using assms hex_value_hex2 checksum_range
    by (auto simp: build_proposals_def rbind_eq_Inr Let_def proposal_checksum_def
        intro!: exI [of _ "hex2 (pr_checksum p)"])
  with assms show ?thesis
    using checksum_cancels
    by (auto simp: build_proposals_def rbind_eq_Inr Let_def proposal_checksum_def encode_ascii_def
        split: if_splits)
qed

theorem proposal_block_checksum_witness:
  "\<exists>p. build_proposals [(sample_msg, 1)] = Inr p
     \<and> (byte_sum (pr_block p) + pr_checksum p) mod 256 = 0
     \<and> (\<exists>h. pr_text p = join [CRET] (pr_lines p) @ [CRET] @ ''F> '' @ h @ [CRET] \<and> int (hex_value h) = pr_checksum p)
     \<and> pr_lines p = map (\<lambda>(m, n). proposal_line m n) [(sample_msg, 1)]
     \<and> pr_block p = map (\<lambda>c. word_of_nat (ord c)) (join [CRET] (pr_lines p) @ [CRET])"
  using sample_burst proposal_block_checksum [of "[(sample_msg, 1)]"] by blast

text \<open>The identification line round trip: the line this client sends is parsed back to its name,
  version and capabilities, and by default announces FBB compression, B2 and checksums.\<close>

theorem sid_roundtrip:
  assumes "CHR ''-'' \<notin> set version"
  shows "parse_sid (client_sid version None) =
     \<lparr>si_raw = client_sid version None, si_name = ''KP4PRA'', si_version = version, si_caps = ''B2FHM$'',
      si_fbb = True, si_b2 = True, si_checksum = True\<rparr>"
  using parse_sid_brackets [OF assms, of "''B2FHM$''" "''KP4PRA''"]
  by (simp add: client_sid_def CLIENT_NAME_def CAPABILITIES_def upper_char_def is_lower_def ord_def)

theorem sid_roundtrip_witness:
  "parse_sid (client_sid ''1.4.7'' None) =
     \<lparr>si_raw = client_sid ''1.4.7'' None, si_name = ''KP4PRA'', si_version = ''1.4.7'',
      si_caps = ''B2FHM$'', si_fbb = True, si_b2 = True, si_checksum = True\<rparr>"
  by (rule sid_roundtrip) simp

end
