(* ===== verification/Cms.thy ===== *)
theory Cms
  imports Py_Str
begin

text \<open>
  The Winlink CMS login (src/src/rms/cms.py). MD5 is the parameter \<open>md5\<close>, a function from
  bytes to a digest; what is used of it is that the digest has 16 bytes. The socket is the
  list of its reads: a non-empty chunk, end of file (an empty chunk) or a timeout.
  Characters are latin-1 code points, as the code decodes them.
\<close>

definition bytes_of :: "string \<Rightarrow> bytes" where
  "bytes_of s = map (\<lambda>c. word_of_nat (ord c)) s"

definition ascii :: "string \<Rightarrow> bool" where
  "ascii s \<longleftrightarrow> list_all (\<lambda>c. ord c < 128) s"

definition CMS_SALT :: bytes where
  "CMS_SALT = [77,197,101,206,190,249,93,200,51,243,93,237,71,94,239,138,68,108,70,185,225,137,
     217,16,51,122,193,48,194,195,198,175,172,169,70,84,61,62,104,186,114,52,61,168,66,129,192,
     208,187,249,232,193,41,113,41,45,240,16,29,228,208,228,61,20]"

text \<open>\<^verbatim>\<open>f"{n:08d}"\<close> for a natural number.\<close>

definition zero_pad :: "nat \<Rightarrow> nat \<Rightarrow> string" where
  "zero_pad w n = replicate (w - length (show_nat n)) CHR ''0'' @ show_nat n"

definition digest_number :: "bytes \<Rightarrow> nat" where
  "digest_number d = unat (d ! 3 AND 0x3F) * 2 ^ 24 + unat (d ! 2) * 2 ^ 16
                     + unat (d ! 1) * 2 ^ 8 + unat (d ! 0)"

definition challenge_response :: "(bytes \<Rightarrow> bytes) \<Rightarrow> string \<Rightarrow> string \<Rightarrow> string result" where
  "challenge_response md5 challenge password =
     (if \<not> ascii challenge \<or> \<not> ascii password then Inl (ValueError ''ascii codec'')
      else let d = md5 (bytes_of challenge @ bytes_of password @ CMS_SALT);
               s = zero_pad 8 (digest_number d)
           in Inr (if 8 < length s then drop (length s - 8) s else s))"

lemma length_zero_pad: "w \<le> length (zero_pad w n)"
  by (simp add: zero_pad_def)

lemma zero_pad_digits: "list_all is_digit (zero_pad w n)"
  using show_nat_digits [of n]
  by (auto simp: zero_pad_def list_all_iff in_set_replicate is_digit_def ord_def)

section \<open>The login conversation\<close>

record cms_params =
  remote_call :: string
  gateway_call :: string
  cms_password :: string
  frequency_hz :: int
  cms_mode :: int

datatype read_event = Chunk string | Eof | Timeout

fun contains :: "'a list \<Rightarrow> 'a list \<Rightarrow> bool" where
  "contains p [] = (p = [])"
| "contains p (x # xs) \<longleftrightarrow> startswith p (x # xs) \<or> contains p xs"

text \<open>The state of \<^verbatim>\<open>connect\<close>: the text not yet answered, the lines written, the flag \<^verbatim>\<open>ready\<close>.\<close>

record login =
  pending :: string
  written :: "string list"
  logged_in :: bool

definition login_init :: login where
  "login_init = \<lparr>pending = [], written = [], logged_in = False\<rparr>"

abbreviation CR :: char where "CR \<equiv> CHR 0x0D"
abbreviation LF :: char where "LF \<equiv> CHR 0x0A"

text \<open>One pass of the loop, after a chunk has been read.\<close>

definition login_chunk :: "(bytes \<Rightarrow> bytes) \<Rightarrow> cms_params \<Rightarrow> login \<Rightarrow> string \<Rightarrow> login result" where
  "login_chunk md5 p l chunk =
     (let text = pending l @ chunk;
          answer = (\<lambda>line. l\<lparr>pending := [], written := written l @ [line @ [CR]]\<rparr>) in
      if contains ''Callsign :'' text then
        Inr (answer (remote_call p @ '' '' @ gateway_call p))
      else if contains '';SQ: '' text then
        (case List.find (startswith '';SQ: '') (split_at CR (replace1 LF [CR] text)) of
           None \<Rightarrow> Inr (l\<lparr>pending := text\<rparr>)
         | Some line \<Rightarrow>
             rbind (challenge_response md5 (drop 5 line) (cms_password p)) (\<lambda>response.
             Inr ((answer ('';SR: '' @ response @ '' '' @ show_int (frequency_hz p)
                           @ '' '' @ show_int (cms_mode p)))\<lparr>logged_in := True\<rparr>)))
      else if contains ''Password :'' text then
        Inr ((answer (''CMSTELNET '' @ gateway_call p @ '' '' @ show_int (frequency_hz p)
                      @ '' '' @ show_int (cms_mode p)))\<lparr>logged_in := True\<rparr>)
      else Inr (l\<lparr>pending := text\<rparr>))"

text \<open>The result is the state after the login and what has not been read yet.\<close>

fun cms_connect :: "(bytes \<Rightarrow> bytes) \<Rightarrow> cms_params \<Rightarrow> login \<Rightarrow> read_event list \<Rightarrow>
    (login \<times> read_event list) result" where
  "cms_connect md5 p l evs =
     (if logged_in l then Inr (l, evs)
      else case evs of
        [] \<Rightarrow> Inl (TimeoutError ''read'')
      | Timeout # _ \<Rightarrow> Inl (TimeoutError ''read'')
      | Eof # _ \<Rightarrow> Inl (ConnectionError ''CMS closed during login'')
      | Chunk c # rest \<Rightarrow>
          if c = [] then Inl (ConnectionError ''CMS closed during login'')
          else rbind (login_chunk md5 p l c) (\<lambda>l'. cms_connect md5 p l' rest))"

declare cms_connect.simps [simp del]

lemma dec_val_zero_pad: "dec_val (zero_pad w n) = n"
proof -
  have "dec_val (replicate k CHR ''0'') = 0" for k
    by (induction k) (simp_all add: dec_val_def digit_val_def ord_def)
  then show ?thesis by (simp add: zero_pad_def dec_val_append)
qed

text \<open>Each pass of the login loop writes at most one line, and the pass that completes the
  login writes exactly one.\<close>

lemma login_chunk_written:
  "login_chunk md5 p l chunk = Inr l' \<Longrightarrow>
     \<exists>ls. written l' = written l @ ls \<and> length ls \<le> 1 \<and> (logged_in l' \<and> \<not> logged_in l \<longrightarrow> length ls = 1)"
  by (auto simp: login_chunk_def Let_def rbind_eq_Inr split: if_splits option.splits)

section \<open>Properties\<close>

text \<open>Secure-login answer: on ASCII input, whatever the digest, \<^verbatim>\<open>challenge_response\<close> returns
  exactly eight decimal digits, and they are the low eight of the number read from the
  digest: zero-padded when it is short, truncated on the left when it is long.\<close>

theorem challenge_response_digits:
  assumes "ascii challenge" "ascii password"
  shows "\<exists>s. challenge_response md5 challenge password = Inr s \<and> length s = 8 \<and> list_all is_digit s
       \<and> dec_nat s = Some (digest_number (md5 (bytes_of challenge @ bytes_of password @ CMS_SALT))
                          mod 10 ^ 8)"
proof -
  let ?n = "digest_number (md5 (bytes_of challenge @ bytes_of password @ CMS_SALT))"
  let ?z = "zero_pad 8 ?n"
  let ?s = "drop (length ?z - 8) ?z"
  have len: "8 \<le> length ?z" by (rule length_zero_pad)
  then have "length ?s = 8" by simp
  moreover have dig: "list_all is_digit ?s"
    using zero_pad_digits by (auto simp: list_all_iff dest: in_set_dropD)
  moreover have "dec_nat ?s = Some (?n mod 10 ^ 8)"
    using len dig dec_nat_dec_val [of ?s]
    by (simp add: dec_val_drop_mod zero_pad_digits dec_val_zero_pad)
  moreover have "challenge_response md5 challenge password = Inr ?s"
    using assms len by (simp add: challenge_response_def Let_def)
  ultimately show ?thesis by blast
qed

theorem challenge_response_digits_witness:
  "\<exists>s. challenge_response (\<lambda>_. [1, 2, 3, 4]) ''23753528'' ''secret'' = Inr s \<and> length s = 8
     \<and> list_all is_digit s
     \<and> dec_nat s = Some (digest_number ((\<lambda>_. [1, 2, 3, 4]) (bytes_of ''23753528'' @ bytes_of ''secret''
                         @ CMS_SALT)) mod 10 ^ 8)"
  by (rule challenge_response_digits) (simp_all add: ascii_def ord_def)

text \<open>The challenge is taken from whatever has arrived: when TCP cuts the challenge line,
  \<^verbatim>\<open>connect\<close> answers the part before the cut and reports success without reading the rest.\<close>

theorem login_answers_cut_challenge:
  assumes "challenge_response md5 part (cms_password p) = Inr r"
    and "CR \<notin> set part" "LF \<notin> set part" "\<not> contains ''Callsign :'' ('';SQ: '' @ part)"
  shows "cms_connect md5 p login_init (Chunk ('';SQ: '' @ part) # Chunk (rest @ [CR]) # evs) =
     Inr (\<lparr>pending = [], written = ['';SR: '' @ r @ '' '' @ show_int (frequency_hz p) @ '' ''
                     @ show_int (cms_mode p) @ [CR]],
          logged_in = True\<rparr>, Chunk (rest @ [CR]) # evs)"
proof -
  let ?t = "'';SQ: '' @ part"
  have cr: "CR \<notin> set ?t" and lf: "LF \<notin> set ?t" using assms(2,3) by simp_all
  have "split_at CR (replace1 LF [CR] ?t) = [?t]"
    unfolding replace1_id [OF lf] by (rule split_at_absent [OF cr])
  moreover have "List.find (startswith '';SQ: '') [?t] = Some ?t"
    by (simp add: startswith_def)
  moreover have "contains '';SQ: '' ?t" by (simp add: startswith_def)
  ultimately show ?thesis
    using assms(1,4)
    by (simp only: cms_connect.simps [of _ _ login_init] login_chunk_def)
       (simp add: login_init_def Let_def cms_connect.simps)
qed

definition sample_params :: cms_params where
  "sample_params = \<lparr>remote_call = ''KP4PRA'', gateway_call = ''KP4PRA'', cms_password = ''pw'',
     frequency_hz = 145050000, cms_mode = 0\<rparr>"

theorem login_answers_cut_challenge_witness:
  "cms_connect (\<lambda>_. [1, 0, 0, 0]) sample_params
     login_init (Chunk ('';SQ: '' @ ''1234'') # Chunk (''5678'' @ [CR]) # []) =
   Inr (\<lparr>pending = [],
        written = ['';SR: '' @ ''00000001'' @ '' '' @ show_int (frequency_hz sample_params) @ '' ''
                   @ show_int (cms_mode sample_params) @ [CR]],
        logged_in = True\<rparr>, Chunk (''5678'' @ [CR]) # [])"
proof (rule login_answers_cut_challenge, goal_cases)
  case 1
  have "zero_pad 8 1 = ''00000001''" by (simp add: zero_pad_def py_eval)
  then show ?case
    by (simp add: challenge_response_def ascii_def ord_def digest_number_def sample_params_def)
qed (simp_all add: startswith_def)

end
