(* ===== verification/B2f_Send.thy ===== *)
theory B2f_Send
  imports B2f Cms
begin

text \<open>
  The B2F conversation and the delivery over CMS Telnet (src/src/web/b2fsend.py). The
  conversation \<^verbatim>\<open>_run_b2f\<close> is written over a transport given by its \<open>recv\<close> and \<open>send\<close>, as in
  the code, where it is called with a \<^verbatim>\<open>CmsSession\<close> and with an \<^verbatim>\<open>AX25Stream\<close>; \<^const>\<open>None\<close> is a
  call that never returns. The locale \<open>transport\<close> states what the conversation needs of a
  transport; it is interpreted on the TCP session here and on the AX.25 stream in
  \<^theory_text>\<open>Rf_Send\<close>. MD5 and the compressor are arguments; the session log is not modelled.
\<close>

section \<open>Exceptions\<close>

definition DeliveryError :: "string \<Rightarrow> exn" where
  "DeliveryError m = AppError ''DeliveryError'' m"

text \<open>\<^verbatim>\<open>except (DeliveryError, asyncio.TimeoutError, OSError, ConnectionError)\<close>.\<close>

fun delivery_caught :: "exn \<Rightarrow> bool" where
  "delivery_caught (TimeoutError _) = True"
| "delivery_caught (ConnectionError _) = True"
| "delivery_caught (OSError _) = True"
| "delivery_caught (AppError c _) = (c = ''DeliveryError'')"
| "delivery_caught _ = False"

section \<open>Calls that may raise and may never return\<close>

type_synonym ('s, 'a) call = "'s \<Rightarrow> ('a result \<times> 's) option"

definition cret :: "'a \<Rightarrow> ('s, 'a) call" where
  "cret x s = Some (Inr x, s)"

definition cfail :: "exn \<Rightarrow> ('s, 'a) call" where
  "cfail e s = Some (Inl e, s)"

definition cbind :: "('s, 'a) call \<Rightarrow> ('a \<Rightarrow> ('s, 'b) call) \<Rightarrow> ('s, 'b) call" where
  "cbind m k s = (case m s of
     None \<Rightarrow> None
   | Some (Inl e, s1) \<Rightarrow> Some (Inl e, s1)
   | Some (Inr x, s1) \<Rightarrow> k x s1)"

text \<open>\<^verbatim>\<open>try: m  except Exception: pass\<close>.\<close>

definition cignore :: "('s, 'a) call \<Rightarrow> ('s, unit) call" where
  "cignore m s = (case m s of None \<Rightarrow> None | Some (_, s1) \<Rightarrow> Some (Inr (), s1))"

lemma cret_eq [simp]: "cret x s = Some (Inr x, s)" "cfail e s = Some (Inl e, s)"
  by (simp_all add: cret_def cfail_def)

lemma cbind_Some:
  "cbind m k s = Some (Inr y, s2) \<Longrightarrow> \<exists>x s1. m s = Some (Inr x, s1) \<and> k x s1 = Some (Inr y, s2)"
  by (auto simp: cbind_def split: option.splits prod.splits sum.splits)

section \<open>The conversation\<close>

text \<open>\<^verbatim>\<open>bytes.strip()\<close>, \<^verbatim>\<open>bytes.upper()\<close> and the latin-1 decoding.\<close>

definition byte_space :: "byte \<Rightarrow> bool" where
  "byte_space b \<longleftrightarrow> (9 \<le> unat b \<and> unat b \<le> 13) \<or> unat b = 32"

definition bstrip :: "bytes \<Rightarrow> bytes" where
  "bstrip s = rev (dropWhile byte_space (rev (dropWhile byte_space s)))"

definition bupper :: "bytes \<Rightarrow> bytes" where
  "bupper s = map (\<lambda>b. if 97 \<le> unat b \<and> unat b \<le> 122 then b - 32 else b) s"

definition latin1 :: "bytes \<Rightarrow> string" where
  "latin1 bs = map (\<lambda>b. chr (unat b)) bs"

function read_until :: "(nat \<Rightarrow> ('s, bytes) call) \<Rightarrow> bytes \<Rightarrow> nat \<Rightarrow> bytes \<Rightarrow> ('s, bytes) call" where
  "read_until recv needle cap acc s =
     (if contains needle acc \<or> cap \<le> length acc then Some (Inr acc, s)
      else case recv 512 s of
        None \<Rightarrow> None
      | Some (Inl e, s1) \<Rightarrow> Some (Inl e, s1)
      | Some (Inr chunk, s1) \<Rightarrow>
          if chunk = [] then Some (Inl (DeliveryError ''CMS closed the connection''), s1)
          else read_until recv needle cap (acc @ chunk) s1)"
  by pat_completeness auto
termination
  by (relation "measure (\<lambda>(recv, needle, cap, acc, s). cap - length acc)")
     (auto simp: not_le intro!: diff_less_mono2)

declare read_until.simps [simp del]

abbreviation read_to :: "(nat \<Rightarrow> ('s, bytes) call) \<Rightarrow> bytes \<Rightarrow> ('s, bytes) call" where
  "read_to recv needle \<equiv> read_until recv needle 8192 []"

record b2f_result =
  b_fs :: "string option"
  b_accepted :: "bool option"
  b_delivered :: bool
  b_sid :: "sid_info option"

definition scan_banner :: "bytes \<Rightarrow> sid_info option \<times> string option" where
  "scan_banner banner =
     foldl (\<lambda>(sid, pq) line0.
        let line = bstrip line0 in
        if startswith [0x5B] line \<and> 0x5D \<in> set line then (Some (parse_sid (latin1 line)), pq)
        else if startswith (bytes_of '';PQ:'') line then (sid, Some (strip (drop 4 (latin1 line))))
        else (sid, pq))
      (None, None) (split_at 0x0D banner)"

definition find_fs :: "bytes \<Rightarrow> string" where
  "find_fs fs_buf =
     (case List.find (\<lambda>line. startswith (bytes_of ''FS'') (bupper (bstrip line))) (split_at 0x0D fs_buf) of
        None \<Rightarrow> []
      | Some line \<Rightarrow> latin1 (bstrip line))"

text \<open>The burst after the banner: our SID, the answer to a ;PQ: challenge, the proposals.\<close>

definition opening_text ::
    "(bytes \<Rightarrow> bytes) \<Rightarrow> string \<Rightarrow> string option \<Rightarrow> string \<Rightarrow> proposals \<Rightarrow> string result" where
  "opening_text md5 our_sid pq password prop =
     (case pq of
        None \<Rightarrow> Inr (our_sid @ [CR] @ pr_text prop)
      | Some ch \<Rightarrow>
          if ch = [] then Inr (our_sid @ [CR] @ pr_text prop)
          else rbind (challenge_response md5 ch password) (\<lambda>response.
               Inr (our_sid @ [CR] @ '';PR: '' @ response @ [CR] @ pr_text prop)))"

definition lift_result :: "'a result \<Rightarrow> ('s, 'a) call" where
  "lift_result r s = Some (r, s)"

definition FQ :: bytes where
  "FQ = bytes_of ''FQ'' @ [0x0D]"

definition run_b2f ::
    "(nat \<Rightarrow> ('s, bytes) call) \<Rightarrow> (bytes \<Rightarrow> ('s, unit) call) \<Rightarrow> (bytes \<Rightarrow> bytes) \<Rightarrow>
     winlink_msg \<Rightarrow> bytes \<Rightarrow> bool \<Rightarrow> string \<Rightarrow> string \<Rightarrow> sid_cfg option \<Rightarrow> ('s, b2f_result) call" where
  "run_b2f recv send md5 msg compressed send_body version password cfg =
     cbind (read_to recv [0x3E]) (\<lambda>banner.
     case scan_banner banner of (sid, pq) \<Rightarrow>
     cbind (lift_result (build_proposals [(msg, length compressed)])) (\<lambda>prop.
     cbind (lift_result (opening_text md5 (client_sid version cfg) pq password prop)) (\<lambda>burst.
     cbind (lift_result (encode_ascii burst)) (\<lambda>b.
     cbind (send b) (\<lambda>_.
     cbind (read_to recv [0x0D]) (\<lambda>fs_buf.
     let fs_line = find_fs fs_buf;
         accepted = (take 1 (parse_fs fs_line) = [Send_it]);
         result = \<lparr>b_fs = Some fs_line, b_accepted = Some accepted, b_delivered = False, b_sid = sid\<rparr>
     in if \<not> send_body \<or> \<not> accepted then cbind (cignore (send FQ)) (\<lambda>_. cret result)
        else cbind (send (fr_bytes (frame_binary (w_subject msg) compressed))) (\<lambda>_.
             cbind (read_to recv [0x46]) (\<lambda>tail.
             cbind (cignore (send FQ)) (\<lambda>_.
             cret (result\<lparr>b_delivered := True\<rparr>))))))))))"

section \<open>The interface of a transport\<close>

lemma read_until_keeps:
  "read_until recv needle cap acc s = Some (r, s') \<Longrightarrow>
   (\<And>n s r s'. recv n s = Some (r, s') \<Longrightarrow> h s' = h s) \<Longrightarrow> h s' = (h s :: 'h)"
proof (induction recv needle cap acc s arbitrary: r s' rule: read_until.induct)
  case (1 recv needle cap acc s)
  show ?case
  proof (cases "contains needle acc \<or> cap \<le> length acc")
    case True
    with "1.prems" show ?thesis by (simp add: read_until.simps [of recv])
  next
    case False
    show ?thesis
    proof (cases "recv 512 s")
      case None
      with "1.prems"(1) False show ?thesis by (simp add: read_until.simps [of recv])
    next
      case (Some p)
      obtain x s1 where p: "p = (x, s1)" by fastforce
      have h1: "h s1 = h s" using "1.prems"(2) Some p by blast
      show ?thesis
      proof (cases x)
        case (Inl e)
        with "1.prems"(1) False Some p h1 show ?thesis by (simp add: read_until.simps [of recv])
      next
        case (Inr chunk)
        show ?thesis
        proof (cases "chunk = []")
          case True
          with "1.prems"(1) False Some p Inr h1 show ?thesis by (simp add: read_until.simps [of recv])
        next
          case ne: False
          have "read_until recv needle cap (acc @ chunk) s1 = Some (r, s')"
            using "1.prems"(1) False Some p Inr ne by (simp add: read_until.simps [of recv needle cap acc s])
          from "1.IH" [OF False Some p [symmetric] Inr ne this] "1.prems"(2) h1 show ?thesis by simp
        qed
      qed
    qed
  qed
qed

text \<open>\<open>handed\<close> is what has been handed over for transmission: reading does not change it, and a
  send that returns has appended its argument.\<close>

locale transport =
  fixes recv :: "nat \<Rightarrow> ('s, bytes) call"
    and send :: "bytes \<Rightarrow> ('s, unit) call"
    and handed :: "'s \<Rightarrow> bytes"
  assumes recv_handed: "recv n s = Some (r, s') \<Longrightarrow> handed s' = handed s"
    and send_handed: "send d s = Some (Inr u, s') \<Longrightarrow> handed s' = handed s @ d"
    and send_failed: "send d s = Some (Inl e, s') \<Longrightarrow> handed s' = handed s \<or> handed s' = handed s @ d"
begin

lemma read_handed: "read_to recv needle s = Some (r, s') \<Longrightarrow> handed s' = handed s"
  by (erule read_until_keeps) (erule recv_handed)

lemma ignore_send:
  "cignore (send d) s = Some (x, s') \<Longrightarrow> handed s' = handed s \<or> handed s' = handed s @ d"
proof (cases "send d s")
  case (Some p)
  then show "cignore (send d) s = Some (x, s') \<Longrightarrow> ?thesis"
    using send_handed [of d s] send_failed [of d s]
    by (cases p; cases "fst p") (auto simp: cignore_def)
qed (simp add: cignore_def)

text \<open>What has been handed over when the conversation returns: the opening burst, then the framed
  message exactly when the result says delivered, then the FQ (unless sending it failed).\<close>

lemma conversation:
  assumes "run_b2f recv send md5 msg compressed send_body version password cfg s = Some (Inr res, s')"
  shows "\<exists>burst prop quit. build_proposals [(msg, length compressed)] = Inr prop
     \<and> (\<exists>pq. opening_text md5 (client_sid version cfg) pq password prop = Inr burst)
     \<and> quit \<in> {[], FQ}
     \<and> handed s' = handed s @ map (\<lambda>c. word_of_nat (ord c)) burst
         @ (if b_delivered res then fr_bytes (frame_binary (w_subject msg) compressed) else []) @ quit
     \<and> (b_delivered res \<longrightarrow> send_body \<and> b_accepted res = Some True)
     \<and> (b_accepted res = Some True \<longrightarrow> (\<exists>fs. b_fs res = Some fs \<and> take 1 (parse_fs fs) = [Send_it]))"
proof -
  let ?body = "fr_bytes (frame_binary (w_subject msg) compressed)"
  obtain banner s1 sid pq where s1: "read_to recv [0x3E] s = Some (Inr banner, s1)"
    and scan: "scan_banner banner = (sid, pq)"
    using assms by (auto simp: run_b2f_def dest!: cbind_Some split: prod.splits)
  obtain pr where pr: "build_proposals [(msg, length compressed)] = Inr pr"
    using assms s1 scan
    by (cases "build_proposals [(msg, length compressed)]")
       (auto simp: run_b2f_def lift_result_def cbind_def)
  obtain burst where burst: "opening_text md5 (client_sid version cfg) pq password pr = Inr burst"
    using assms s1 scan pr
    by (cases "opening_text md5 (client_sid version cfg) pq password pr")
       (auto simp: run_b2f_def lift_result_def cbind_def)
  obtain b where b: "encode_ascii burst = Inr b"
    using assms s1 scan pr burst
    by (cases "encode_ascii burst") (auto simp: run_b2f_def lift_result_def cbind_def)
  have enc: "b = map (\<lambda>c. word_of_nat (ord c)) burst"
    using b by (simp add: encode_ascii_def split: if_splits)
  note known = s1 scan pr burst b
  have rest: "cbind (send b) (\<lambda>_. cbind (read_to recv [0x0D]) (\<lambda>fs_buf.
     let fs_line = find_fs fs_buf;
         accepted = (take 1 (parse_fs fs_line) = [Send_it]);
         result = \<lparr>b_fs = Some fs_line, b_accepted = Some accepted, b_delivered = False, b_sid = sid\<rparr>
     in if \<not> send_body \<or> \<not> accepted then cbind (cignore (send FQ)) (\<lambda>_. cret result)
        else cbind (send ?body) (\<lambda>_. cbind (read_to recv [0x46]) (\<lambda>tail.
             cbind (cignore (send FQ)) (\<lambda>_. cret (result\<lparr>b_delivered := True\<rparr>)))))) s1
     = Some (Inr res, s')"
    using assms known by (simp add: run_b2f_def lift_result_def cbind_def)
  obtain u s2 where s2: "send b s1 = Some (Inr u, s2)"
    using cbind_Some [OF rest] by blast
  obtain fs_buf s3 where s3: "read_to recv [0x0D] s2 = Some (Inr fs_buf, s3)"
    using rest s2 by (auto simp: cbind_def split: option.splits prod.splits sum.splits)
  define acc where "acc \<longleftrightarrow> take 1 (parse_fs (find_fs fs_buf)) = [Send_it]"
  define result where "result = \<lparr>b_fs = Some (find_fs fs_buf), b_accepted = Some acc,
      b_delivered = False, b_sid = sid\<rparr>"
  have h3: "handed s3 = handed s @ b"
    using read_handed [OF s1] send_handed [OF s2] read_handed [OF s3] by simp
  show ?thesis
  proof (cases "\<not> send_body \<or> \<not> acc")
    case True
    then have "cbind (cignore (send FQ)) (\<lambda>_. cret result) s3 = Some (Inr res, s')"
      using rest s2 s3 unfolding acc_def result_def by (simp add: cbind_def Let_def)
    then obtain x where q: "cignore (send FQ) s3 = Some (x, s')" and "res = result"
      by (auto simp: cbind_def split: option.splits prod.splits sum.splits)
    then show ?thesis
      using pr burst ignore_send [OF q] h3 enc True
      by (auto simp: result_def acc_def)
  next
    case False
    then have "cbind (send ?body) (\<lambda>_. cbind (read_to recv [0x46]) (\<lambda>tail.
             cbind (cignore (send FQ)) (\<lambda>_. cret (result\<lparr>b_delivered := True\<rparr>)))) s3 = Some (Inr res, s')"
      using rest s2 s3 unfolding acc_def result_def by (simp add: cbind_def Let_def)
    then obtain v s4 tail s5 x where "send ?body s3 = Some (Inr v, s4)"
        "read_to recv [0x46] s4 = Some (Inr tail, s5)" and q: "cignore (send FQ) s5 = Some (x, s')"
        and "res = result\<lparr>b_delivered := True\<rparr>"
      by (auto simp: cbind_def split: option.splits prod.splits sum.splits)
    moreover have "handed s5 = handed s @ b @ ?body"
      using calculation h3 by (auto dest!: send_handed read_handed)
    ultimately show ?thesis
      using pr burst ignore_send [OF q] enc False
      by (auto simp: result_def acc_def)
  qed
qed

end

section \<open>The TCP session\<close>

text \<open>What is still to be read, what has been written, and the exception every further write
  raises, if any.\<close>

record tcp =
  t_in :: "read_event list"
  t_out :: bytes
  t_broken :: "exn option"

fun tcp_recv :: "nat \<Rightarrow> (tcp, bytes) call" where
  "tcp_recv n s =
     (case t_in s of
        [] \<Rightarrow> Some (Inl (TimeoutError ''read''), s)
      | Timeout # evs \<Rightarrow> Some (Inl (TimeoutError ''read''), s\<lparr>t_in := evs\<rparr>)
      | Eof # evs \<Rightarrow> Some (Inr [], s)
      | Chunk c # evs \<Rightarrow>
          if length c \<le> n then Some (Inr (bytes_of c), s\<lparr>t_in := evs\<rparr>)
          else Some (Inr (bytes_of (take n c)), s\<lparr>t_in := Chunk (drop n c) # evs\<rparr>))"

definition tcp_send :: "bytes \<Rightarrow> (tcp, unit) call" where
  "tcp_send d s =
     (case t_broken s of
        Some e \<Rightarrow> Some (Inl e, s)
      | None \<Rightarrow> Some (Inr (), s\<lparr>t_out := t_out s @ d\<rparr>))"

interpretation tcpt: transport tcp_recv tcp_send t_out
proof (unfold_locales, goal_cases)
  case (1 n s r s')
  then show ?case by (auto split: list.splits read_event.splits if_splits)
qed (auto simp: tcp_send_def split: option.splits)

section \<open>Delivery\<close>

record web_cfg =
  wc_callsign :: string
  wc_cms_call :: string
  wc_password :: string
  wc_frequency :: int
  wc_mode :: string
  wc_dry_run :: bool
  wc_sid :: "sid_cfg option"

definition MODE_CODES :: "string \<Rightarrow> int" where
  "MODE_CODES m = (if m = ''PACKET-9600'' then 3 else 0)"

text \<open>\<^verbatim>\<open>_identities\<close>: the pair for a name, if the name is known.\<close>

definition identities :: "web_cfg \<Rightarrow> string \<Rightarrow> (string \<times> string) option" where
  "identities cfg name =
     (let station = base_callsign (wc_callsign cfg);
          gateway = upper (if wc_cms_call cfg = [] then station else wc_cms_call cfg)
      in if name = ''station'' then Some (station, station)
         else if name = ''gateway'' then Some (station, gateway)
         else None)"

definition make_session :: "web_cfg \<Rightarrow> string \<Rightarrow> string \<Rightarrow> cms_params" where
  "make_session cfg remote gateway_c =
     \<lparr>remote_call = upper remote, gateway_call = upper gateway_c, cms_password = wc_password cfg,
      frequency_hz = wc_frequency cfg, cms_mode = MODE_CODES (wc_mode cfg)\<rparr>"

text \<open>What the outside world contributes to one delivery: the clock, the random identifier, the
  exception of opening the socket if any, what the socket reads, and whether writes fail.\<close>

record send_env =
  en_now :: nat
  en_mid :: string
  en_open :: "exn option"
  en_reads :: "read_event list"
  en_broken :: "exn option"

record send_result =
  sr_ok :: bool
  sr_error :: "exn option"
  sr_b2f :: "b2f_result option"

definition cms_open ::
    "(bytes \<Rightarrow> bytes) \<Rightarrow> send_env \<Rightarrow> cms_params \<Rightarrow> tcp result" where
  "cms_open md5 env p =
     (case en_open env of
        Some e \<Rightarrow> Inl e
      | None \<Rightarrow> rbind (cms_connect md5 p login_init (en_reads env)) (\<lambda>(l, rest).
          Inr \<lparr>t_in = rest, t_out = bytes_of (concat (written l)), t_broken = en_broken env\<rparr>))"

definition conversation_result ::
    "(bytes \<Rightarrow> bytes) \<Rightarrow> (bytes \<Rightarrow> bytes) \<Rightarrow> web_cfg \<Rightarrow> send_env \<Rightarrow> winlink_msg \<Rightarrow> string \<Rightarrow> string \<Rightarrow> bool \<Rightarrow>
     string \<Rightarrow> b2f_result result" where
  "conversation_result md5 compress cfg env msg remote gateway_c send_body version =
     rbind (cms_open md5 env (make_session cfg remote gateway_c)) (\<lambda>t.
       case run_b2f tcp_recv tcp_send md5 msg (compress (utf8 (w_text msg))) send_body version
              (wc_password cfg) (wc_sid cfg) t of
         None \<Rightarrow> Inl (TimeoutError ''wait_for'')
       | Some (r, t') \<Rightarrow> r)"

definition connect_and_run ::
    "(bytes \<Rightarrow> bytes) \<Rightarrow> (bytes \<Rightarrow> bytes) \<Rightarrow> web_cfg \<Rightarrow> send_env \<Rightarrow> mail \<Rightarrow> string \<Rightarrow> string \<Rightarrow> bool \<Rightarrow>
     string \<Rightarrow> send_result result" where
  "connect_and_run md5 compress cfg env rec remote gateway_c send_body version =
     rbind (build_message (wc_callsign cfg) (en_now env) (en_mid env) rec) (\<lambda>msg.
       case conversation_result md5 compress cfg env msg remote gateway_c send_body version of
         Inl e \<Rightarrow> if delivery_caught e then Inr \<lparr>sr_ok = False, sr_error = Some e, sr_b2f = None\<rparr>
                  else Inl e
       | Inr r \<Rightarrow> Inr \<lparr>sr_ok = True, sr_error = None, sr_b2f = Some r\<rparr>)"

definition cms_probe ::
    "(bytes \<Rightarrow> bytes) \<Rightarrow> (bytes \<Rightarrow> bytes) \<Rightarrow> web_cfg \<Rightarrow> send_env \<Rightarrow> mail \<Rightarrow> string \<Rightarrow> string \<Rightarrow>
     send_result result" where
  "cms_probe md5 compress cfg env rec identity version =
     (if wc_dry_run cfg then Inl (DeliveryError ''dry_run is enabled'')
      else case identities cfg identity of
        None \<Rightarrow> Inl (DeliveryError ''unknown identity'')
      | Some (remote, gateway_c) \<Rightarrow>
          connect_and_run md5 compress cfg env rec remote gateway_c False version)"

text \<open>\<^verbatim>\<open>"%s: %s" % (type(e).__name__, e)\<close>.\<close>

fun exn_text :: "exn \<Rightarrow> string" where
  "exn_text (ValueError m) = ''ValueError: '' @ m"
| "exn_text IndexError = ''IndexError: index out of range''"
| "exn_text (TypeError m) = ''TypeError: '' @ m"
| "exn_text (ConnectionError m) = ''ConnectionError: '' @ m"
| "exn_text (TimeoutError m) = ''TimeoutError: ''"
| "exn_text OverflowError = ''OverflowError: ''"
| "exn_text (OSError m) = ''OSError: '' @ m"
| "exn_text (AppError c m) = c @ '': '' @ m"

definition failure_text :: "send_result \<Rightarrow> string" where
  "failure_text res =
     (case sr_error res of
        Some e \<Rightarrow> exn_text e
      | None \<Rightarrow> ''CMS did not accept (FS='' @
          (case sr_b2f res of Some b \<Rightarrow> (case b_fs b of Some fs \<Rightarrow> fs | None \<Rightarrow> ''None'') | None \<Rightarrow> ''None'')
          @ '')'')"

text \<open>The delivery: the final status, and the queue with the status of the message.\<close>

definition delivered_ok :: "send_result \<Rightarrow> bool" where
  "delivered_ok res \<longleftrightarrow> sr_ok res \<and> (\<exists>b. sr_b2f res = Some b \<and> b_delivered b)"

definition cms_send_mail ::
    "(bytes \<Rightarrow> bytes) \<Rightarrow> (bytes \<Rightarrow> bytes) \<Rightarrow> web_cfg \<Rightarrow> send_env \<Rightarrow> mail \<Rightarrow> string \<Rightarrow> string \<Rightarrow>
     mail_store \<Rightarrow> string result \<times> mail_store" where
  "cms_send_mail md5 compress cfg env rec identity version q =
     (if wc_dry_run cfg then (Inl (DeliveryError ''dry_run is enabled''), q)
      else if m_status rec = ''Sent'' then
        (Inl (DeliveryError ''message already Sent (duplicate-send guard)''), q)
      else
        let (remote, gateway_c) =
              (case identities cfg identity of
                 Some p \<Rightarrow> p
               | None \<Rightarrow> (base_callsign (wc_callsign cfg), base_callsign (wc_callsign cfg)));
            route = no_fields\<lparr>up_route := Some (Some (''cms:'' @ identity))\<rparr>
        in case set_status (m_id rec) ''Sending'' route q of
             Inl e \<Rightarrow> (Inl e, q)
           | Inr (_, q1) \<Rightarrow>
               (case connect_and_run md5 compress cfg env rec remote gateway_c True version of
                  Inl e \<Rightarrow> (Inl e, q1)
                | Inr res \<Rightarrow>
                    let final = (if delivered_ok res then ''Sent'' else ''Failed'');
                        extra = (if delivered_ok res then route\<lparr>up_error := Some None\<rparr>
                                 else no_fields\<lparr>up_error := Some (Some (failure_text res))\<rparr>)
                    in (case set_status (m_id rec) final extra q1 of
                          Inl e \<Rightarrow> (Inl e, q1)
                        | Inr (_, q2) \<Rightarrow> (Inr final, q2))))"

section \<open>Facts about the queue\<close>

lemma get_mail_store: "safe_id mid \<Longrightarrow> get_mail k (store mid r q) = (if k = mid then Some r else get_mail k q)"
  by (simp add: get_mail_def)

lemma set_status_result:
  assumes "get_mail mid q = Some r" "s \<in> set STATES"
  shows "set_status mid s f q = Inr (Some (merge_fields (f\<lparr>up_status := Some s\<rparr>) r),
           store mid (merge_fields (f\<lparr>up_status := Some s\<rparr>) r) q)"
proof -
  have "safe_id mid" using assms(1) by (simp add: get_mail_def split: if_splits)
  with assms show ?thesis
    by (simp add: set_status_def update_mail_def mail_path_def Let_def)
qed

lemma merge_status [simp]: "m_status (merge_fields (f\<lparr>up_status := Some s\<rparr>) r) = s"
  by (simp add: merge_fields_def)

definition cms_route :: "web_cfg \<Rightarrow> string \<Rightarrow> string \<times> string" where
  "cms_route cfg identity =
     (case identities cfg identity of
        Some p \<Rightarrow> p
      | None \<Rightarrow> (base_callsign (wc_callsign cfg), base_callsign (wc_callsign cfg)))"

lemma cms_send_mail_status:
  assumes "get_mail (m_id rec) q = Some r0" "\<not> wc_dry_run cfg" "m_status rec \<noteq> ''Sent''"
    and run: "connect_and_run md5 compress cfg env rec (fst (cms_route cfg identity))
               (snd (cms_route cfg identity)) True version = res"
    and out: "cms_send_mail md5 compress cfg env rec identity version q = (x, q')"
  shows "(\<exists>r'. get_mail (m_id rec) q' = Some r'
            \<and> (case res of
                 Inl e \<Rightarrow> x = Inl e \<and> m_status r' = ''Sending''
               | Inr y \<Rightarrow> x = Inr (m_status r') \<and>
                   m_status r' = (if delivered_ok y then ''Sent'' else ''Failed'')))
     \<and> (\<forall>k. k \<noteq> m_id rec \<longrightarrow> get_mail k q' = get_mail k q)"
proof -
  have id: "safe_id (m_id rec)" using assms(1) by (simp add: get_mail_def split: if_splits)
  have st: "''Sending'' \<in> set STATES" "''Sent'' \<in> set STATES" "''Failed'' \<in> set STATES"
    by (simp_all add: STATES_def)
  obtain a b where ab: "cms_route cfg identity = (a, b)" by fastforce
  let ?route = "no_fields\<lparr>up_route := Some (Some (''cms:'' @ identity))\<rparr>"
  let ?r1 = "merge_fields (?route\<lparr>up_status := Some ''Sending''\<rparr>) r0"
  let ?q1 = "store (m_id rec) ?r1 q"
  note s1 = set_status_result [OF assms(1) st(1), of ?route]
  have g1: "get_mail (m_id rec) ?q1 = Some ?r1" using id by (simp add: get_mail_store)
  note s2 = set_status_result [OF g1]
  have "cms_send_mail md5 compress cfg env rec identity version q =
     (case res of
        Inl e \<Rightarrow> (Inl e, ?q1)
      | Inr y \<Rightarrow> (let final = (if delivered_ok y then ''Sent'' else ''Failed'');
                     extra = (if delivered_ok y then ?route\<lparr>up_error := Some None\<rparr>
                              else no_fields\<lparr>up_error := Some (Some (failure_text y))\<rparr>);
                     r2 = merge_fields (extra\<lparr>up_status := Some final\<rparr>) ?r1
                 in (Inr final, store (m_id rec) r2 ?q1)))"
    using assms(2,3) run ab s1 s2 [OF st(2)] s2 [OF st(3)]
    by (cases res) (simp_all add: cms_send_mail_def cms_route_def Let_def)
  with out show ?thesis
    using id by (cases res) (auto simp: get_mail_store Let_def)
qed

section \<open>A conversation in full\<close>

lemma contains_single: "contains [x] xs \<longleftrightarrow> x \<in> set xs"
  by (induction xs) (auto simp: startswith_def)

lemma read_to_first:
  assumes "t_in s = Chunk c # evs" "c \<noteq> []" "length c \<le> 512" "contains needle (bytes_of c)" "needle \<noteq> []"
  shows "read_to tcp_recv needle s = Some (Inr (bytes_of c), s\<lparr>t_in := evs\<rparr>)"
proof -
  have ne: "bytes_of c \<noteq> []" using assms(2) by (simp add: bytes_of_def)
  have "\<not> contains needle []" using assms(5) by simp
  moreover have "tcp_recv 512 s = Some (Inr (bytes_of c), s\<lparr>t_in := evs\<rparr>)" using assms by simp
  ultimately have "read_to tcp_recv needle s
      = read_until tcp_recv needle 8192 (bytes_of c) (s\<lparr>t_in := evs\<rparr>)"
    using ne by (subst read_until.simps) (simp del: tcp_recv.simps)
  also have "\<dots> = Some (Inr (bytes_of c), s\<lparr>t_in := evs\<rparr>)"
    using assms(4) by (subst read_until.simps) simp
  finally show ?thesis .
qed

definition fs_yes :: string where
  "fs_yes = ''FS Y'' @ [CR]"

lemma fs_yes_accepts:
  "find_fs (bytes_of fs_yes) = ''FS Y''" "parse_fs ''FS Y'' = [Send_it]"
  "contains [0x0D] (bytes_of fs_yes)" "scan_banner (bytes_of ''>'') = (None, None)"
proof -
  have "split_at 0x0D (bytes_of fs_yes) = [bytes_of ''FS Y'', []]"
    by (simp add: bytes_of_def fs_yes_def ord_def)
  moreover have "bstrip (bytes_of ''FS Y'') = bytes_of ''FS Y''"
    by (simp add: bstrip_def bytes_of_def byte_space_def ord_def)
  moreover have "startswith (bytes_of ''FS'') (bupper (bytes_of ''FS Y''))"
    by (simp add: startswith_def bytes_of_def bupper_def ord_def)
  moreover have "latin1 (bytes_of ''FS Y'') = ''FS Y''"
    by (simp add: latin1_def bytes_of_def ord_def chr_def char_of_def bit_0)
  ultimately show "find_fs (bytes_of fs_yes) = ''FS Y''" by (simp add: find_fs_def)
  have "strip ''FS Y'' = ''FS Y''" "strip ''Y'' = ''Y''" "strip '' Y'' = ''Y''"
    by (simp_all add: strip_def lstrip_def rstrip_def is_space_def ord_def)
  then show "parse_fs ''FS Y'' = [Send_it]"
    by (simp add: parse_fs_def startswith_def upper_char_def is_lower_def ord_def disposition_of_def)
  show "contains [0x0D] (bytes_of fs_yes)"
    by (simp add: bytes_of_def fs_yes_def ord_def startswith_def)
  show "scan_banner (bytes_of ''>'') = (None, None)"
    by (simp add: scan_banner_def bytes_of_def ord_def bstrip_def byte_space_def startswith_def)
qed

lemma conversation_script:
  assumes "build_proposals [(msg, length compressed)] = Inr pr"
    and "encode_ascii (client_sid version cfg @ [CR] @ pr_text pr) = Inr b"
    and "CHR ''F'' \<in> set reply" "length reply \<le> 512"
    and "s = \<lparr>t_in = [Chunk ''>'', Chunk fs_yes, Chunk reply], t_out = [], t_broken = None\<rparr>"
  shows "run_b2f tcp_recv tcp_send md5 msg compressed True version password cfg s =
    Some (Inr \<lparr>b_fs = Some ''FS Y'', b_accepted = Some True, b_delivered = True, b_sid = None\<rparr>,
      \<lparr>t_in = [], t_out = b @ fr_bytes (frame_binary (w_subject msg) compressed) @ FQ, t_broken = None\<rparr>)"
proof -
  have gt: "contains [0x3E] (bytes_of ''>'')" by (simp add: bytes_of_def ord_def startswith_def)
  have f: "contains [0x46] (bytes_of reply)"
    using assms(3) by (force simp: contains_single bytes_of_def ord_def)
  have ne: "reply \<noteq> []" using assms(3) by auto
  note r1 = read_to_first [OF _ _ _ gt] and r2 = read_to_first [OF _ _ _ fs_yes_accepts(3)]
    and r3 = read_to_first [OF _ ne assms(4) f]
  have y: "fs_yes \<noteq> []" "length fs_yes \<le> 512" by (simp_all add: fs_yes_def)
  show ?thesis
    unfolding run_b2f_def
    by (simp add: cbind_def assms(5) r1 fs_yes_accepts lift_result_def assms(1) opening_text_def
        assms(2) [simplified] tcp_send_def r2 y Let_def r3 cignore_def)
qed

definition sample_cfg :: web_cfg where
  "sample_cfg = \<lparr>wc_callsign = ''kp4pra-10'', wc_cms_call = ''KP4PRA-10'', wc_password = ''pw'',
     wc_frequency = 0, wc_mode = ''PACKET-1200'', wc_dry_run = False, wc_sid = None\<rparr>"

text \<open>The server refuses the connection.\<close>

definition refused_env :: send_env where
  "refused_env = \<lparr>en_now = 0, en_mid = ''ABCDEFGHIJKL'', en_open = Some (OSError ''refused''),
     en_reads = [], en_broken = None\<rparr>"

lemma sample_in_queue:
  "get_mail (m_id sample_mail) [(m_id sample_mail, sample_mail)] = Some sample_mail"
  by (simp add: get_mail_def safe_id_def id_shape_def sample_mail_def is_hex_lower_def is_digit_def ord_def)

section \<open>Properties\<close>




text \<open>A message that cannot be built is stuck: with no station callsign configured, the delivery
  raises after the status has been set, so the message stays in state Sending.\<close>

theorem unbuildable_message_stuck:
  assumes "get_mail (m_id rec) q = Some r0" "\<not> wc_dry_run cfg" "m_status rec \<noteq> ''Sent''"
    and "base_callsign (wc_callsign cfg) \<in> {[], ''N0CALL''}"
  shows "\<exists>e r' q'. cms_send_mail md5 compress cfg env rec identity version q = (Inl e, q')
     \<and> get_mail (m_id rec) q' = Some r' \<and> m_status r' = ''Sending''"
proof -
  obtain x q' where out: "cms_send_mail md5 compress cfg env rec identity version q = (x, q')"
    by fastforce
  have "connect_and_run md5 compress cfg env rec (fst (cms_route cfg identity))
          (snd (cms_route cfg identity)) True version
        = Inl (BuildError ''station callsign not configured'')"
    using assms(4) by (auto simp: connect_and_run_def build_message_def station_from_address_def)
  from cms_send_mail_status [OF assms(1-3) this out] out show ?thesis by auto
qed


theorem unbuildable_message_stuck_witness:
  "\<exists>e r' q'. cms_send_mail (\<lambda>_. []) (\<lambda>d. d) (sample_cfg\<lparr>wc_callsign := []\<rparr>) refused_env sample_mail ''station''
       ''1.0'' [(m_id sample_mail, sample_mail)] = (Inl e, q')
     \<and> get_mail (m_id sample_mail) q' = Some r' \<and> m_status r' = ''Sending''"
  by (rule unbuildable_message_stuck [OF sample_in_queue])
     (simp_all add: sample_cfg_def sample_mail_def base_callsign_def)

text \<open>Delivery is confirmed by a single letter: once the framed message has been written, any
  answer of the server that contains the byte F, an error message included, makes the
  conversation end with delivered.\<close>

theorem any_F_confirms:
  assumes "build_proposals [(msg, length compressed)] = Inr pr"
    and "encode_ascii (client_sid version cfg @ [CR] @ pr_text pr) = Inr b"
    and "CHR ''F'' \<in> set reply" "length reply \<le> 512"
  shows "\<exists>res s'. run_b2f tcp_recv tcp_send md5 msg compressed True version password cfg
       \<lparr>t_in = [Chunk ''>'', Chunk fs_yes, Chunk reply], t_out = [], t_broken = None\<rparr> = Some (Inr res, s')
     \<and> b_delivered res"
  using conversation_script [OF assms refl] by auto

theorem any_F_confirms_witness:
  "\<exists>res s'. run_b2f tcp_recv tcp_send (\<lambda>_. []) sample_msg [0x41] True ''1.0'' [] None
       \<lparr>t_in = [Chunk ''>'', Chunk fs_yes, Chunk ''*** Failure: message refused''], t_out = [],
        t_broken = None\<rparr> = Some (Inr res, s') \<and> b_delivered res"
proof -
  obtain pr b where "build_proposals [(sample_msg, length [0x41 :: byte])] = Inr pr"
      "encode_ascii (client_sid ''1.0'' None @ [CR] @ pr_text pr) = Inr b"
    using sample_burst by auto
  then show ?thesis by (rule any_F_confirms) simp_all
qed

end
