(* ===== verification/Rf_Send.thy ===== *)
theory Rf_Send
  imports Rf_Stream B2f_Send
begin

text \<open>
  Delivery of a message over RF (\<^verbatim>\<open>send\<close> and \<^verbatim>\<open>probe\<close> of src/src/web/rfsend.py): the checks
  before the radio is keyed, the interlock with the RMS listener (stopped for the duration,
  restarted in the \<^verbatim>\<open>finally\<close> block), and the B2F conversation over the AX.25 stream. The
  systemd commands issued are recorded in order. \<^const>\<open>None\<close> is a delivery that never returns.
\<close>

section \<open>The stream as a transport\<close>

text \<open>The state is the stream and what has been handed to \<^verbatim>\<open>send\<close>.\<close>

definition rfw_recv :: "rf_link \<Rightarrow> nat \<Rightarrow> (rf_stream \<times> bytes, bytes) call" where
  "rfw_recv l n p = (case p of (s, h) \<Rightarrow>
     (case rf_recv l n s of (r, s') \<Rightarrow> Some (r, (s', h))))"

definition rfw_send :: "rf_link \<Rightarrow> bytes \<Rightarrow> (rf_stream \<times> bytes, unit) call" where
  "rfw_send l d p = (case p of (s, h) \<Rightarrow>
     (case rf_send l d s of None \<Rightarrow> None | Some (r, s') \<Rightarrow> Some (r, (s', h @ d))))"

interpretation rft: transport "rfw_recv l" "rfw_send l" snd for l
  by unfold_locales (auto simp: rfw_recv_def rfw_send_def split: prod.splits option.splits)

section \<open>Configuration and environment\<close>

record rf_cfg =
  rc_remote :: string
  rc_mycall :: string
  rc_digis :: "string list"
  rc_block :: int
  rc_retries :: nat
  rc_restart :: bool

text \<open>The outside world: the published state of the RMS listener, whether the service is
  active, the outcome of the stop command and how many polls it still looks active after it,
  the exception of opening the Dire Wolf socket if any, and what that socket reads.\<close>

record rf_env =
  rv_state :: string
  rv_active :: bool
  rv_stop_ok :: bool
  rv_linger :: nat
  rv_open :: "exn option"
  rv_inbox :: "rf_event list"
  rv_now :: nat
  rv_mid :: string

datatype svc_action = Svc_stop | Svc_start

record rf_result =
  rr_status :: string
  rr_delivered :: bool
  rr_ok :: bool
  rr_accepted :: "bool option"
  rr_fs :: "string option"
  rr_error :: "string option"

definition rf_failed :: "string \<Rightarrow> rf_result" where
  "rf_failed m = \<lparr>rr_status = ''Failed'', rr_delivered = False, rr_ok = False, rr_accepted = None,
     rr_fs = None, rr_error = Some m\<rparr>"

definition rms_busy :: "rf_env \<Rightarrow> bool" where
  "rms_busy env \<longleftrightarrow> rv_state env \<in> {''connecting_cms'', ''connected''}"

text \<open>\<^verbatim>\<open>_stop_listener\<close>: the actions, and whether it was stopped. The wait for the service to
  go inactive gives up after twenty polls without an error, so \<open>rv_linger\<close> plays no role in
  the result.\<close>

definition stop_listener :: "rf_env \<Rightarrow> bool result \<times> svc_action list" where
  "stop_listener env =
     (if \<not> rv_active env then (Inr False, [])
      else if \<not> rv_stop_ok env then (Inl (RfError ''could not stop RMS listener''), [Svc_stop])
      else (Inr True, [Svc_stop]))"

definition rf_digis :: "rf_cfg \<Rightarrow> string list" where
  "rf_digis rf = map strip (filter (\<lambda>d. d \<noteq> [] \<and> strip d \<noteq> []) (rc_digis rf))"

definition rf_mycall :: "web_cfg \<Rightarrow> rf_cfg \<Rightarrow> string" where
  "rf_mycall cfg rf = strip (if rc_mycall rf = [] then wc_callsign cfg else rc_mycall rf)"

definition rf_link_of :: "web_cfg \<Rightarrow> rf_cfg \<Rightarrow> rf_link" where
  "rf_link_of cfg rf = \<lparr>my_call = rf_mycall cfg rf, peer_call = strip (rc_remote rf),
     digi_path = rf_digis rf, block_size = clamp_block (rc_block rf), retries = rc_retries rf\<rparr>"

section \<open>The session\<close>

text \<open>Connect, then the conversation: the outcome and the stream it leaves.\<close>

definition rf_session ::
    "(bytes \<Rightarrow> bytes) \<Rightarrow> web_cfg \<Rightarrow> rf_link \<Rightarrow> winlink_msg \<Rightarrow> bytes \<Rightarrow> bool \<Rightarrow> string \<Rightarrow> rf_stream \<Rightarrow>
     (b2f_result result \<times> rf_stream \<times> bytes) option" where
  "rf_session md5 cfg l msg compressed send_body version s =
     (case rf_connect l s of
        (Inl e, s1) \<Rightarrow> Some (Inl e, s1, [])
      | (Inr _, s1) \<Rightarrow> run_b2f (rfw_recv l) (rfw_send l) md5 msg compressed send_body version
                         (wc_password cfg) (wc_sid cfg) (s1, []))"

text \<open>The body of the \<^verbatim>\<open>try\<close> statement: its outcome, the systemd actions, whether the listener
  was stopped, and the stream if there is one.\<close>

definition rf_try ::
    "(bytes \<Rightarrow> bytes) \<Rightarrow> web_cfg \<Rightarrow> rf_cfg \<Rightarrow> rf_env \<Rightarrow> winlink_msg \<Rightarrow> bytes \<Rightarrow> bool \<Rightarrow> string \<Rightarrow>
     (b2f_result result \<times> svc_action list \<times> bool \<times> (rf_stream \<times> bytes) option) option" where
  "rf_try md5 cfg rf env msg compressed send_body version =
     (case stop_listener env of
        (Inl e, acts) \<Rightarrow> Some (Inl e, acts, False, None)
      | (Inr stopped, acts) \<Rightarrow>
          (case rv_open env of
             Some e \<Rightarrow> Some (Inl e, acts, stopped, None)
           | None \<Rightarrow>
               (case rf_session md5 cfg (rf_link_of cfg rf) msg compressed send_body version
                       (stream_init (rv_inbox env)) of
                  None \<Rightarrow> None
                | Some (r, s, h) \<Rightarrow> Some (r, acts, stopped, Some (s, h)))))"

text \<open>The \<^verbatim>\<open>finally\<close> block: close the stream, restart the listener if it was stopped.\<close>

definition rf_finally ::
    "web_cfg \<Rightarrow> rf_cfg \<Rightarrow> svc_action list \<Rightarrow> bool \<Rightarrow> (rf_stream \<times> bytes) option \<Rightarrow>
     svc_action list \<times> bytes list" where
  "rf_finally cfg rf acts stopped st =
     (acts @ (if stopped \<and> rc_restart rf then [Svc_start] else []),
      case st of None \<Rightarrow> [] | Some (s, h) \<Rightarrow> air (rf_close (rf_link_of cfg rf) s))"

definition rf_outcome :: "b2f_result result \<Rightarrow> rf_result" where
  "rf_outcome r =
     (case r of
        Inl e \<Rightarrow> rf_failed (exn_text e)
      | Inr b \<Rightarrow>
          \<lparr>rr_status = (if b_delivered b then ''Sent'' else ''Failed''), rr_delivered = b_delivered b,
           rr_ok = b_delivered b, rr_accepted = b_accepted b, rr_fs = b_fs b,
           rr_error = (if b_delivered b then None else Some ''RMS did not confirm delivery'')\<rparr>)"

text \<open>\<^verbatim>\<open>send\<close>: the result, the systemd actions and the frames put on the air.\<close>

definition rf_send_mail ::
    "(bytes \<Rightarrow> bytes) \<Rightarrow> (bytes \<Rightarrow> bytes) \<Rightarrow> web_cfg \<Rightarrow> rf_cfg \<Rightarrow> rf_env \<Rightarrow> mail \<Rightarrow> string \<Rightarrow>
     (rf_result \<times> svc_action list \<times> bytes list) option" where
  "rf_send_mail md5 compress cfg rf env rec version =
     (if strip (rc_remote rf) = [] then Some (rf_failed ''no remote_rms configured'', [], [])
      else if rf_mycall cfg rf = [] then Some (rf_failed ''no station callsign / mycall configured'', [], [])
      else if 2 < length (rf_digis rf) then Some (rf_failed ''at most 2 digipeaters supported'', [], [])
      else case build_message (wc_callsign cfg) (rv_now env) (rv_mid env) rec of
        Inl e \<Rightarrow> Some (rf_failed (''build/compress failed: '' @ exn_text e), [], [])
      | Inr msg \<Rightarrow>
          if wc_dry_run cfg then
            Some ((rf_failed ''dry_run enabled'')\<lparr>rr_status := ''Holding''\<rparr>, [], [])
          else if rms_busy env then
            Some (rf_failed ''RMS gateway is mid-relay; try again shortly'', [], [])
          else case rf_try md5 cfg rf env msg (compress (utf8 (w_text msg))) True version of
            None \<Rightarrow> None
          | Some (r, acts, stopped, st) \<Rightarrow>
              Some (rf_outcome r, rf_finally cfg rf acts stopped st))"

text \<open>\<^verbatim>\<open>probe\<close>: the same session without the body; the error, the answer of the server, the
  actions and the frames.\<close>

definition rf_probe ::
    "(bytes \<Rightarrow> bytes) \<Rightarrow> (bytes \<Rightarrow> bytes) \<Rightarrow> web_cfg \<Rightarrow> rf_cfg \<Rightarrow> rf_env \<Rightarrow> mail \<Rightarrow> string \<Rightarrow>
     (rf_result \<times> svc_action list \<times> bytes list) option" where
  "rf_probe md5 compress cfg rf env rec version =
     (if strip (rc_remote rf) = [] \<or> rf_mycall cfg rf = [] then
        Some (rf_failed ''remote_rms and station callsign required'', [], [])
      else if wc_dry_run cfg then Some (rf_failed ''dry_run enabled'', [], [])
      else if rms_busy env then Some (rf_failed ''RMS gateway is mid-relay; try again shortly'', [], [])
      else case build_message (wc_callsign cfg) (rv_now env) (rv_mid env) rec of
        Inl e \<Rightarrow> Some (rf_failed (''build/compress failed: '' @ exn_text e), [], [])
      | Inr msg \<Rightarrow>
          (case rf_try md5 cfg rf env msg (compress (utf8 (w_text msg))) False version of
             None \<Rightarrow> None
           | Some (r, acts, stopped, st) \<Rightarrow>
               Some ((case r of
                        Inl e \<Rightarrow> rf_failed (exn_text e)
                      | Inr b \<Rightarrow> (rf_failed [])\<lparr>rr_accepted := b_accepted b, rr_fs := b_fs b,
                                                rr_error := None\<rparr>),
                     rf_finally cfg rf acts stopped st)))"

section \<open>Facts\<close>

lemma rf_try_acts:
  assumes "rf_try md5 cfg rf env msg compressed body version = Some (r, acts, stopped, st)"
  shows "(st \<noteq> None \<longrightarrow> rv_active env \<longrightarrow> rv_stop_ok env)
     \<and> acts = (if rv_active env then [Svc_stop] else [])
     \<and> stopped = (rv_active env \<and> rv_stop_ok env)"
  using assms
  by (auto simp: rf_try_def stop_listener_def split: if_splits option.splits prod.splits sum.splits)

text \<open>The conversation over the stream keeps the contract too: what has been handed to the
  stream's \<^verbatim>\<open>send\<close> when a session ends with delivered includes the framed message.\<close>

lemma rf_session_handed:
  assumes "rf_session md5 cfg l msg compressed True version s = Some (Inr b, s', h)" "b_delivered b"
  shows "\<exists>burst quit. quit \<in> {[], FQ} \<and> b_accepted b = Some True
     \<and> h = map (\<lambda>c. word_of_nat (ord c)) burst @ fr_bytes (frame_binary (w_subject msg) compressed) @ quit"
proof -
  obtain u s1 where c: "rf_connect l s = (Inr u, s1)"
    and run: "run_b2f (rfw_recv l) (rfw_send l) md5 msg compressed True version (wc_password cfg)
         (wc_sid cfg) (s1, []) = Some (Inr b, (s', h))"
    using assms(1) by (auto simp: rf_session_def split: prod.splits sum.splits)
  from rft.conversation [OF run] assms(2) show ?thesis by auto
qed

text \<open>A stray acknowledgement ends the wait for the peer's next line.\<close>

lemma read_to_ack:
  assumes "call_ok me" "call_ok peer" "peer_call l = call_str peer" "kiss_clean (s_dec s)"
    and "rxbuf s = []" "inbox s = Rx (kiss_encode f 0) # evs"
    and "make_frame (call_str me) (call_str peer) (rr n False) [] (-1) True [] = Inr f" "needle \<noteq> []"
  shows "\<exists>s'. read_to (rfw_recv l) needle (s, h)
        = Some (Inl (DeliveryError ''CMS closed the connection''), (s', h)) \<and> inbox s' = evs"
proof -
  obtain s' where s': "rf_recv l 512 s = (Inr [], s')" "inbox s' = evs"
    using recv_empty_on_ack [OF assms(1-7), of 512] by blast
  then have "rfw_recv l 512 (s, h) = Some (Inr [], (s', h))" by (simp add: rfw_recv_def)
  with assms(8) s'(2) show ?thesis by (subst read_until.simps) simp
qed

section \<open>Properties\<close>

text \<open>C31. The interlock with the RMS listener: a delivery over RF that returns has put frames on the
  air only with dry-run off, no RMS session in progress and the listener inactive or stopped;
  whenever it stopped the listener it has started it again (unless configured not to), whatever
  happened in between; and it never starts a listener it did not stop.\<close>

theorem rf_interlock:
  assumes "rf_send_mail md5 compress cfg rf env rec version = Some (res, acts, frames)"
  shows "(frames \<noteq> [] \<longrightarrow> \<not> wc_dry_run cfg \<and> \<not> rms_busy env
            \<and> (rv_active env \<longrightarrow> Svc_stop \<in> set acts \<and> rv_stop_ok env))
     \<and> (Svc_stop \<in> set acts \<longrightarrow> rv_stop_ok env \<longrightarrow> rc_restart rf \<longrightarrow> acts = [Svc_stop, Svc_start])
     \<and> (Svc_start \<in> set acts \<longrightarrow> acts = [Svc_stop, Svc_start] \<and> rv_active env \<and> rv_stop_ok env)"
proof (cases "\<exists>msg r as stopped st.
    rf_try md5 cfg rf env msg (compress (utf8 (w_text msg))) True version = Some (r, as, stopped, st)
    \<and> rf_finally cfg rf as stopped st = (acts, frames) \<and> \<not> wc_dry_run cfg \<and> \<not> rms_busy env")
  case True
  then obtain msg r as stopped st where
    t: "rf_try md5 cfg rf env msg (compress (utf8 (w_text msg))) True version = Some (r, as, stopped, st)"
    and f: "rf_finally cfg rf as stopped st = (acts, frames)" "\<not> wc_dry_run cfg" "\<not> rms_busy env"
    by blast
  from rf_try_acts [OF t] f show ?thesis
    by (cases st) (auto simp: rf_finally_def split: if_splits)
next
  case False
  with assms have "acts = [] \<and> frames = []"
    by (auto simp: rf_send_mail_def split: if_splits sum.splits option.splits prod.splits)
  then show ?thesis by simp
qed

definition sample_rf :: rf_cfg where
  "sample_rf = \<lparr>rc_remote = ''KP4PR-10'', rc_mycall = ''KP4CE'', rc_digis = [], rc_block = 250,
     rc_retries = 3, rc_restart = True\<rparr>"

definition sample_rf_env :: rf_env where
  "sample_rf_env = \<lparr>rv_state = ''listening'', rv_active = True, rv_stop_ok = True, rv_linger = 0,
     rv_open = None, rv_inbox = [Rx []], rv_now = 0, rv_mid = ''ABCDEFGHIJKL''\<rparr>"

theorem rf_interlock_witness:
  "\<exists>res frames. rf_send_mail (\<lambda>_. []) (\<lambda>d. d) sample_cfg sample_rf
       (sample_rf_env\<lparr>rv_open := Some (OSError ''refused'')\<rparr>) sample_mail ''1.0''
     = Some (res, [Svc_stop, Svc_start], frames)
   \<and> (Svc_stop \<in> set [Svc_stop, Svc_start] \<longrightarrow> rv_stop_ok sample_rf_env \<longrightarrow> rc_restart sample_rf
      \<longrightarrow> [Svc_stop, Svc_start] = [Svc_stop, Svc_start])"
proof -
  have strips: "strip ''KP4PR-10'' = ''KP4PR-10''" "strip ''KP4CE'' = ''KP4CE''"
    by (rule strip_id; simp add: is_space_def ord_def Let_def)+
  obtain w where w: "build_message ''kp4pra-10'' 0 ''ABCDEFGHIJKL'' sample_mail = Inr w"
    using build_sample by blast
  have run: "\<exists>res. rf_send_mail (\<lambda>_. []) (\<lambda>d. d) sample_cfg sample_rf
       (sample_rf_env\<lparr>rv_open := Some (OSError ''refused'')\<rparr>) sample_mail ''1.0''
     = Some (res, [Svc_stop, Svc_start], [])"
    using w by (simp add: rf_send_mail_def sample_rf_def sample_cfg_def sample_rf_env_def strips
        rf_mycall_def rf_digis_def rms_busy_def rf_try_def stop_listener_def rf_finally_def)
  then obtain res where r: "rf_send_mail (\<lambda>_. []) (\<lambda>d. d) sample_cfg sample_rf
       (sample_rf_env\<lparr>rv_open := Some (OSError ''refused'')\<rparr>) sample_mail ''1.0''
     = Some (res, [Svc_stop, Svc_start], [])" by blast
  from rf_interlock [OF r] r show ?thesis by auto
qed

text \<open>A stray acknowledgement aborts the transfer: while the driver waits for a line of the peer
  over RF, a receive-ready frame (a repeated acknowledgement, say) makes it raise that the CMS
  closed the connection, although the link is up and the line may be the next frame.\<close>

theorem rr_aborts_conversation:
  assumes "call_ok me" "call_ok peer" "peer_call l = call_str peer" "kiss_clean (s_dec s)"
    and "rxbuf s = []" "inbox s = Rx (kiss_encode f 0) # evs"
    and "make_frame (call_str me) (call_str peer) (rr n False) [] (-1) True [] = Inr f" "needle \<noteq> []"
  shows "\<exists>s'. read_to (rfw_recv l) needle (s, h)
        = Some (Inl (DeliveryError ''CMS closed the connection''), (s', h)) \<and> inbox s' = evs"
  using assms by (rule read_to_ack)

theorem rr_aborts_conversation_witness:
  "let l = \<lparr>my_call = ''KP4CE'', peer_call = ''KP4PR'', digi_path = [], block_size = 250, retries = 3\<rparr>;
       f = call_field (''KP4CE'', 0) False False @ call_field (''KP4PR'', 0) True True @ [rr 1 False]
   in \<exists>s'. read_to (rfw_recv l) [0x3E] (stream_init [Rx (kiss_encode f 0), Rx_timeout], [])
        = Some (Inl (DeliveryError ''CMS closed the connection''), (s', [])) \<and> inbox s' = [Rx_timeout]"
proof -
  have "make_frame (call_str (''KP4CE'', 0)) (call_str (''KP4PR'', 0)) (rr 1 False) [] (-1) True []
    = Inr (call_field (''KP4CE'', 0) False False @ call_field (''KP4PR'', 0) True True @ [rr 1 False])"
    using make_frame_calls [of "(''KP4CE'', 0)" "(''KP4PR'', 0)" "[]" "-1" "rr 1 False" "[]" True]
    by (simp add: is_upper_def is_digit_def ord_def)
  then show ?thesis
    unfolding Let_def
    by (intro rr_aborts_conversation [where me = "(''KP4CE'', 0)" and peer = "(''KP4PR'', 0)" and n = 1])
       (simp_all add: stream_init_def is_upper_def is_digit_def ord_def)
qed

end
