(* ===== verification/Rms_Run.thy ===== *)
theory Rms_Run
  imports Rms_Gateway
begin

text \<open>
  The outer loops of the Winlink RMS gateway (src/src/rms/gateway.py): \<^verbatim>\<open>_run_rf\<close>, which feeds
  what it reads from the Dire Wolf socket to the KISS decoder and handles the frames that come
  out, and \<^verbatim>\<open>handle_telnet\<close>, the transparent proxy between a TCP client and the CMS.
  The environment of the \<open>n\<close>-th frame handled is an argument, as in \<^theory_text>\<open>Rms_Gateway\<close>.
\<close>

section \<open>The RF reader\<close>

fun handle_all :: "string \<Rightarrow> cms_env list \<Rightarrow> gateway \<Rightarrow> bytes list \<Rightarrow> outcome" where
  "handle_all call (env # envs) g (f # fs) = then_do (handle call env g f) (\<lambda>g'. handle_all call envs g' fs)"
| "handle_all call _ g _ = (g, None)"

record rf_loop =
  gw :: gateway
  dec :: kiss_decoder

text \<open>After the socket has been opened: a fresh decoder, and whatever state the gateway has.\<close>

definition modem_connect :: "gateway \<Rightarrow> rf_loop" where
  "modem_connect g = \<lparr>gw = g\<lparr>status := ''listening''\<rparr>, dec = kiss_init\<rparr>"

text \<open>One pass of the inner loop: the result is \<^const>\<open>Inl\<close> when the pass raises, and then
  the outer loop publishes the error and, five seconds later, connects again.\<close>

definition rf_pass :: "string \<Rightarrow> cms_env list \<Rightarrow> rf_loop \<Rightarrow> bytes \<Rightarrow> gateway + rf_loop" where
  "rf_pass call envs r data =
     (if data = [] then Inl (gw r)
      else case kiss_feed (dec r) data of (d, frames) \<Rightarrow>
        (case handle_all call envs (gw r) frames of
           (g, None) \<Rightarrow> Inr \<lparr>gw = g, dec = d\<rparr>
         | (g, Some e) \<Rightarrow> Inl g))"

definition rf_read :: "string \<Rightarrow> cms_env list \<Rightarrow> rf_loop \<Rightarrow> bytes \<Rightarrow> rf_loop" where
  "rf_read call envs r data =
     (case rf_pass call envs r data of
        Inl g \<Rightarrow> modem_connect (g\<lparr>status := ''kiss_error''\<rparr>)
      | Inr r' \<Rightarrow> r')"

text \<open>Reading a list of non-empty segments one after the other, each frame handled in the same
  environment, as long as nothing raises.\<close>

fun rf_segments :: "string \<Rightarrow> cms_env \<Rightarrow> rf_loop \<Rightarrow> bytes list \<Rightarrow> (gateway + rf_loop)" where
  "rf_segments call env r [] = Inr r"
| "rf_segments call env r (s # ss) =
     (case rf_pass call (replicate (length (snd (kiss_feed (dec r) s))) env) r s of
        Inl g \<Rightarrow> Inl g
      | Inr r' \<Rightarrow> rf_segments call env r' ss)"

lemma then_do_simps [simp]:
  "then_do (g, None) f = f g" "then_do (g, Some e) f = (g, Some e)"
  by (simp_all add: then_do_def)

lemma handle_all_append:
  assumes "length xs = length fs"
  shows "handle_all call (xs @ ys) g (fs @ gs)
         = then_do (handle_all call xs g fs) (\<lambda>g'. handle_all call ys g' gs)"
  using assms
proof (induction xs fs arbitrary: g rule: list_induct2)
  case Nil
  then show ?case by simp
next
  case (Cons env xs f fs)
  obtain g' e where h: "handle call env g f = (g', e)" by fastforce
  show ?case by (cases e) (simp_all add: h Cons.IH)
qed

lemma kiss_feed_frames:
  "snd (kiss_feed d (xs @ ys)) = snd (kiss_feed d xs) @ snd (kiss_feed (fst (kiss_feed d xs)) ys)"
  by (simp add: kiss_feed_append Let_def split: prod.splits)

lemma rf_segments_run:
  "list_all (\<lambda>s. s \<noteq> []) ss \<Longrightarrow>
   rf_segments call env r ss =
     (case handle_all call (replicate (length (snd (kiss_feed (dec r) (concat ss)))) env) (gw r)
             (snd (kiss_feed (dec r) (concat ss))) of
        (g, None) \<Rightarrow> Inr \<lparr>gw = g, dec = fst (kiss_feed (dec r) (concat ss))\<rparr>
      | (g, Some e) \<Rightarrow> Inl g)"
proof (induction ss arbitrary: r)
  case Nil
  then show ?case by simp
next
  case (Cons s ss)
  obtain d fs where k: "kiss_feed (dec r) s = (d, fs)" by fastforce
  obtain g e where h: "handle_all call (replicate (length fs) env) (gw r) fs = (g, e)"
    by fastforce
  have "fst (kiss_feed (dec r) (s @ concat ss)) = fst (kiss_feed d (concat ss))"
    by (simp add: kiss_feed_append k split: prod.splits)
  with Cons k h show ?case
    by (cases e)
       (simp_all add: rf_pass_def kiss_feed_frames replicate_add handle_all_append
          split: prod.splits option.splits)
qed

section \<open>The TCP proxy\<close>

text \<open>What happens in \<^verbatim>\<open>handle_telnet\<close> after the connection to the CMS is open, in the order of
  time: one of the two copying tasks reads (an empty read ends the task) or raises.\<close>

datatype proxy_event = Cms_read bytes | Client_read bytes | Cms_raise | Client_raise

record proxy =
  to_client :: bytes
  to_cms :: bytes
  proxy_open :: bool

definition proxy_init :: proxy where
  "proxy_init = \<lparr>to_client = [], to_cms = [], proxy_open = True\<rparr>"

definition proxy_close :: "proxy \<Rightarrow> proxy" where
  "proxy_close p = p\<lparr>proxy_open := False\<rparr>"

text \<open>The first task that ends cancels the other, and both sockets are closed.\<close>

fun proxy_step :: "proxy_event \<Rightarrow> proxy \<Rightarrow> proxy" where
  "proxy_step (Cms_read d) p =
     (if \<not> proxy_open p then p
      else if d = [] then proxy_close p else p\<lparr>to_client := to_client p @ d\<rparr>)"
| "proxy_step (Client_read d) p =
     (if \<not> proxy_open p then p
      else if d = [] then proxy_close p else p\<lparr>to_cms := to_cms p @ d\<rparr>)"
| "proxy_step Cms_raise p = (if proxy_open p then proxy_close p else p)"
| "proxy_step Client_raise p = (if proxy_open p then proxy_close p else p)"

fun ends_proxy :: "proxy_event \<Rightarrow> bool" where
  "ends_proxy (Cms_read d) = (d = [])"
| "ends_proxy (Client_read d) = (d = [])"
| "ends_proxy _ = True"

fun cms_bytes :: "proxy_event \<Rightarrow> bytes" where
  "cms_bytes (Cms_read d) = d"
| "cms_bytes _ = []"

fun client_bytes :: "proxy_event \<Rightarrow> bytes" where
  "client_bytes (Client_read d) = d"
| "client_bytes _ = []"

lemma proxy_closed [simp]: "\<not> proxy_open p \<Longrightarrow> fold proxy_step evs p = p"
proof (induction evs)
  case (Cons e evs)
  then show ?case by (cases e) simp_all
qed simp

lemma proxy_run:
  "proxy_open p \<Longrightarrow>
   fold proxy_step evs p =
     \<lparr>to_client = to_client p @ concat (map cms_bytes (takeWhile (\<lambda>e. \<not> ends_proxy e) evs)),
      to_cms = to_cms p @ concat (map client_bytes (takeWhile (\<lambda>e. \<not> ends_proxy e) evs)),
      proxy_open = list_all (\<lambda>e. \<not> ends_proxy e) evs\<rparr>"
proof (induction evs arbitrary: p)
  case Nil
  then show ?case by simp
next
  case (Cons e evs)
  then show ?case by (cases e) (simp_all add: proxy_close_def)
qed

section \<open>Properties\<close>

text \<open>C23. The gateway does not depend on how TCP cuts the modem stream: reading the segments one
  after the other gives the state, and raises exactly when, handling the frames of the whole
  stream in order does.\<close>

theorem rf_stream_segmentation:
  assumes "list_all (\<lambda>s. s \<noteq> []) ss" "list_all (\<lambda>s. s \<noteq> []) ss'" "concat ss = concat ss'"
  shows "rf_segments call env r ss = rf_segments call env r ss'"
  unfolding rf_segments_run [OF assms(1)] rf_segments_run [OF assms(2)] assms(3) by (rule refl)

theorem rf_stream_segmentation_witness:
  "rf_segments ''KP4PRA-10'' \<lparr>e_connect = None, e_send = None\<rparr> (modem_connect gateway_init)
     [[0xC0, 0x00], [0x01, 0xC0]]
   = rf_segments ''KP4PRA-10'' \<lparr>e_connect = None, e_send = None\<rparr> (modem_connect gateway_init)
     [[0xC0], [0x00, 0x01], [0xC0]]"
  by (rule rf_stream_segmentation) simp_all

text \<open>The TCP proxy is transparent: whatever the interleaving of the two directions, each
  side receives exactly the bytes read from the other up to the first end of file or error,
  in order, and the proxy is closed exactly when one of these has happened.\<close>

theorem telnet_transparent:
  "fold proxy_step evs proxy_init =
     \<lparr>to_client = concat (map cms_bytes (takeWhile (\<lambda>e. \<not> ends_proxy e) evs)),
      to_cms = concat (map client_bytes (takeWhile (\<lambda>e. \<not> ends_proxy e) evs)),
      proxy_open = list_all (\<lambda>e. \<not> ends_proxy e) evs\<rparr>"
  by (simp add: proxy_run proxy_init_def)

end
