(* ===== verification/Lzhuf_Bits.thy ===== *)
theory Lzhuf_Bits
  imports Prelude
begin

text \<open>
  The fixed parts of the LZHUF codec (src/src/web/lzhuf.py): the constants, the tables of the
  position codec, the bit writer and reader with the bit lists they stand for, and the
  CRC-16 of the B2 stream with what it detects.
\<close>

section \<open>Constants and tables\<close>

abbreviation (input) LZ_N :: nat where "LZ_N \<equiv> 2048"
abbreviation (input) LZ_F :: nat where "LZ_F \<equiv> 60"
abbreviation (input) THRESHOLD :: nat where "THRESHOLD \<equiv> 2"
abbreviation (input) NIL :: nat where "NIL \<equiv> LZ_N"
abbreviation (input) N_CHAR :: nat where "N_CHAR \<equiv> 314"
abbreviation (input) LZ_T :: nat where "LZ_T \<equiv> 627"
abbreviation (input) LZ_R :: nat where "LZ_R \<equiv> 626"
abbreviation (input) MAX_FREQ :: nat where "MAX_FREQ \<equiv> 0x8000"

definition p_len :: "nat list" where
  "p_len =
    [3, 4, 4, 4, 5, 5, 5, 5, 5, 5, 6, 6, 6, 6, 6, 6,
     6, 6, 6, 6, 6, 6, 6, 6, 7, 7, 7, 7, 7, 7, 7, 7,
     7, 7, 7, 7, 7, 7, 7, 7, 7, 7, 7, 7, 7, 7, 7, 7,
     8, 8, 8, 8, 8, 8, 8, 8, 8, 8, 8, 8, 8, 8, 8, 8]"

definition p_code :: "nat list" where
  "p_code =
    [0x00, 0x20, 0x30, 0x40, 0x50, 0x58, 0x60, 0x68, 0x70, 0x78, 0x80, 0x88, 0x90, 0x94, 0x98, 0x9C,
     0xA0, 0xA4, 0xA8, 0xAC, 0xB0, 0xB4, 0xB8, 0xBC, 0xC0, 0xC2, 0xC4, 0xC6, 0xC8, 0xCA, 0xCC, 0xCE,
     0xD0, 0xD2, 0xD4, 0xD6, 0xD8, 0xDA, 0xDC, 0xDE, 0xE0, 0xE2, 0xE4, 0xE6, 0xE8, 0xEA, 0xEC, 0xEE,
     0xF0, 0xF1, 0xF2, 0xF3, 0xF4, 0xF5, 0xF6, 0xF7, 0xF8, 0xF9, 0xFA, 0xFB, 0xFC, 0xFD, 0xFE, 0xFF]"

definition d_code :: "nat list" where
  "d_code =
    [0x00, 0x00, 0x00, 0x00, 0x00, 0x00, 0x00, 0x00, 0x00, 0x00, 0x00, 0x00, 0x00, 0x00, 0x00, 0x00,
     0x00, 0x00, 0x00, 0x00, 0x00, 0x00, 0x00, 0x00, 0x00, 0x00, 0x00, 0x00, 0x00, 0x00, 0x00, 0x00,
     0x01, 0x01, 0x01, 0x01, 0x01, 0x01, 0x01, 0x01, 0x01, 0x01, 0x01, 0x01, 0x01, 0x01, 0x01, 0x01,
     0x02, 0x02, 0x02, 0x02, 0x02, 0x02, 0x02, 0x02, 0x02, 0x02, 0x02, 0x02, 0x02, 0x02, 0x02, 0x02,
     0x03, 0x03, 0x03, 0x03, 0x03, 0x03, 0x03, 0x03, 0x03, 0x03, 0x03, 0x03, 0x03, 0x03, 0x03, 0x03,
     0x04, 0x04, 0x04, 0x04, 0x04, 0x04, 0x04, 0x04, 0x05, 0x05, 0x05, 0x05, 0x05, 0x05, 0x05, 0x05,
     0x06, 0x06, 0x06, 0x06, 0x06, 0x06, 0x06, 0x06, 0x07, 0x07, 0x07, 0x07, 0x07, 0x07, 0x07, 0x07,
     0x08, 0x08, 0x08, 0x08, 0x08, 0x08, 0x08, 0x08, 0x09, 0x09, 0x09, 0x09, 0x09, 0x09, 0x09, 0x09,
     0x0A, 0x0A, 0x0A, 0x0A, 0x0A, 0x0A, 0x0A, 0x0A, 0x0B, 0x0B, 0x0B, 0x0B, 0x0B, 0x0B, 0x0B, 0x0B,
     0x0C, 0x0C, 0x0C, 0x0C, 0x0D, 0x0D, 0x0D, 0x0D, 0x0E, 0x0E, 0x0E, 0x0E, 0x0F, 0x0F, 0x0F, 0x0F,
     0x10, 0x10, 0x10, 0x10, 0x11, 0x11, 0x11, 0x11, 0x12, 0x12, 0x12, 0x12, 0x13, 0x13, 0x13, 0x13,
     0x14, 0x14, 0x14, 0x14, 0x15, 0x15, 0x15, 0x15, 0x16, 0x16, 0x16, 0x16, 0x17, 0x17, 0x17, 0x17,
     0x18, 0x18, 0x19, 0x19, 0x1A, 0x1A, 0x1B, 0x1B, 0x1C, 0x1C, 0x1D, 0x1D, 0x1E, 0x1E, 0x1F, 0x1F,
     0x20, 0x20, 0x21, 0x21, 0x22, 0x22, 0x23, 0x23, 0x24, 0x24, 0x25, 0x25, 0x26, 0x26, 0x27, 0x27,
     0x28, 0x28, 0x29, 0x29, 0x2A, 0x2A, 0x2B, 0x2B, 0x2C, 0x2C, 0x2D, 0x2D, 0x2E, 0x2E, 0x2F, 0x2F,
     0x30, 0x31, 0x32, 0x33, 0x34, 0x35, 0x36, 0x37, 0x38, 0x39, 0x3A, 0x3B, 0x3C, 0x3D, 0x3E, 0x3F]"

definition d_len :: "nat list" where
  "d_len =
    [3, 3, 3, 3, 3, 3, 3, 3, 3, 3, 3, 3, 3, 3, 3, 3,
     3, 3, 3, 3, 3, 3, 3, 3, 3, 3, 3, 3, 3, 3, 3, 3,
     4, 4, 4, 4, 4, 4, 4, 4, 4, 4, 4, 4, 4, 4, 4, 4,
     4, 4, 4, 4, 4, 4, 4, 4, 4, 4, 4, 4, 4, 4, 4, 4,
     4, 4, 4, 4, 4, 4, 4, 4, 4, 4, 4, 4, 4, 4, 4, 4,
     5, 5, 5, 5, 5, 5, 5, 5, 5, 5, 5, 5, 5, 5, 5, 5,
     5, 5, 5, 5, 5, 5, 5, 5, 5, 5, 5, 5, 5, 5, 5, 5,
     5, 5, 5, 5, 5, 5, 5, 5, 5, 5, 5, 5, 5, 5, 5, 5,
     6, 6, 6, 6, 6, 6, 6, 6, 6, 6, 6, 6, 6, 6, 6, 6,
     6, 6, 6, 6, 6, 6, 6, 6, 6, 6, 6, 6, 6, 6, 6, 6,
     6, 6, 6, 6, 6, 6, 6, 6, 6, 6, 6, 6, 6, 6, 6, 6,
     6, 6, 6, 6, 6, 6, 6, 6, 6, 6, 6, 6, 6, 6, 6, 6,
     7, 7, 7, 7, 7, 7, 7, 7, 7, 7, 7, 7, 7, 7, 7, 7,
     7, 7, 7, 7, 7, 7, 7, 7, 7, 7, 7, 7, 7, 7, 7, 7,
     7, 7, 7, 7, 7, 7, 7, 7, 7, 7, 7, 7, 7, 7, 7, 7,
     8, 8, 8, 8, 8, 8, 8, 8, 8, 8, 8, 8, 8, 8, 8, 8]"

section \<open>Bit I/O\<close>

record bit_writer =
  bw_out :: bytes
  bw_buf :: byte
  bw_mask :: byte

definition bw_init :: bit_writer where
  "bw_init = \<lparr>bw_out = [], bw_buf = 0, bw_mask = 0x80\<rparr>"

definition put_bit :: "bool \<Rightarrow> bit_writer \<Rightarrow> bit_writer" where
  "put_bit b w = (let buf = (if b then bw_buf w OR bw_mask w else bw_buf w); m = drop_bit 1 (bw_mask w) in
     if m = 0 then w\<lparr>bw_out := bw_out w @ [buf], bw_buf := 0, bw_mask := 0x80\<rparr>
     else w\<lparr>bw_buf := buf, bw_mask := m\<rparr>)"

primrec put_code :: "nat \<Rightarrow> 16 word \<Rightarrow> bit_writer \<Rightarrow> bit_writer" where
  "put_code 0 code w = w"
| "put_code (Suc n) code w = put_code n (push_bit 1 code) (put_bit (bit code 15) w)"

definition bw_flush :: "bit_writer \<Rightarrow> bytes" where
  "bw_flush w = (if bw_mask w \<noteq> 0x80 then bw_out w @ [bw_buf w] else bw_out w)"

record bit_reader =
  br_data :: bytes
  br_pos :: nat
  br_buf :: byte
  br_mask :: byte

definition br_init :: "bytes \<Rightarrow> bit_reader" where
  "br_init data = \<lparr>br_data = data, br_pos = 0, br_buf = 0, br_mask = 0\<rparr>"

definition br_load :: "bit_reader \<Rightarrow> bit_reader" where
  "br_load r = (if br_mask r = 0
     then (if br_pos r < length (br_data r)
           then r\<lparr>br_buf := br_data r ! br_pos r, br_pos := br_pos r + 1, br_mask := 0x80\<rparr>
           else r\<lparr>br_buf := 0, br_mask := 0x80\<rparr>)
     else r)"

definition get_bit :: "bit_reader \<Rightarrow> bool \<times> bit_reader" where
  "get_bit r = (let r = br_load r in
     (br_buf r AND br_mask r \<noteq> 0, r\<lparr>br_mask := drop_bit 1 (br_mask r)\<rparr>))"

text \<open>\<^verbatim>\<open>n\<close> rounds of \<^verbatim>\<open>val = (val << 1) | get_bit()\<close>, as \<^verbatim>\<open>get_byte\<close> and the position codec run it.\<close>

primrec shift_in :: "nat \<Rightarrow> nat \<Rightarrow> bit_reader \<Rightarrow> nat \<times> bit_reader" where
  "shift_in 0 v r = (v, r)"
| "shift_in (Suc n) v r = (case get_bit r of (b, r) \<Rightarrow> shift_in n ((2 * v + of_bool b) mod 65536) r)"

definition get_byte :: "bit_reader \<Rightarrow> nat \<times> bit_reader" where
  "get_byte r = (case shift_in 8 0 r of (v, r) \<Rightarrow> (v AND 0xFF, r))"

section \<open>Position codec\<close>

definition encode_position :: "nat \<Rightarrow> bit_writer \<Rightarrow> bit_writer" where
  "encode_position pos w = (let i = drop_bit 6 pos in
     put_code 6 (word_of_nat (push_bit 10 (pos AND 0x3F) AND 0xFFFF))
       (put_code (p_len ! i) (word_of_nat (push_bit 8 (p_code ! i) AND 0xFFFF)) w))"

definition decode_position :: "bit_reader \<Rightarrow> nat \<times> bit_reader" where
  "decode_position r = (case get_byte r of (i, r) \<Rightarrow>
     (case shift_in (d_len ! i - 2) i r of (v, r) \<Rightarrow> (push_bit 6 (d_code ! i) OR (v AND 0x3F), r)))"

section \<open>The bits a writer has taken and a reader has left\<close>

definition bits8 :: "byte \<Rightarrow> bool list" where
  "bits8 b = map (bit b) [7, 6, 5, 4, 3, 2, 1, 0]"

definition pending :: "byte \<Rightarrow> nat" where
  "pending m = length (takeWhile (\<lambda>x. x \<noteq> m) [0x80, 0x40, 0x20, 0x10, 8, 4, 2, 1])"

definition bw_bits :: "bit_writer \<Rightarrow> bool list" where
  "bw_bits w = concat (map bits8 (bw_out w)) @ take (pending (bw_mask w)) (bits8 (bw_buf w))"

definition bw_ok :: "bit_writer \<Rightarrow> bool" where
  "bw_ok w \<longleftrightarrow> bw_mask w \<in> {0x80, 0x40, 0x20, 0x10, 8, 4, 2, 1}
     \<and> list_all Not (drop (pending (bw_mask w)) (bits8 (bw_buf w)))"

definition br_bits :: "bit_reader \<Rightarrow> bool list" where
  "br_bits r = (if br_mask r = 0 then [] else drop (pending (br_mask r)) (bits8 (br_buf r)))
     @ concat (map bits8 (drop (br_pos r) (br_data r)))"

definition br_ok :: "bit_reader \<Rightarrow> bool" where
  "br_ok r \<longleftrightarrow> br_mask r \<in> {0, 0x80, 0x40, 0x20, 0x10, 8, 4, 2, 1} \<and> br_pos r \<le> length (br_data r)"

lemma length_bits8 [simp]: "length (bits8 b) = 8"
  by (simp add: bits8_def)

lemma bw_init_ok [simp]: "bw_ok bw_init" "bw_bits bw_init = []"
  by (simp_all add: bw_init_def bw_ok_def bw_bits_def pending_def bits8_def)

lemma pending_masks [simp]:
  "pending 0x80 = 0" "pending 0x40 = 1" "pending 0x20 = 2" "pending 0x10 = 3"
  "pending 8 = 4" "pending 4 = 5" "pending 2 = 6" "pending 1 = 7"
  by (simp_all add: pending_def)

lemma mask_bits:
  "bit (0x80 :: byte) n \<longleftrightarrow> n = 7" "bit (0x40 :: byte) n \<longleftrightarrow> n = 6" "bit (0x20 :: byte) n \<longleftrightarrow> n = 5"
  "bit (0x10 :: byte) n \<longleftrightarrow> n = 4" "bit (8 :: byte) n \<longleftrightarrow> n = 3" "bit (4 :: byte) n \<longleftrightarrow> n = 2"
  "bit (2 :: byte) n \<longleftrightarrow> n = 1" "bit (1 :: byte) n \<longleftrightarrow> n = 0"
proof -
  have *: "bit (2 ^ k :: byte) n \<longleftrightarrow> n = k" if "k < 8" for k
    using that by (auto simp: bit_exp_iff possible_bit_def)
  show "bit (0x80 :: byte) n \<longleftrightarrow> n = 7" "bit (0x40 :: byte) n \<longleftrightarrow> n = 6"
    "bit (0x20 :: byte) n \<longleftrightarrow> n = 5" "bit (0x10 :: byte) n \<longleftrightarrow> n = 4"
    "bit (8 :: byte) n \<longleftrightarrow> n = 3" "bit (4 :: byte) n \<longleftrightarrow> n = 2"
    "bit (2 :: byte) n \<longleftrightarrow> n = 1" "bit (1 :: byte) n \<longleftrightarrow> n = 0"
    using *[of 7] *[of 6] *[of 5] *[of 4] *[of 3] *[of 2] *[of 1] *[of 0] by simp_all
qed

lemma drop_masks [simp]:
  "drop_bit (Suc 0) (0x80 :: byte) = 0x40" "drop_bit (Suc 0) (0x40 :: byte) = 0x20"
  "drop_bit (Suc 0) (0x20 :: byte) = 0x10" "drop_bit (Suc 0) (0x10 :: byte) = 8"
  "drop_bit (Suc 0) (8 :: byte) = 4" "drop_bit (Suc 0) (4 :: byte) = 2"
  "drop_bit (Suc 0) (2 :: byte) = 1" "drop_bit (Suc 0) (1 :: byte) = 0"
  by (rule bit_word_eqI; simp add: bit_drop_bit_eq mask_bits)+

lemma put_bit_bits:
  assumes "bw_ok w"
  shows "bw_ok (put_bit b w)" "bw_bits (put_bit b w) = bw_bits w @ [b]"
proof -
  have m: "bw_mask w \<in> {0x80, 0x40, 0x20, 0x10, 8, 4, 2, 1}"
    and z: "list_all Not (drop (pending (bw_mask w)) (bits8 (bw_buf w)))"
    using assms by (simp_all add: bw_ok_def)
  from m z show "bw_bits (put_bit b w) = bw_bits w @ [b]"
    by (elim insertE emptyE; cases b)
       (simp_all add: put_bit_def bw_bits_def bits8_def bit_or_iff mask_bits Let_def)
  from m z show "bw_ok (put_bit b w)"
    by (elim insertE emptyE; cases b)
       (simp_all add: put_bit_def bw_ok_def bits8_def bit_or_iff mask_bits Let_def)
qed

text \<open>The top \<open>n\<close> bits of a left-justified 16-bit code, first one first.\<close>

definition top_bits :: "nat \<Rightarrow> 16 word \<Rightarrow> bool list" where
  "top_bits n code = map (\<lambda>k. bit code (15 - k)) [0..<n]"

lemma top_bits_Suc: "n < 16 \<Longrightarrow> top_bits (Suc n) code = bit code 15 # top_bits n (push_bit 1 code)"
proof -
  assume "n < 16"
  then have "bit (push_bit 1 code) (15 - k) = bit code (15 - Suc k)" if "k < n" for k
    using that by (simp only: bit_push_bit_iff possible_bit_def) auto
  then show ?thesis
    by (simp add: top_bits_def upt_conv_Cons map_Suc_upt [symmetric] del: upt_Suc push_bit_Suc)
qed

lemma put_code_bits:
  assumes "bw_ok w" "n \<le> 16"
  shows "bw_ok (put_code n code w) \<and> bw_bits (put_code n code w) = bw_bits w @ top_bits n code"
  using assms
proof (induction n arbitrary: code w)
  case 0
  then show ?case by (simp add: top_bits_def)
next
  case (Suc n)
  have ok: "bw_ok (put_bit (bit code 15) w)"
    "bw_bits (put_bit (bit code 15) w) = bw_bits w @ [bit code 15]"
    using put_bit_bits [OF Suc.prems(1)] by simp_all
  from Suc.IH [OF ok(1), of "push_bit 1 code"] Suc.prems(2) ok(2) show ?case
    by (simp add: top_bits_Suc)
qed

text \<open>Flushing pads with zeros up to the byte.\<close>

lemma bw_flush_bits:
  assumes "bw_ok w"
  shows "\<exists>n. concat (map bits8 (bw_flush w)) = bw_bits w @ replicate n False"
proof -
  from assms have m: "bw_mask w \<in> {0x80, 0x40, 0x20, 0x10, 8, 4, 2, 1}"
    and z: "list_all Not (drop (pending (bw_mask w)) (bits8 (bw_buf w)))"
    by (simp_all add: bw_ok_def)
  define d where "d = drop (pending (bw_mask w)) (bits8 (bw_buf w))"
  have "d = replicate (length d) False"
    using z by (auto simp: d_def list_all_iff intro!: replicate_eqI)
  moreover have "bits8 (bw_buf w) = take (pending (bw_mask w)) (bits8 (bw_buf w)) @ d"
    by (simp add: d_def)
  ultimately have "bits8 (bw_buf w)
    = take (pending (bw_mask w)) (bits8 (bw_buf w)) @ replicate (length d) False" by simp
  then show ?thesis
    by (cases "bw_mask w = 0x80") (auto simp: bw_flush_def bw_bits_def intro: exI [of _ 0])
qed

lemma br_init_ok [simp]: "br_ok (br_init data)" "br_bits (br_init data) = concat (map bits8 data)"
  by (simp_all add: br_init_def br_ok_def br_bits_def)

text \<open>The reader takes the next bit.\<close>

lemma bit_and_one:
  "(\<And>n. bit (m::byte) n \<longleftrightarrow> n = k) \<Longrightarrow> (b AND m \<noteq> 0) = bit b k"
proof -
  assume m: "\<And>n. bit m n \<longleftrightarrow> n = k"
  have "b AND m = 0 \<longleftrightarrow> (\<forall>n. \<not> bit (b AND m) n)"
    by (auto intro: bit_word_eqI)
  then show ?thesis by (auto simp: bit_and_iff m)
qed

lemma bit_and_mask:
  "((b::byte) AND 0x80 \<noteq> 0) = bit b 7" "(b AND 0x40 \<noteq> 0) = bit b 6" "(b AND 0x20 \<noteq> 0) = bit b 5"
  "(b AND 0x10 \<noteq> 0) = bit b 4" "(b AND 8 \<noteq> 0) = bit b 3" "(b AND 4 \<noteq> 0) = bit b 2"
  "(b AND 2 \<noteq> 0) = bit b 1" "(b AND 1 \<noteq> 0) = bit b 0"
  by (rule bit_and_one, rule mask_bits)+

lemma get_bit_bits:
  assumes "br_ok r" "br_bits r = b # bs"
  shows "\<exists>r'. get_bit r = (b, r') \<and> br_ok r' \<and> br_bits r' = bs"
proof (cases "br_mask r = 0")
  case True
  with assms have lt: "br_pos r < length (br_data r)"
    by (auto simp: br_bits_def br_ok_def intro: ccontr)
  then have "drop (br_pos r) (br_data r) = br_data r ! br_pos r # drop (Suc (br_pos r)) (br_data r)"
    by (simp add: Cons_nth_drop_Suc)
  with True assms lt show ?thesis
    by (auto simp: get_bit_def br_load_def br_bits_def br_ok_def bits8_def bit_and_mask Let_def)
next
  case False
  with assms(1) have "br_mask r \<in> {0x80, 0x40, 0x20, 0x10, 8, 4, 2, 1}" by (simp add: br_ok_def)
  with assms show ?thesis
    by (elim insertE emptyE)
       (auto simp: get_bit_def br_load_def br_bits_def br_ok_def bits8_def bit_and_mask Let_def)
qed

text \<open>The value of a bit list, first bit highest.\<close>

fun bits_val :: "nat \<Rightarrow> bool list \<Rightarrow> nat" where
  "bits_val v [] = v"
| "bits_val v (b # bs) = bits_val ((2 * v + of_bool b) mod 65536) bs"

lemma shift_in_bits:
  "br_ok r \<Longrightarrow> br_bits r = bs @ rest \<Longrightarrow> length bs = n \<Longrightarrow>
   \<exists>r'. shift_in n v r = (bits_val v bs, r') \<and> br_ok r' \<and> br_bits r' = rest"
proof (induction n arbitrary: v r bs)
  case (Suc n)
  then obtain b bs' where b: "bs = b # bs'" "length bs' = n" by (cases bs) auto
  with get_bit_bits [OF Suc.prems(1)] Suc.prems(2) obtain r1 where
    "get_bit r = (b, r1)" "br_ok r1" "br_bits r1 = bs' @ rest" by auto
  with Suc.IH [OF this(2,3) b(2)] b show ?case by simp
qed simp

section \<open>The position codec is a prefix code\<close>

fun bval :: "bool list \<Rightarrow> nat" where
  "bval [] = 0"
| "bval (b # bs) = of_bool b * 2 ^ length bs + bval bs"

lemma bval_less: "bval bs < 2 ^ length bs"
  by (induction bs) (auto simp: of_bool_def)

lemma bval_append: "bval (xs @ ys) = bval xs * 2 ^ length ys + bval ys"
  by (induction xs) (auto simp: algebra_simps power_add)

lemma bits_val_bval:
  "v < 2 ^ m \<Longrightarrow> m + length bs \<le> 16 \<Longrightarrow> bits_val v bs = v * 2 ^ length bs + bval bs"
proof (induction bs arbitrary: v m)
  case (Cons b bs)
  have "2 * v + of_bool b < 2 ^ Suc m" using Cons.prems(1) by (auto simp: of_bool_def)
  moreover have "(2::nat) ^ Suc m \<le> 2 ^ 16"
    by (rule power_increasing) (use Cons.prems(2) in auto)
  ultimately have "(2 * v + of_bool b) mod 65536 = 2 * v + of_bool b" by simp
  with Cons.IH [OF \<open>2 * v + of_bool b < 2 ^ Suc m\<close>] Cons.prems(2) show ?case
    by (simp add: algebra_simps)
qed simp

lemma bval_top_bits: "n \<le> 16 \<Longrightarrow> bval (top_bits n w) = drop_bit (16 - n) (unat w)"
proof (induction n)
  case 0
  have "unat w < 2 ^ 16" using unsigned_less [of w] by simp
  then show ?case by (simp add: top_bits_def drop_bit_eq_div)
next
  case (Suc n)
  define k where "k = 15 - n"
  then have k: "16 - Suc n = k" "16 - n = Suc k" "15 - n = k" using Suc.prems by auto
  have "drop_bit k (unat w) = 2 * drop_bit (Suc k) (unat w) + of_bool (odd (drop_bit k (unat w)))"
    by (simp add: drop_bit_Suc drop_bit_half)
  moreover have "bit w k = odd (drop_bit k (unat w))"
    using Suc.prems k by (simp add: bit_iff_odd_drop_bit [symmetric] bit_unsigned_iff)
  ultimately show ?case
    using Suc k by (simp add: top_bits_def bval_append)
qed

text \<open>
  The block of lookahead bytes that the tables give to code \<open>i\<close> starts at \<open>p_code ! i\<close> and has
  \<open>2 ^ (8 - code_len ! i)\<close> bytes. The lengths \<^verbatim>\<open>p_len\<close> and \<^verbatim>\<open>d_len\<close> are the logarithms
  \<open>code_len\<close> of these blocks except for the codes 10 and 11, which have length 6 in blocks of
  eight bytes: the encoder and the decoder agree, but the code leaves half of the two blocks
  unused and is not the code that the blocks describe.
\<close>

definition code_len :: "nat list" where
  "code_len = p_len[10 := 5, 11 := 5]"

definition blocks :: "nat list" where
  "blocks = map (\<lambda>l. 2 ^ (8 - l)) code_len"

fun offsets :: "nat \<Rightarrow> nat list \<Rightarrow> nat list" where
  "offsets a [] = []"
| "offsets a (n # ns) = a # offsets (a + n) ns"

lemma length_offsets [simp]: "length (offsets a ns) = length ns"
  by (induction ns arbitrary: a) auto

lemma nth_blocks:
  "i < length ns \<Longrightarrow> length xs = length ns \<Longrightarrow> t < ns ! i \<Longrightarrow>
   a \<le> offsets a ns ! i \<and> concat (map2 replicate ns xs) ! (offsets a ns ! i - a + t) = xs ! i"
proof (induction ns arbitrary: i a xs)
  case (Cons n ns)
  then obtain x ys where xs: "xs = x # ys" by (cases xs) auto
  show ?case
  proof (cases i)
    case 0
    with Cons.prems xs show ?thesis by (simp add: nth_append)
  next
    case (Suc j)
    with Cons.IH [of j ys "a + n"] Cons.prems xs
    have *: "a + n \<le> offsets (a + n) ns ! j"
      "concat (map2 replicate ns ys) ! (offsets (a + n) ns ! j - (a + n) + t) = ys ! j" by auto
    then have "\<not> offsets (a + n) ns ! j - a + t < n"
      "offsets (a + n) ns ! j - a + t - n = offsets (a + n) ns ! j - (a + n) + t" by linarith+
    with * Suc xs show ?thesis by (simp add: nth_append)
  qed
qed simp

lemma length_tables [simp]: "length p_len = 64" "length p_code = 64" "length code_len = 64" "length blocks = 64"
  by (simp_all add: p_len_def p_code_def code_len_def blocks_def)

lemma code_len_range: "i < 64 \<Longrightarrow> 3 \<le> code_len ! i \<and> code_len ! i \<le> 8"
proof -
  assume "i < 64"
  moreover have "list_all (\<lambda>l. 3 \<le> l \<and> l \<le> 8) code_len" by (simp add: p_len_def code_len_def)
  ultimately show ?thesis by (simp add: list_all_length)
qed

lemma p_len_code_len: "i < 64 \<Longrightarrow> p_len ! i = code_len ! i \<longleftrightarrow> i \<noteq> 10 \<and> i \<noteq> 11"
proof -
  have "p_len ! 10 \<noteq> 5" "p_len ! 11 \<noteq> 5" by (simp_all add: p_len_def)
  moreover assume "i < 64"
  ultimately show ?thesis by (auto simp: code_len_def nth_list_update)
qed

lemma replicate_numeral: "replicate (numeral k) x = x # replicate (pred_numeral k) x"
  by (simp add: numeral_eq_Suc)

lemma p_code_offsets: "p_code = offsets 0 blocks"
  by (simp add: p_code_def blocks_def p_len_def code_len_def)

lemma d_code_blocks: "d_code = concat (map2 replicate blocks [0..<64])"
  by (simp add: d_code_def blocks_def p_len_def code_len_def upt_rec replicate_numeral)

lemma d_len_blocks: "d_len = concat (map2 replicate blocks p_len)"
  by (simp add: d_len_def blocks_def p_len_def code_len_def replicate_numeral)

lemma decoding_tables:
  assumes "i < 64" "t < 2 ^ (8 - code_len ! i)"
  shows "d_code ! (p_code ! i + t) = i" "d_len ! (p_code ! i + t) = p_len ! i"
  using nth_blocks [of i blocks "[0..<64]" t 0] nth_blocks [of i blocks p_len t 0] assms
  by (simp_all add: p_code_offsets d_code_blocks d_len_blocks) (simp_all add: blocks_def)

lemma p_len_range:
  assumes "i < 64"
  shows "3 \<le> p_len ! i \<and> p_len ! i \<le> 8 \<and> code_len ! i \<le> p_len ! i
    \<and> 2 ^ (8 - p_len ! i) dvd p_code ! i \<and> p_code ! i < 256"
proof -
  have "list_all (\<lambda>(l, c, p). 3 \<le> l \<and> l \<le> 8 \<and> c \<le> l \<and> p mod 2 ^ (8 - l) = 0 \<and> p < 256)
    (zip p_len (zip code_len p_code))"
    by (simp add: p_len_def code_len_def p_code_def)
  with assms show ?thesis
    by (auto simp: list_all_length dvd_eq_mod_eq_0)
qed

definition position_bits :: "nat \<Rightarrow> bool list" where
  "position_bits pos = top_bits (p_len ! (pos div 64)) (word_of_nat (p_code ! (pos div 64) * 256))
     @ top_bits 6 (word_of_nat (pos mod 64 * 1024))"

lemma length_top_bits [simp]: "length (top_bits n w) = n"
  by (simp add: top_bits_def)

lemma and_63: "(n::nat) AND 63 = n mod 64" and and_255: "n AND 255 = n mod 256"
proof -
  have "n AND mask 6 = take_bit 6 n" "n AND mask 8 = take_bit 8 n" by (simp_all only: take_bit_eq_mask)
  then show "n AND 63 = n mod 64" "n AND 255 = n mod 256"
    by (simp_all add: mask_eq_exp_minus_1 take_bit_eq_mod)
qed

lemma and_65535: "(n::nat) < 65536 \<Longrightarrow> n AND 65535 = n"
proof -
  have "n AND mask 16 = take_bit 16 n" by (simp only: take_bit_eq_mask)
  moreover assume "n < 65536"
  ultimately show ?thesis by (simp add: mask_eq_exp_minus_1 take_bit_eq_mod)
qed

lemma encode_position_bits:
  assumes "bw_ok w" "pos < 4096"
  shows "bw_ok (encode_position pos w) \<and> bw_bits (encode_position pos w) = bw_bits w @ position_bits pos"
proof -
  define i where "i = pos div 64"
  have i: "i < 64" "drop_bit 6 pos = i" using assms(2) by (auto simp: i_def drop_bit_eq_div)
  from p_len_range [OF i(1)] have l: "p_len ! i \<le> 16" and c: "p_code ! i * 256 < 65536" by simp_all
  have low: "pos mod 64 * 1024 < 65536" using pos_mod_bound [of 64 "int pos"] by simp
  let ?w1 = "put_code (p_len ! i) (word_of_nat (p_code ! i * 256)) w"
  have "encode_position pos w = put_code 6 (word_of_nat (pos mod 64 * 1024)) ?w1"
    using c low by (simp add: encode_position_def i(2) Let_def push_bit_eq_mult and_63 and_65535)
  with put_code_bits [OF assms(1) l, of "word_of_nat (p_code ! i * 256)"]
    put_code_bits [of ?w1 6 "word_of_nat (pos mod 64 * 1024)"]
  show ?thesis by (simp add: position_bits_def i_def)
qed

text \<open>The bits of a position, read as a number.\<close>

lemma bval_position:
  assumes "pos < 4096"
  shows "length (position_bits pos) = p_len ! (pos div 64) + 6"
    and "bval (position_bits pos)
         = p_code ! (pos div 64) div 2 ^ (8 - p_len ! (pos div 64)) * 64 + pos mod 64"
proof -
  define i where "i = pos div 64"
  have "i < 64" using assms by (simp add: i_def)
  from p_len_range [OF this] have l: "p_len ! i \<le> 8" "p_code ! i < 256" by simp_all
  have u: "unat (word_of_nat (p_code ! i * 256) :: 16 word) = p_code ! i * 256"
    "unat (word_of_nat (pos mod 64 * 1024) :: 16 word) = pos mod 64 * 1024"
    using l(2) mod_less_divisor [of 64 pos]
    by (simp_all only: unat_of_nat take_bit_eq_mod) (simp_all add: mod_less)
  have "(p_code ! i * 256) div 2 ^ (16 - p_len ! i) = p_code ! i div 2 ^ (8 - p_len ! i)"
  proof -
    have "(2::nat) ^ (16 - p_len ! i) = 2 ^ (8 - p_len ! i) * 256"
      using l(1) power_add [of "2::nat" "8 - p_len ! i" 8] by simp
    then show ?thesis by simp
  qed
  with l u show "bval (position_bits pos)
         = p_code ! (pos div 64) div 2 ^ (8 - p_len ! (pos div 64)) * 64 + pos mod 64"
    by (simp add: position_bits_def bval_append bval_top_bits drop_bit_eq_div i_def)
  show "length (position_bits pos) = p_len ! (pos div 64) + 6" by (simp add: position_bits_def)
qed

theorem decode_position_bits:
  assumes "br_ok r" "br_bits r = position_bits pos @ rest" "pos < 4096"
  shows "\<exists>r'. decode_position r = (pos, r') \<and> br_ok r' \<and> br_bits r' = rest"
proof -
  define i l where "i = pos div 64" and "l = p_len ! i"
  have i: "i < 64" using assms(3) by (simp add: i_def)
  from p_len_range [OF i] have l: "3 \<le> l" "l \<le> 8" "code_len ! i \<le> l" "p_code ! i < 256"
    "2 ^ (8 - l) dvd p_code ! i" by (simp_all add: l_def)
  define xs ys where "xs = take 8 (position_bits pos)" and "ys = drop 8 (position_bits pos)"
  have len: "length (position_bits pos) = l + 6" and val: "bval (position_bits pos)
      = p_code ! i div 2 ^ (8 - l) * 64 + pos mod 64"
    using bval_position [OF assms(3)] by (simp_all add: i_def l_def)
  then have lens: "length xs = 8" "length ys = l - 2" using l by (simp_all add: xs_def ys_def)
  have split: "position_bits pos = xs @ ys" by (simp add: xs_def ys_def)
  from shift_in_bits [OF assms(1) _ lens(1), of "ys @ rest" 0] assms(2) split obtain r1 where
    r1: "shift_in 8 0 r = (bits_val 0 xs, r1)" "br_ok r1" "br_bits r1 = ys @ rest" by auto
  from shift_in_bits [OF r1(2,3) lens(2)] obtain r2 where
    r2: "shift_in (l - 2) (bval xs) r1 = (bits_val (bval xs) ys, r2)" "br_ok r2" "br_bits r2 = rest"
    by blast
  have b0: "bits_val 0 xs = bval xs" and b1: "bval xs < 256"
    using bits_val_bval [of 0 0 xs] bval_less [of xs] lens(1) by simp_all
  have b2: "bits_val (bval xs) ys = bval (position_bits pos)"
    using bits_val_bval [of "bval xs" 8 ys] b1 lens(2) l(2) by (simp add: split bval_append)
  have "bval xs = (bval xs * 2 ^ (l - 2) + bval ys) div 2 ^ (l - 2)"
    using bval_less [of ys] lens(2) by simp
  also have "\<dots> = (p_code ! i div 2 ^ (8 - l) * 64 + pos mod 64) div 2 ^ (l - 2)"
    using val lens(2) by (simp add: split bval_append)
  also have "\<dots> = p_code ! i + pos mod 64 div 2 ^ (l - 2)"
  proof -
    have "(2::nat) ^ (8 - l) * 2 ^ (l - 2) = 64"
      using l by (simp add: power_add [symmetric])
    then have "p_code ! i div 2 ^ (8 - l) * 64 = p_code ! i * 2 ^ (l - 2)"
      using l(5) by (auto elim!: dvdE simp: mult_ac)
    then show ?thesis by simp
  qed
  finally have x: "bval xs = p_code ! i + pos mod 64 div 2 ^ (l - 2)" .
  have "pos mod 64 < 2 ^ (8 - l) * 2 ^ (l - 2)"
    using l by (simp add: power_add [symmetric])
  then have "pos mod 64 div 2 ^ (l - 2) < 2 ^ (8 - l)"
    by (simp add: less_mult_imp_div_less)
  also have "(2::nat) ^ (8 - l) \<le> 2 ^ (8 - code_len ! i)"
    using l by (intro power_increasing) auto
  finally have "d_code ! bval xs = i" "d_len ! bval xs = l"
    using decoding_tables [OF i] by (simp_all add: x l_def)
  moreover have "bval (position_bits pos) mod 64 = pos mod 64" by (simp add: val)
  moreover have "push_bit 6 i OR pos mod 64 = pos"
  proof -
    have "push_bit 6 (drop_bit 6 pos) OR take_bit 6 pos = pos"
      by (rule bit_eqI) (auto simp: bit_or_iff bit_push_bit_iff bit_drop_bit_eq bit_take_bit_iff possible_bit_def)
    then show ?thesis by (simp add: i_def drop_bit_eq_div take_bit_eq_mod)
  qed
  ultimately have "decode_position r = (pos, r2)"
    using r1(1) r2(1) b0 b1 b2 by (simp add: decode_position_def get_byte_def and_255 and_63)
  with r2 show ?thesis by blast
qed

end
