(* ===== verification/Lzhuf_Huff.thy ===== *)
theory Lzhuf_Huff
  imports Lzhuf_Bits
begin

text \<open>
  The adaptive Huffman tree of the LZHUF codec (class \<^verbatim>\<open>_Huff\<close> of src/src/web/lzhuf.py). The three
  arrays are functions from indices; \<open>huff_ok\<close> is the sibling property of the tree with the
  range of every index. It holds of the start tree, is kept by \<^verbatim>\<open>update\<close> and \<^verbatim>\<open>_reconst\<close>, makes
  every loop stop, and makes the bits of a character lead the decoder back to it. A loop
  that would not stop, or would leave the array, is None.
\<close>

section \<open>The tree and its operations\<close>

record huff =
  freq :: "nat \<Rightarrow> nat"
  prnt :: "nat \<Rightarrow> nat"
  son :: "nat \<Rightarrow> nat"

definition start_leaf :: "nat \<Rightarrow> huff \<Rightarrow> huff" where
  "start_leaf i h = h\<lparr>freq := (freq h)(i := 1), son := (son h)(i := i + LZ_T),
     prnt := (prnt h)(i + LZ_T := i)\<rparr>"

function start_inner :: "nat \<Rightarrow> nat \<Rightarrow> huff \<Rightarrow> huff" where
  "start_inner i j h =
     (if j \<le> LZ_R
      then start_inner (i + 2) (j + 1)
             (h\<lparr>freq := (freq h)(j := freq h i + freq h (i + 1)), son := (son h)(j := i),
                prnt := (prnt h)(i := j, i + 1 := j)\<rparr>)
      else h)"
  by pat_completeness auto
termination by (relation "measure (\<lambda>(i, j, h). LZ_T - j)") auto
declare start_inner.simps [simp del]

definition huff_start :: huff where
  "huff_start =
     (let z = \<lparr>freq = \<lambda>_. 0, prnt = \<lambda>_. 0, son = \<lambda>_. 0\<rparr>;
          h = start_inner 0 N_CHAR (fold start_leaf [0..<N_CHAR] z)
      in h\<lparr>freq := (freq h)(LZ_T := 0xFFFF), prnt := (prnt h)(LZ_R := 0)\<rparr>)"

text \<open>\<^verbatim>\<open>_reconst\<close>: the leaves with halved frequencies, the inner nodes inserted in order, the parents.\<close>

definition collect_leaf :: "nat \<Rightarrow> nat \<times> huff \<Rightarrow> nat \<times> huff" where
  "collect_leaf i = (\<lambda>(j, h).
     if LZ_T \<le> son h i
     then (j + 1, h\<lparr>freq := (freq h)(j := (freq h i + 1) div 2), son := (son h)(j := son h i)\<rparr>)
     else (j, h))"

primrec scan_down :: "(nat \<Rightarrow> nat) \<Rightarrow> nat \<Rightarrow> nat \<Rightarrow> nat option" where
  "scan_down fr f 0 = (if f < fr 0 then None else Some 0)"
| "scan_down fr f (Suc k) = (if f < fr (Suc k) then scan_down fr f k else Some (Suc k))"

definition shift_up :: "nat \<Rightarrow> nat \<Rightarrow> (nat \<Rightarrow> nat) \<Rightarrow> nat \<Rightarrow> nat" where
  "shift_up k j a = fold (\<lambda>m a. a(m := a (m - 1))) (rev [Suc k..<Suc j]) a"

function rebuild :: "nat \<Rightarrow> nat \<Rightarrow> huff \<Rightarrow> huff option" where
  "rebuild i j h =
     (if j < LZ_T
      then let f = freq h i + freq h (i + 1); fr = (freq h)(j := f) in
        (case scan_down fr f (j - 1) of None \<Rightarrow> None
         | Some k \<Rightarrow> rebuild (i + 2) (j + 1)
             (h\<lparr>freq := (shift_up (k + 1) j fr)(k + 1 := f),
                son := (shift_up (k + 1) j (son h))(k + 1 := i)\<rparr>))
      else Some h)"
  by pat_completeness auto
termination by (relation "measure (\<lambda>(i, j, h). LZ_T - j)") auto
declare rebuild.simps [simp del]

definition set_parent :: "(nat \<Rightarrow> nat) \<Rightarrow> nat \<Rightarrow> (nat \<Rightarrow> nat) \<Rightarrow> nat \<Rightarrow> nat" where
  "set_parent s i pr = (if LZ_T \<le> s i then pr(s i := i) else pr(s i := i, s i + 1 := i))"

definition reconst :: "huff \<Rightarrow> huff option" where
  "reconst h = (case fold collect_leaf [0..<LZ_T] (0, h) of (j, h) \<Rightarrow>
     (case rebuild 0 N_CHAR h of None \<Rightarrow> None
      | Some h \<Rightarrow> Some (h\<lparr>prnt := fold (set_parent (son h)) [0..<LZ_T] (prnt h)\<rparr>)))"

text \<open>\<^verbatim>\<open>update\<close>: one node of the climb, with the exchange when the order is disturbed.\<close>

partial_function (option) scan_up :: "(nat \<Rightarrow> nat) \<Rightarrow> nat \<Rightarrow> nat \<Rightarrow> nat option" where
  "scan_up fr k l = (if fr l < k then scan_up fr k (l + 1) else Some l)"
declare scan_up.simps [simp del]

definition exchange :: "nat \<Rightarrow> nat \<Rightarrow> nat \<Rightarrow> huff \<Rightarrow> huff" where
  "exchange c l k h =
     (let i = son h c; j = son h l;
          pr = (prnt h)(i := l); pr = (if i < LZ_T then pr(i + 1 := l) else pr);
          pr = pr(j := c); pr = (if j < LZ_T then pr(j + 1 := c) else pr)
      in h\<lparr>freq := (freq h)(c := freq h l, l := k), son := (son h)(l := i, c := j), prnt := pr\<rparr>)"

definition bump :: "nat \<Rightarrow> huff \<Rightarrow> (nat \<times> huff) option" where
  "bump c h =
     (let k = freq h c + 1; h = h\<lparr>freq := (freq h)(c := k)\<rparr> in
      if freq h (c + 1) < k
      then (case scan_up (freq h) k (c + 2) of None \<Rightarrow> None
            | Some l \<Rightarrow> let h = exchange c (l - 1) k h in Some (prnt h (l - 1), h))
      else Some (prnt h c, h))"

partial_function (option) climb :: "nat \<Rightarrow> huff \<Rightarrow> huff option" where
  "climb c h = (case bump c h of None \<Rightarrow> None
     | Some (c, h) \<Rightarrow> if c = 0 then Some h else climb c h)"
declare climb.simps [simp del]

definition huff_update :: "nat \<Rightarrow> huff \<Rightarrow> huff option" where
  "huff_update c h =
     (case if freq h LZ_R = MAX_FREQ then reconst h else Some h of None \<Rightarrow> None
      | Some h \<Rightarrow> climb (prnt h (c + LZ_T)) h)"

text \<open>From leaf to root, the bits on the way; from root to leaf along the stream.\<close>

partial_function (option) path_up :: "(nat \<Rightarrow> nat) \<Rightarrow> nat \<Rightarrow> bool list \<Rightarrow> bool list option" where
  "path_up pr k bits = (if k \<noteq> LZ_R then path_up pr (pr k) (bits @ [odd k]) else Some bits)"
declare path_up.simps [simp del]

definition encode_char :: "nat \<Rightarrow> huff \<times> bit_writer \<Rightarrow> (huff \<times> bit_writer) result option" where
  "encode_char c = (\<lambda>(h, w).
     case path_up (prnt h) (prnt h (c + LZ_T)) [] of None \<Rightarrow> None
     | Some bits \<Rightarrow>
         let code = foldl (\<lambda>code b. 2 * code + of_bool b) (0 :: nat) (rev bits); n = length bits in
         if 16 < n then Some (Inl (ValueError ''negative shift count''))
         else (case huff_update c h of None \<Rightarrow> None
               | Some h' \<Rightarrow> Some (Inr (h', put_code n (word_of_nat (push_bit (16 - n) code)) w))))"

partial_function (option) path_down :: "(nat \<Rightarrow> nat) \<Rightarrow> nat \<Rightarrow> bit_reader \<Rightarrow> (nat \<times> bit_reader) option" where
  "path_down s c r =
     (if c < LZ_T then (case get_bit r of (b, r) \<Rightarrow> path_down s (s (c + of_bool b)) r)
      else Some (c, r))"
declare path_down.simps [simp del]

definition decode_char :: "huff \<times> bit_reader \<Rightarrow> (nat \<times> huff \<times> bit_reader) option" where
  "decode_char = (\<lambda>(h, r). case path_down (son h) (son h LZ_R) r of None \<Rightarrow> None
     | Some (c, r) \<Rightarrow> (case huff_update (c - LZ_T) h of None \<Rightarrow> None
         | Some h \<Rightarrow> Some (c - LZ_T, h, r)))"

section \<open>The sibling property\<close>

definition tree_ok :: "(nat \<Rightarrow> nat) \<Rightarrow> (nat \<Rightarrow> nat) \<Rightarrow> bool" where
  "tree_ok pr s \<longleftrightarrow>
     (\<forall>i<LZ_T. s i < LZ_T \<longrightarrow> even (s i) \<and> s i + 1 < i \<and> pr (s i) = i \<and> pr (s i + 1) = i)
   \<and> (\<forall>i<LZ_T. LZ_T \<le> s i \<longrightarrow> s i < LZ_T + N_CHAR \<and> pr (s i) = i)
   \<and> (\<forall>c<N_CHAR. pr (c + LZ_T) < LZ_T \<and> s (pr (c + LZ_T)) = c + LZ_T)
   \<and> (\<forall>k<LZ_R. pr k < LZ_T \<and> s (pr k) = k - k mod 2)
   \<and> pr LZ_R = 0"

definition freq_ok :: "(nat \<Rightarrow> nat) \<Rightarrow> bool" where
  "freq_ok fr \<longleftrightarrow> (\<forall>i<LZ_T. 1 \<le> fr i \<and> fr i \<le> fr (i + 1)) \<and> fr LZ_T = 0xFFFF"

definition sum_at :: "(nat \<Rightarrow> nat) \<Rightarrow> (nat \<Rightarrow> nat) \<Rightarrow> nat \<Rightarrow> bool" where
  "sum_at fr s i \<longleftrightarrow> (s i < LZ_T \<longrightarrow> fr i = fr (s i) + fr (s i + 1))"

definition huff_ok :: "huff \<Rightarrow> bool" where
  "huff_ok h \<longleftrightarrow> tree_ok (prnt h) (son h) \<and> freq_ok (freq h)
     \<and> (\<forall>i<LZ_T. sum_at (freq h) (son h) i) \<and> freq h LZ_R \<le> MAX_FREQ"

lemma tree_child:
  assumes "tree_ok pr s" "i < LZ_T" "s i < LZ_T"
  shows "even (s i)" "s i + 1 < i" "pr (s i) = i" "pr (s i + 1) = i"
  using assms by (auto simp: tree_ok_def)

lemma tree_leaf:
  assumes "tree_ok pr s" "i < LZ_T" "LZ_T \<le> s i"
  shows "s i < LZ_T + N_CHAR" "pr (s i) = i"
  using assms by (auto simp: tree_ok_def)

lemma tree_char:
  assumes "tree_ok pr s" "c < N_CHAR"
  shows "pr (c + LZ_T) < LZ_T" "s (pr (c + LZ_T)) = c + LZ_T"
  using assms by (auto simp: tree_ok_def)

lemma tree_parent:
  assumes "tree_ok pr s" "k < LZ_R"
  shows "k < pr k" "pr k \<le> LZ_R" "s (pr k) = k - k mod 2" "s (pr k) < LZ_T"
proof -
  have p: "pr k < LZ_T" "s (pr k) = k - k mod 2" using assms by (auto simp: tree_ok_def)
  with assms(2) show "pr k \<le> LZ_R" "s (pr k) = k - k mod 2" "s (pr k) < LZ_T" by auto
  then have "s (pr k) + 1 < pr k" using tree_child(2) [OF assms(1) p(1)] by simp
  with p(2) show "k < pr k" by presburger
qed

lemma tree_root: "tree_ok pr s \<Longrightarrow> pr LZ_R = 0"
  by (simp add: tree_ok_def)

text \<open>A node is the first or the second child of its parent.\<close>

lemma parent_cases:
  assumes "tree_ok pr s" "k < LZ_R"
  shows "k = s (pr k) \<or> k = s (pr k) + 1" "s (pr k) + of_bool (odd k) = k"
  using tree_parent(3) [OF assms] by (auto simp: of_bool_def) presburger+

lemma freq_mono:
  assumes "freq_ok fr" "i \<le> j" "j \<le> LZ_T"
  shows "fr i \<le> fr j"
  using assms(2,3)
proof (induction j)
  case (Suc j)
  show ?case
  proof (cases "i = Suc j")
    case False
    with Suc have "fr i \<le> fr j" "j < LZ_T" by auto
    with assms(1) show ?thesis by (auto simp: freq_ok_def intro: le_trans)
  qed simp
qed simp

lemma freq_pos: "freq_ok fr \<Longrightarrow> i < LZ_T \<Longrightarrow> 1 \<le> fr i"
  by (simp add: freq_ok_def)

section \<open>The bits of a character\<close>

text \<open>
  From any node the walk to the root ends, and its bits, last one first, lead the decoder from
  the root back to the node.
\<close>

lemma path_round:
  assumes t: "tree_ok pr s" and "k \<le> LZ_R"
  shows "\<exists>bs. (\<forall>acc. path_up pr k acc = Some (acc @ bs))
    \<and> (pr ^^ length bs) k = LZ_R \<and> (\<forall>m<length bs. (pr ^^ m) k < LZ_R)
    \<and> (\<forall>r rest. br_ok r \<longrightarrow> br_bits r = rev bs @ rest \<longrightarrow>
         (\<exists>r'. br_ok r' \<and> br_bits r' = rest \<and> path_down s (s LZ_R) r = path_down s (s k) r'))"
  using assms(2)
proof (induction "LZ_R - k" arbitrary: k rule: less_induct)
  case less
  show ?case
  proof (cases "k = LZ_R")
    case True
    then show ?thesis by (intro exI [of _ "[]"]) (auto simp: path_up.simps)
  next
    case False
    then have k: "k < LZ_R" using less.prems by simp
    note p = tree_parent [OF t k]
    have "LZ_R - pr k < LZ_R - k" using p(1) k by simp
    from less.hyps [OF this p(2)] obtain bs where
      up: "path_up pr (pr k) acc = Some (acc @ bs)" and
      anc: "(pr ^^ length bs) (pr k) = LZ_R" "\<forall>m<length bs. (pr ^^ m) (pr k) < LZ_R" and
      down: "br_ok r \<Longrightarrow> br_bits r = rev bs @ rest \<Longrightarrow>
        \<exists>r'. br_ok r' \<and> br_bits r' = rest \<and> path_down s (s LZ_R) r = path_down s (s (pr k)) r'"
      for acc r rest by blast
    have "path_up pr k acc = Some (acc @ odd k # bs)" for acc
      using k up [of "acc @ [odd k]"] by (subst path_up.simps) simp
    moreover have "\<exists>r'. br_ok r' \<and> br_bits r' = rest \<and> path_down s (s LZ_R) r = path_down s (s k) r'"
      if r: "br_ok r" "br_bits r = rev (odd k # bs) @ rest" for r rest
    proof -
      from down [OF r(1), of "odd k # rest"] r(2) obtain r1 where
        r1: "br_ok r1" "br_bits r1 = odd k # rest"
        "path_down s (s LZ_R) r = path_down s (s (pr k)) r1" by auto
      from get_bit_bits [OF r1(1,2)] obtain r2 where
        r2: "get_bit r1 = (odd k, r2)" "br_ok r2" "br_bits r2 = rest" by blast
      have "path_down s (s (pr k)) r1 = path_down s (s k) r2"
        using p(4) r2(1) parent_cases(2) [OF t k] by (subst path_down.simps) simp
      with r1(3) r2 show ?thesis by auto
    qed
    moreover have "(pr ^^ length (odd k # bs)) k = LZ_R"
      using anc(1) by (simp add: funpow_swap1)
    moreover have "(pr ^^ m) k < LZ_R" if "m < length (odd k # bs)" for m
      using that anc(2) k by (cases m) (simp_all add: funpow_swap1)
    ultimately show ?thesis by (intro exI [of _ "odd k # bs"]) blast
  qed
qed

text \<open>
  A node \<open>n\<close> levels below the root needs a root weight of a Fibonacci number: the sibling of the
  node on the way weighs at least as much as the node below.
\<close>

fun depth_weight :: "nat \<Rightarrow> nat" where
  "depth_weight 0 = 1"
| "depth_weight (Suc 0) = 2"
| "depth_weight (Suc (Suc n)) = depth_weight (Suc n) + depth_weight n"

lemma freq_at_depth:
  assumes t: "tree_ok pr s" and f: "freq_ok fr" and sums: "\<forall>i<LZ_T. sum_at fr s i" and "k < LZ_T"
    and below: "\<forall>m<n. (pr ^^ m) k < LZ_R"
  shows "depth_weight n \<le> fr ((pr ^^ n) k)"
  using below
proof (induction n rule: depth_weight.induct)
  case 1
  show ?case using freq_pos [OF f assms(4)] by simp
next
  case 2
  then have k: "k < LZ_R" by simp
  note p = tree_parent [OF t k] parent_cases(1) [OF t k]
  have "sum_at fr s (pr k)" using sums p by simp
  moreover have "1 \<le> fr (s (pr k))" "1 \<le> fr (s (pr k) + 1)"
    using freq_pos [OF f, of "s (pr k)"] freq_pos [OF f, of "s (pr k) + 1"] p k by auto
  ultimately show ?case using p by (simp add: sum_at_def)
next
  case (3 n)
  define a b where "a = (pr ^^ n) k" and "b = pr a"
  have ab: "a < LZ_R" "b < LZ_R" "(pr ^^ Suc n) k = b" "(pr ^^ Suc (Suc n)) k = pr b"
    using 3(3) by (auto simp: a_def b_def elim: allE [of _ "Suc n"])
  note p = tree_parent [OF t ab(2)] parent_cases [OF t ab(2)]
  have "a < b" using tree_parent(1) [OF t ab(1)] by (simp add: b_def)
  then have "a \<le> s (pr b)" "a \<le> s (pr b) + 1" using p by auto
  moreover have "s (pr b) + 1 < LZ_T" using p by auto
  ultimately have "fr a \<le> fr (s (pr b))" "fr a \<le> fr (s (pr b) + 1)"
    by (auto intro!: freq_mono [OF f])
  moreover have "fr (pr b) = fr (s (pr b)) + fr (s (pr b) + 1)"
    using sums p by (simp add: sum_at_def)
  moreover have "depth_weight n \<le> fr a" "depth_weight (Suc n) \<le> fr b"
    using 3(1,2) 3(3) ab(3) by (auto simp: a_def)
  ultimately show ?case using ab(4) p(5) by auto
qed


section \<open>Updating keeps the sibling property\<close>

lemma scan_up_finds:
  assumes "l \<le> m" "k \<le> fr m"
  shows "\<exists>n. scan_up fr k l = Some n \<and> l \<le> n \<and> n \<le> m \<and> k \<le> fr n \<and> (\<forall>i. l \<le> i \<longrightarrow> i < n \<longrightarrow> fr i < k)"
  using assms
proof (induction "m - l" arbitrary: l rule: less_induct)
  case less
  show ?case
  proof (cases "fr l < k")
    case True
    then have "l \<noteq> m" using less.prems by auto
    then have "m - (l + 1) < m - l" "l + 1 \<le> m" using less.prems by auto
    from less.hyps [OF this less.prems(2)] obtain n where
      n: "scan_up fr k (l + 1) = Some n" "l + 1 \<le> n" "n \<le> m" "k \<le> fr n"
      "\<forall>i. l + 1 \<le> i \<longrightarrow> i < n \<longrightarrow> fr i < k" by blast
    have "fr i < k" if "l \<le> i" "i < n" for i
      using that True n(5) by (cases "i = l") auto
    with n True show ?thesis by (subst scan_up.simps) auto
  next
    case False
    with less.prems show ?thesis by (subst scan_up.simps) auto
  qed
qed

text \<open>In the middle of a climb: the node \<open>c\<close> is still to be incremented, everything else is in order.\<close>

definition climb_ok :: "nat \<Rightarrow> huff \<Rightarrow> bool" where
  "climb_ok c h \<longleftrightarrow> tree_ok (prnt h) (son h) \<and> freq_ok (freq h) \<and> c < LZ_T
     \<and> (\<forall>i<LZ_T. i \<noteq> c \<longrightarrow> sum_at (freq h) (son h) i)
     \<and> (son h c < LZ_T \<longrightarrow> freq h c + 1 = freq h (son h c) + freq h (son h c + 1))
     \<and> freq h LZ_R < MAX_FREQ"

text \<open>Exchanging two subtrees, neither below the other.\<close>

lemma exchange_tree:
  assumes t: "tree_ok (prnt h) (son h)" and "c < l" "l < LZ_R"
    and below: "son h l < LZ_T \<Longrightarrow> son h l + 1 < c"
  shows "tree_ok (prnt (exchange c l k h)) (son (exchange c l k h))"
    and "prnt (exchange c l k h) l = prnt h l"
proof -
  define i j where "i = son h c" and "j = son h l"
  let ?s = "(son h)(l := i, c := j)" and ?p = "prnt (exchange c l k h)"
  have p: "?p x = (if x = j \<or> x = j + 1 \<and> j < LZ_T then c
      else if x = i \<or> x = i + 1 \<and> i < LZ_T then l else prnt h x)" for x
    by (auto simp: exchange_def i_def j_def Let_def)
  have s: "son (exchange c l k h) = ?s" by (simp add: exchange_def i_def j_def Let_def)
  have i: "i < LZ_T \<Longrightarrow> even i \<and> i + 1 < c \<and> prnt h i = c \<and> prnt h (i + 1) = c"
    "LZ_T \<le> i \<Longrightarrow> i < LZ_T + N_CHAR \<and> prnt h i = c"
    using tree_child [OF t, of c] tree_leaf [OF t, of c] assms(2,3) by (auto simp: i_def)
  have j: "j < LZ_T \<Longrightarrow> even j \<and> j + 1 < c \<and> prnt h j = l \<and> prnt h (j + 1) = l"
    "LZ_T \<le> j \<Longrightarrow> j < LZ_T + N_CHAR \<and> prnt h j = l"
    using tree_child [OF t, of l] tree_leaf [OF t, of l] assms(2,3) below by (auto simp: j_def)
  have ij: "i \<noteq> j" using i j assms(2) by (cases "i < LZ_T"; cases "j < LZ_T") auto
  have lp: "?p l = prnt h l" using i j assms(2,3) by (auto simp: p)
  then show "prnt (exchange c l k h) l = prnt h l" .
  have pj: "?p j = c" "j < LZ_T \<Longrightarrow> ?p (j + 1) = c" by (simp_all add: p)
  have ij2: "j < LZ_T \<Longrightarrow> i \<noteq> j + 1" "i < LZ_T \<Longrightarrow> i + 1 \<noteq> j"
  proof -
    show "i \<noteq> j + 1" if "j < LZ_T"
    proof
      assume "i = j + 1"
      then have "i < LZ_T" using j(1) that assms(2,3) by simp
      with i(1) j(1) that \<open>i = j + 1\<close> show False by simp
    qed
    show "i + 1 \<noteq> j" if "i < LZ_T"
    proof
      assume "i + 1 = j"
      then have "j < LZ_T" using i(1) that assms(2,3) by simp
      with i(1) j(1) that \<open>i + 1 = j\<close> [symmetric] show False by simp
    qed
  qed
  have pi: "?p i = l" "i < LZ_T \<Longrightarrow> ?p (i + 1) = l"
    unfolding p using ij ij2 by auto
  have po: "?p x = prnt h x" if "prnt h x \<noteq> c" "prnt h x \<noteq> l" for x
  proof -
    have "prnt h j = l" "j < LZ_T \<Longrightarrow> prnt h (j + 1) = l" "prnt h i = c" "i < LZ_T \<Longrightarrow> prnt h (i + 1) = c"
      using i j by (meson linorder_not_less)+
    with that show ?thesis unfolding p by metis
  qed
  have sc: "?s c = j" "?s l = i" using assms(2) by auto
  have so: "?s x = son h x" if "x \<noteq> c" "x \<noteq> l" for x using that by simp
  have "tree_ok ?p ?s"
    unfolding tree_ok_def
  proof (intro conjI allI impI)
    fix x assume x: "x < LZ_T" "?s x < LZ_T"
    have "even (?s x) \<and> ?s x + 1 < x \<and> ?p (?s x) = x \<and> ?p (?s x + 1) = x"
    proof -
      consider "x = c" | "x = l" | "x \<noteq> c" "x \<noteq> l" by blast
      then show ?thesis
      proof cases
        case 1 with x(2) j(1) pj assms(2) show ?thesis by simp
      next
        case 2 with x(2) i(1) pi assms(2) show ?thesis by simp
      next
        case 3
        with x(2) have "son h x < LZ_T" by simp
        from tree_child [OF t x(1) this] po [of "son h x"] po [of "son h x + 1"] 3
        show ?thesis by simp
      qed
    qed
    then show "even (?s x)" "?s x + 1 < x" "?p (?s x) = x" "?p (?s x + 1) = x" by simp_all
  next
    fix x assume x: "x < LZ_T" "LZ_T \<le> ?s x"
    have "?s x < LZ_T + N_CHAR \<and> ?p (?s x) = x"
    proof -
      consider "x = c" | "x = l" | "x \<noteq> c" "x \<noteq> l" by blast
      then show ?thesis
      proof cases
        case 1 with x(2) j(2) pj assms(2) show ?thesis by simp
      next
        case 2 with x(2) i(2) pi assms(2) show ?thesis by simp
      next
        case 3
        with x(2) have "LZ_T \<le> son h x" by simp
        from tree_leaf [OF t x(1) this] po [of "son h x"] 3 show ?thesis by simp
      qed
    qed
    then show "?s x < LZ_T + N_CHAR" "?p (?s x) = x" by simp_all
  next
    fix a assume "a < N_CHAR"
    note q = tree_char [OF t this]
    have "?p (a + LZ_T) < LZ_T \<and> ?s (?p (a + LZ_T)) = a + LZ_T"
    proof -
      consider "prnt h (a + LZ_T) = c" | "prnt h (a + LZ_T) = l"
        | "prnt h (a + LZ_T) \<noteq> c" "prnt h (a + LZ_T) \<noteq> l" by blast
      then show ?thesis
      proof cases
        case 1 with q(2) have "a + LZ_T = i" by (simp add: i_def)
        with pi(1) sc assms(3) show ?thesis by simp
      next
        case 2 with q(2) have "a + LZ_T = j" by (simp add: j_def)
        with pj(1) sc assms(2,3) show ?thesis by simp
      next
        case 3 with q po [of "a + LZ_T"] show ?thesis by simp
      qed
    qed
    then show "?p (a + LZ_T) < LZ_T" "?s (?p (a + LZ_T)) = a + LZ_T" by simp_all
  next
    fix x assume x: "x < LZ_R"
    note q = tree_parent [OF t x] parent_cases(1) [OF t x]
    have "?p x < LZ_T \<and> ?s (?p x) = x - x mod 2"
    proof -
      consider "prnt h x = c" | "prnt h x = l" | "prnt h x \<noteq> c" "prnt h x \<noteq> l" by blast
      then show ?thesis
      proof cases
        case 1 with q have "i = x - x mod 2" "i < LZ_T" "x = i \<or> x = i + 1" by (auto simp: i_def)
        with pi sc assms(3) show ?thesis by auto
      next
        case 2 with q have "j = x - x mod 2" "j < LZ_T" "x = j \<or> x = j + 1" by (auto simp: j_def)
        with pj sc assms(2,3) show ?thesis by auto
      next
        case 3 with q po [of x] show ?thesis by simp
      qed
    qed
    then show "?p x < LZ_T" "?s (?p x) = x - x mod 2" by simp_all
  next
    show "?p LZ_R = 0" using i j tree_root [OF t] assms(2,3) by (auto simp: p)
  qed
  then show "tree_ok (prnt (exchange c l k h)) (son (exchange c l k h))" by (simp only: s)
qed

text \<open>A climbing step without exchange, seen from the node it leaves.\<close>

lemma climb_next:
  assumes t: "tree_ok (prnt h) (son h)" and f: "freq_ok (freq h)" and l: "l < LZ_T"
    and sums: "\<forall>i<LZ_T. i \<noteq> prnt h l \<or> l = LZ_R \<longrightarrow> sum_at (freq h) (son h) i"
    and up: "l \<noteq> LZ_R \<Longrightarrow> freq h (prnt h l) + 1 = freq h (son h (prnt h l)) + freq h (son h (prnt h l) + 1)"
    and top: "freq h LZ_R \<le> MAX_FREQ" "l \<noteq> LZ_R \<Longrightarrow> freq h LZ_R < MAX_FREQ"
  shows "if prnt h l = 0 then huff_ok h else l < prnt h l \<and> climb_ok (prnt h l) h"
proof (cases "l = LZ_R")
  case True
  with tree_root [OF t] t f sums top(1) show ?thesis by (auto simp: huff_ok_def)
next
  case False
  with l have "l < LZ_R" by simp
  note p = tree_parent [OF t this]
  with False sums up top(2) t f show ?thesis by (auto simp: climb_ok_def)
qed

lemma bump_ok:
  assumes "climb_ok c h"
  shows "\<exists>c' h'. bump c h = Some (c', h') \<and> freq h' LZ_R = freq h LZ_R + of_bool (c' = 0)
    \<and> (if c' = 0 then huff_ok h' else c < c' \<and> climb_ok c' h')"
proof -
  have t: "tree_ok (prnt h) (son h)" and f: "freq_ok (freq h)" and c: "c < LZ_T"
    and sums: "\<And>i. i < LZ_T \<Longrightarrow> i \<noteq> c \<Longrightarrow> sum_at (freq h) (son h) i"
    and pend: "son h c < LZ_T \<Longrightarrow> freq h c + 1 = freq h (son h c) + freq h (son h c + 1)"
    and top: "freq h LZ_R < MAX_FREQ"
    using assms by (auto simp: climb_ok_def)
  define k where "k = freq h c + 1"
  let ?h1 = "h\<lparr>freq := (freq h)(c := k)\<rparr>"
  have kmax: "k \<le> MAX_FREQ" using freq_mono [OF f, of c LZ_R] top c by (simp add: k_def)
  show ?thesis
  proof (cases "freq h (c + 1) < k")
    case False
    have f1: "freq_ok (freq ?h1)"
      using f False c by (auto simp: freq_ok_def k_def le_SucI)
    have down: "x < c" if "i < LZ_T" "son h i < LZ_T" "x = son h i \<or> x = son h i + 1" "i \<le> c" for i x
      using tree_child(2) [OF t that(1,2)] that(3,4) by auto
    have sum1: "sum_at (freq ?h1) (son ?h1) i" if "i < LZ_T" "i \<noteq> prnt h c \<or> c = LZ_R" for i
    proof (cases "i = c")
      case True
      have "c \<noteq> son h c" "c \<noteq> son h c + 1" if "son h c < LZ_T" using down [OF c that] by blast+
      with True pend show ?thesis by (auto simp: sum_at_def k_def)
    next
      case False
      have "c \<noteq> son h i \<and> c \<noteq> son h i + 1" if s: "son h i < LZ_T"
        using tree_child [OF t \<open>i < LZ_T\<close> s] \<open>i \<noteq> prnt h c \<or> c = LZ_R\<close> \<open>i < LZ_T\<close> by auto
      with sums [OF \<open>i < LZ_T\<close> False] False show ?thesis by (auto simp: sum_at_def)
    qed
    have up1: "freq ?h1 (prnt h c) + 1 = freq ?h1 (son h (prnt h c)) + freq ?h1 (son h (prnt h c) + 1)"
      if "c \<noteq> LZ_R"
    proof -
      from that c have "c < LZ_R" by simp
      note p = tree_parent [OF t this] parent_cases(1) [OF t this]
      have "sum_at (freq h) (son h) (prnt h c)" using p by (intro sums) auto
      with p show ?thesis by (auto simp: sum_at_def k_def)
    qed
    have "if prnt ?h1 c = 0 then huff_ok ?h1 else c < prnt ?h1 c \<and> climb_ok (prnt ?h1 c) ?h1"
    proof (rule climb_next)
      show "tree_ok (prnt ?h1) (son ?h1)" "freq_ok (freq ?h1)" "c < LZ_T" using t f1 c by simp_all
      show "\<forall>i<LZ_T. i \<noteq> prnt ?h1 c \<or> c = LZ_R \<longrightarrow> sum_at (freq ?h1) (son ?h1) i" using sum1 by simp
      show "freq ?h1 LZ_R \<le> MAX_FREQ" "c \<noteq> LZ_R \<Longrightarrow> freq ?h1 LZ_R < MAX_FREQ" using top kmax by auto
    qed (use up1 in simp)
    moreover have "(prnt h c = 0) = (c = LZ_R)"
      using tree_root [OF t] tree_parent(1) [OF t, of c] c by (cases "c = LZ_R") auto
    moreover have "bump c h = Some (prnt h c, ?h1)"
      using False by (simp add: bump_def k_def Let_def)
    ultimately show ?thesis by (auto simp: k_def)
  next
    case True
    then have same: "freq h (c + 1) = freq h c" using f c by (auto simp: freq_ok_def k_def)
    have "c \<noteq> LZ_R" using True kmax f by (auto simp: freq_ok_def)
    then have cR: "c < LZ_R" using c by simp
    have "k \<le> ((freq h)(c := k)) LZ_T" using kmax f c by (simp add: freq_ok_def)
    with scan_up_finds [of "c + 2" LZ_T k "(freq h)(c := k)"] cR obtain n where
      n: "scan_up ((freq h)(c := k)) k (c + 2) = Some n" "c + 2 \<le> n" "n \<le> LZ_T" "k \<le> freq h n"
        "\<forall>i. c + 2 \<le> i \<longrightarrow> i < n \<longrightarrow> freq h i < k" by auto
    define l where "l = n - 1"
    have l: "c < l" "l < LZ_T" "n = l + 1" using n(2,3) by (auto simp: l_def)
    have eq: "freq h i = freq h c" if "c \<le> i" "i \<le> l" for i
    proof -
      have "freq h i < k" using that n(5) True l(3) by (cases "i = c \<or> i = c + 1") (auto simp: k_def)
      moreover have "freq h c \<le> freq h i" using that l by (intro freq_mono [OF f]) auto
      ultimately show ?thesis by (simp add: k_def)
    qed
    have "l \<noteq> LZ_R"
    proof
      assume lR: "l = LZ_R"
      have "sum_at (freq h) (son h) LZ_R" using sums cR by simp
      moreover have "son h LZ_R = 624"
      proof -
        have "prnt h 625 = LZ_R" using tree_parent(1,2) [OF t, of 625] by simp
        with tree_parent(3) [OF t, of 625] show ?thesis by simp
      qed
      ultimately have "freq h LZ_R = freq h 624 + freq h 625" by (simp add: sum_at_def)
      moreover have "1 \<le> freq h 624" by (rule freq_pos [OF f]) simp
      moreover have "freq h c \<le> freq h 625" using cR by (intro freq_mono [OF f]) auto
      ultimately show False using eq [of LZ_R] lR l(1) by simp
    qed
    then have lR: "l < LZ_R" using l(2) by simp
    have below: "son h l + 1 < c" if "son h l < LZ_T"
    proof (rule ccontr)
      assume "\<not> son h l + 1 < c"
      moreover have "son h l + 1 < l" using tree_child(2) [OF t l(2) that] .
      ultimately have "freq h (son h l + 1) = freq h c" by (intro eq) auto
      moreover have "freq h l = freq h (son h l) + freq h (son h l + 1)"
        using sums [OF l(2)] l(1) that by (simp add: sum_at_def)
      moreover have "1 \<le> freq h (son h l)" by (rule freq_pos [OF f that])
      ultimately show False using eq [of l] l(1) by simp
    qed
    define h2 where "h2 = exchange c l k ?h1"
    have ex: "h2 = (exchange c l k h)\<lparr>freq := (freq h)(l := k)\<rparr>"
      using eq [of l] l(1) by (auto simp: h2_def exchange_def Let_def fun_eq_iff)
    note tt = exchange_tree [OF t l(1) lR below, of k]
    have t2: "tree_ok (prnt h2) (son h2)" and p2: "prnt h2 l = prnt h l"
      and s2: "son h2 = (son h)(l := son h c, c := son h l)" and fr2: "freq h2 = (freq h)(l := k)"
      using tt by (simp_all add: ex) (simp add: exchange_def Let_def)
    have f2: "freq_ok (freq h2)"
      unfolding freq_ok_def fr2
    proof (intro conjI allI impI)
      fix i assume i: "i < LZ_T"
      have "freq h i \<le> k" if "i \<le> l" using freq_mono [OF f that] eq [of l] l by (simp add: k_def)
      moreover have "1 \<le> freq h i" "freq h i \<le> freq h (i + 1)" using i f by (auto simp: freq_ok_def)
      ultimately show "1 \<le> ((freq h)(l := k)) i" "((freq h)(l := k)) i \<le> ((freq h)(l := k)) (i + 1)"
        using n(4) l(3) by (auto simp: k_def)
    qed (use f l(2) in \<open>auto simp: freq_ok_def\<close>)
    have sum2: "sum_at (freq h2) (son h2) i" if i: "i < LZ_T" "i \<noteq> prnt h l" for i
    proof -
      consider "i = l" | "i = c" | "i \<noteq> l" "i \<noteq> c" by blast
      then show ?thesis
      proof cases
        case 1
        have "l \<noteq> son h c \<and> l \<noteq> son h c + 1" if "son h c < LZ_T"
          using tree_child(2) [OF t c that] l(1) by auto
        with 1 pend l(1) show ?thesis by (auto simp: sum_at_def s2 fr2 k_def)
      next
        case 2
        have "freq h2 (son h l) = freq h (son h l) \<and> freq h2 (son h l + 1) = freq h (son h l + 1)"
          if "son h l < LZ_T"
          using tree_child(2) [OF t l(2) that] by (auto simp: fr2)
        moreover have "freq h c = freq h l" using eq [of l] l(1) by simp
        moreover have "son h l < LZ_T \<longrightarrow> freq h l = freq h (son h l) + freq h (son h l + 1)"
          using sums [OF l(2)] l(1) by (simp add: sum_at_def)
        moreover have "son h2 c = son h l" "freq h2 c = freq h c" using l(1) by (simp_all add: s2 fr2)
        ultimately show ?thesis unfolding 2 sum_at_def by (metis (no_types))
      next
        case 3
        have "l \<noteq> son h i \<and> l \<noteq> son h i + 1" if "son h i < LZ_T"
          using tree_child(3,4) [OF t i(1) that] i(2) by auto
        with 3 sums [OF i(1)] show ?thesis by (auto simp: sum_at_def s2 fr2)
      qed
    qed
    note p = tree_parent [OF t lR] parent_cases(1) [OF t lR]
    have up2: "freq h2 (prnt h2 l) + 1 = freq h2 (son h2 (prnt h2 l)) + freq h2 (son h2 (prnt h2 l) + 1)"
    proof -
      have "sum_at (freq h) (son h) (prnt h l)" using p l(1) by (intro sums) auto
      moreover have "prnt h l \<noteq> l" "prnt h l \<noteq> c" using p l(1) by auto
      ultimately show ?thesis using p eq [of l] l(1) by (auto simp: p2 s2 fr2 sum_at_def k_def)
    qed
    have "if prnt h2 l = 0 then huff_ok h2 else l < prnt h2 l \<and> climb_ok (prnt h2 l) h2"
    proof (rule climb_next)
      show "\<forall>i<LZ_T. i \<noteq> prnt h2 l \<or> l = LZ_R \<longrightarrow> sum_at (freq h2) (son h2) i"
        using sum2 lR by (auto simp: p2)
      show "freq h2 LZ_R \<le> MAX_FREQ" "l \<noteq> LZ_R \<Longrightarrow> freq h2 LZ_R < MAX_FREQ" using top lR by (auto simp: fr2)
    qed (use t2 f2 l(2) up2 in auto)
    moreover have "bump c h = Some (prnt h2 l, h2)"
      unfolding bump_def Let_def k_def [symmetric] using True n(1) l(1) by (simp add: h2_def l_def)
    moreover have "freq h2 LZ_R = freq h LZ_R" "prnt h2 l \<noteq> 0" using lR p by (auto simp: fr2 p2)
    ultimately show ?thesis using l(1) by auto
  qed
qed

lemma climb_total:
  "climb_ok c h \<Longrightarrow> \<exists>h'. climb c h = Some h' \<and> huff_ok h' \<and> freq h' LZ_R = freq h LZ_R + 1"
proof (induction "LZ_T - c" arbitrary: c h rule: less_induct)
  case less
  obtain c' h' where b: "bump c h = Some (c', h')" "freq h' LZ_R = freq h LZ_R + of_bool (c' = 0)"
    and nxt: "if c' = 0 then huff_ok h' else c < c' \<and> climb_ok c' h'"
    using bump_ok [OF less.prems] by blast
  show ?case
  proof (cases "c' = 0")
    case True
    with b nxt show ?thesis by (subst climb.simps) simp
  next
    case False
    with nxt have "LZ_T - c' < LZ_T - c" "climb_ok c' h'" by (auto simp: climb_ok_def)
    from less.hyps [OF this] b False show ?thesis by (subst climb.simps) simp
  qed
qed

text \<open>The root carries the weight of the leaves.\<close>

lemma root_weight:
  assumes t: "tree_ok pr s" and sums: "\<forall>i<LZ_T. sum_at fr s i"
  shows "fr LZ_R = (\<Sum>i\<in>{i. i < LZ_T \<and> LZ_T \<le> s i}. fr i)"
proof -
  define I L where "I = {i. i < LZ_T \<and> s i < LZ_T}" and "L = {i. i < LZ_T \<and> LZ_T \<le> s i}"
  have fin: "finite I" "finite L" by (simp_all add: I_def L_def)
  have fiber: "{k \<in> {..<LZ_R}. pr k = i} = {s i, s i + 1}" if "i \<in> I" for i
  proof -
    have i: "i < LZ_T" "s i < LZ_T" using that by (auto simp: I_def)
    note c = tree_child [OF t i]
    have "k = s i \<or> k = s i + 1" if "k < LZ_R" "pr k = i" for k
      using parent_cases(1) [OF t that(1)] that(2) by simp
    with c i(1) show ?thesis by auto
  qed
  have "pr ` {..<LZ_R} \<subseteq> I" using tree_parent [OF t] by (fastforce simp: I_def)
  then have "(\<Sum>k<LZ_R. fr k) = (\<Sum>i\<in>I. \<Sum>k\<in>{k \<in> {..<LZ_R}. pr k = i}. fr k)"
    using fin by (intro sum.group [symmetric]) auto
  also have "\<dots> = (\<Sum>i\<in>I. fr i)"
    using fiber sums by (intro sum.cong) (auto simp: I_def sum_at_def)
  finally have inner: "(\<Sum>k<LZ_R. fr k) = (\<Sum>i\<in>I. fr i)" .
  have "{..<LZ_T} = I \<union> L" "I \<inter> L = {}" by (auto simp: I_def L_def)
  then have "(\<Sum>k<LZ_T. fr k) = (\<Sum>i\<in>I. fr i) + (\<Sum>i\<in>L. fr i)"
    using fin by (simp add: sum.union_disjoint)
  moreover have "(\<Sum>k<LZ_T. fr k) = (\<Sum>k<LZ_R. fr k) + fr LZ_R"
    using sum.lessThan_Suc [of fr LZ_R] by simp
  ultimately show ?thesis using inner by (simp add: L_def)
qed

text \<open>There are as many leaves as characters.\<close>

lemma leaf_sons:
  assumes t: "tree_ok pr s"
  shows "inj_on s {i. i < LZ_T \<and> LZ_T \<le> s i}"
    and "s ` {i. i < LZ_T \<and> LZ_T \<le> s i} = {LZ_T..<LZ_T + N_CHAR}"
    and "card {i. i < LZ_T \<and> LZ_T \<le> s i} = N_CHAR"
proof -
  let ?L = "{i. i < LZ_T \<and> LZ_T \<le> s i}"
  show inj: "inj_on s ?L" by (rule inj_on_inverseI [of _ pr]) (use tree_leaf [OF t] in auto)
  show im: "s ` ?L = {LZ_T..<LZ_T + N_CHAR}"
  proof (intro equalityI subsetI)
    fix x assume "x \<in> {LZ_T..<LZ_T + N_CHAR}"
    then have c: "x - LZ_T < N_CHAR" "x - LZ_T + LZ_T = x" "LZ_T \<le> x" by auto
    with tree_char [OF t c(1)] have "pr x \<in> ?L" "s (pr x) = x" by auto
    then show "x \<in> s ` ?L" by (metis imageI)
  qed (use tree_leaf [OF t] in auto)
  show "card ?L = N_CHAR" using card_image [OF inj] im by simp
qed

end
