(* ===== verification/Lzhuf_Reconst.thy ===== *)
theory Lzhuf_Reconst
  imports Lzhuf_Huff
begin

text \<open>
  The start tree and the rebuilding of the tree at the frequency limit (\<^verbatim>\<open>_start\<close> and
  \<^verbatim>\<open>_reconst\<close> of src/src/web/lzhuf.py) establish the sibling property; with that every
  \<^verbatim>\<open>update\<close> returns and keeps it, and a character that is written is read back.
\<close>

section \<open>The start tree\<close>

lemma start_leaves:
  "n \<le> N_CHAR \<Longrightarrow> fold start_leaf [0..<n] \<lparr>freq = \<lambda>_. 0, prnt = \<lambda>_. 0, son = \<lambda>_. 0\<rparr>
   = \<lparr>freq = \<lambda>i. of_bool (i < n), prnt = \<lambda>x. if LZ_T \<le> x \<and> x < LZ_T + n then x - LZ_T else 0,
      son = \<lambda>i. if i < n then i + LZ_T else 0\<rparr>"
proof (induction n)
  case (Suc n)
  then show ?case by (auto simp: start_leaf_def fun_eq_iff)
qed (auto simp: fun_eq_iff)

text \<open>The inner nodes up to \<open>j = N_CHAR + m\<close> are in place.\<close>

definition started :: "nat \<Rightarrow> huff \<Rightarrow> bool" where
  "started m h \<longleftrightarrow> m \<le> 313
     \<and> (\<forall>x<N_CHAR + m. 1 \<le> freq h x \<and> (0 < x \<longrightarrow> freq h (x - 1) \<le> freq h x))
     \<and> (\<forall>x<N_CHAR. son h x = x + LZ_T \<and> freq h x = 1)
     \<and> (\<forall>x. N_CHAR \<le> x \<longrightarrow> x < N_CHAR + m \<longrightarrow>
          son h x = 2 * (x - N_CHAR) \<and> freq h x = freq h (son h x) + freq h (son h x + 1))
     \<and> (\<forall>k<2 * m. prnt h k = N_CHAR + k div 2)
     \<and> (\<forall>c<N_CHAR. prnt h (c + LZ_T) = c)
     \<and> (\<Sum>k\<in>{2 * m..<N_CHAR + m}. freq h k) = N_CHAR"

lemma started_step:
  assumes s: "started m h" and "m < 313"
  shows "started (Suc m)
     (h\<lparr>freq := (freq h)(N_CHAR + m := freq h (2 * m) + freq h (2 * m + 1)),
        son := (son h)(N_CHAR + m := 2 * m),
        prnt := (prnt h)(2 * m := N_CHAR + m, 2 * m + 1 := N_CHAR + m)\<rparr>)" (is "started _ ?h")
proof -
  have mono: "freq h (x - 1) \<le> freq h x" if "0 < x" "x < N_CHAR + m" for x
    using s that by (simp add: started_def)
  have one: "1 \<le> freq h x" if "x < N_CHAR + m" for x using s that by (simp add: started_def)
  have leaf: "freq h x = 1" "son h x = x + LZ_T" if "x < N_CHAR" for x using s that by (auto simp: started_def)
  have inner: "son h x = 2 * (x - N_CHAR)" "freq h x = freq h (son h x) + freq h (son h x + 1)"
    if "N_CHAR \<le> x" "x < N_CHAR + m" for x using s that by (auto simp: started_def)
  have last: "freq h (N_CHAR + m - 1) \<le> freq h (2 * m) + freq h (2 * m + 1)"
  proof (cases m)
    case 0
    then show ?thesis using leaf [of 0] leaf [of 1] leaf [of 313] by simp
  next
    case (Suc q)
    have "freq h (2 * m - 2) \<le> freq h (2 * m - 1)" "freq h (2 * m - 1) \<le> freq h (2 * m)"
      "freq h (2 * m) \<le> freq h (2 * m + 1)"
      using mono [of "2 * m - 1"] mono [of "2 * m"] mono [of "2 * m + 1"] Suc \<open>m < 313\<close> by simp_all
    moreover have "freq h (N_CHAR + m - 1) = freq h (2 * m - 2) + freq h (2 * m - 1)"
      using inner [of "N_CHAR + m - 1"] Suc by simp
    ultimately show ?thesis by linarith
  qed
  have "(\<Sum>k\<in>{2 * Suc m..<N_CHAR + Suc m}. freq ?h k)
      = (\<Sum>k\<in>{2 * m + 2..<N_CHAR + m}. freq h k) + (freq h (2 * m) + freq h (2 * m + 1))"
  proof -
    have "(\<Sum>k\<in>{2 * m + 2..<N_CHAR + m}. freq ?h k) = (\<Sum>k\<in>{2 * m + 2..<N_CHAR + m}. freq h k)"
      by (rule sum.cong) auto
    then show ?thesis
      using \<open>m < 313\<close> sum.atLeastLessThan_Suc [of "2 * m + 2" "N_CHAR + m" "freq ?h"] by simp
  qed
  also have "\<dots> = (\<Sum>k\<in>{2 * m..<N_CHAR + m}. freq h k)"
    using \<open>m < 313\<close> sum.atLeast_Suc_lessThan [of "2 * m" "N_CHAR + m" "freq h"]
      sum.atLeast_Suc_lessThan [of "2 * m + 1" "N_CHAR + m" "freq h"] by simp
  also have "\<dots> = N_CHAR" using s by (simp add: started_def)
  finally have weight: "(\<Sum>k\<in>{2 * Suc m..<N_CHAR + Suc m}. freq ?h k) = N_CHAR" .
  show ?thesis
    unfolding started_def
  proof (intro conjI allI impI)
    fix x assume x: "x < N_CHAR + Suc m"
    show "1 \<le> freq ?h x" using one [of x] one [of "2 * m"] x \<open>m < 313\<close> by (auto simp: less_Suc_eq)
    show "freq ?h (x - 1) \<le> freq ?h x" if "0 < x"
      using mono [of x] last x that by (cases "x = N_CHAR + m") auto
    assume "N_CHAR \<le> x"
    then show "son ?h x = 2 * (x - N_CHAR)" "freq ?h x = freq ?h (son ?h x) + freq ?h (son ?h x + 1)"
      using inner [of x] x \<open>m < 313\<close> by (auto simp: less_Suc_eq)
  next
    fix k assume "k < 2 * Suc m"
    then consider "k < 2 * m" | "k = 2 * m" | "k = 2 * m + 1" by fastforce
    then show "prnt ?h k = N_CHAR + k div 2"
      using s by cases (auto simp: started_def)
  next
    fix c assume "c < N_CHAR"
    then show "son ?h c = c + LZ_T" "freq ?h c = 1" "prnt ?h (c + LZ_T) = c"
      using s \<open>m < 313\<close> by (auto simp: started_def)
  qed (use weight \<open>m < 313\<close> in simp_all)
qed

lemma start_inner_started:
  "started m h \<Longrightarrow> started 313 (start_inner (2 * m) (N_CHAR + m) h)"
proof (induction "313 - m" arbitrary: m h)
  case 0
  then have "m = 313" by (simp add: started_def)
  with 0 show ?case by (subst start_inner.simps) simp
next
  case (Suc d)
  then have m: "m < 313" by simp
  have "d = 313 - Suc m" using Suc.hyps(2) by simp
  from Suc.hyps(1) [OF this started_step [OF Suc.prems m]] m show ?case
    by (subst start_inner.simps) (simp add: Let_def)
qed

lemma huff_start_ok: "huff_ok huff_start" "freq huff_start LZ_R = N_CHAR"
proof -
  define z :: huff where "z = \<lparr>freq = \<lambda>_. 0, prnt = \<lambda>_. 0, son = \<lambda>_. 0\<rparr>"
  have "started 0 (fold start_leaf [0..<N_CHAR] z)"
    unfolding z_def by (subst start_leaves) (simp_all add: started_def)
  from start_inner_started [OF this] have s: "started 313 (start_inner 0 N_CHAR (fold start_leaf [0..<N_CHAR] z))"
    (is "started _ ?h") by simp
  have h: "huff_start = ?h\<lparr>freq := (freq ?h)(LZ_T := 0xFFFF), prnt := (prnt ?h)(LZ_R := 0)\<rparr>"
    by (simp add: huff_start_def z_def Let_def)
  have top: "freq ?h LZ_R = N_CHAR"
    using s by (simp add: started_def)
  then show "freq huff_start LZ_R = N_CHAR" by (simp add: h)
  have le: "freq ?h x \<le> freq ?h (x + 1)" if "x < LZ_R" for x
    using s that unfolding started_def by (elim conjE) (drule spec [of _ "x + 1"], simp)
  have leaf: "son ?h x = x + LZ_T" if "x < N_CHAR" for x using s that by (auto simp: started_def)
  have inner: "son ?h x = 2 * (x - N_CHAR)" "freq ?h x = freq ?h (son ?h x) + freq ?h (son ?h x + 1)"
    if "N_CHAR \<le> x" "x < LZ_T" for x using s that by (auto simp: started_def)
  have pr: "prnt ?h k = N_CHAR + k div 2" if "k < LZ_R" for k using s that by (auto simp: started_def)
  have prc: "prnt ?h (c + LZ_T) = c" if "c < N_CHAR" for c using s that by (auto simp: started_def)
  have t: "tree_ok (prnt huff_start) (son huff_start)"
    unfolding tree_ok_def
  proof (intro conjI allI impI)
    fix i assume i: "i < LZ_T" "son huff_start i < LZ_T"
    then have "N_CHAR \<le> i" using leaf [of i] by (cases "i < N_CHAR") (auto simp: h)
    with i inner [of i] pr [of "2 * (i - N_CHAR)"] pr [of "2 * (i - N_CHAR) + 1"]
    show "even (son huff_start i)" "son huff_start i + 1 < i" "prnt huff_start (son huff_start i) = i"
      "prnt huff_start (son huff_start i + 1) = i" by (auto simp: h)
  next
    fix i assume i: "i < LZ_T" "LZ_T \<le> son huff_start i"
    then have "i < N_CHAR" using inner(1) [of i] by (cases "i < N_CHAR") (auto simp: h)
    with leaf [of i] prc [of i]
    show "son huff_start i < LZ_T + N_CHAR" "prnt huff_start (son huff_start i) = i" by (auto simp: h)
  next
    fix c assume "c < N_CHAR"
    with leaf [of c] prc [of c]
    show "prnt huff_start (c + LZ_T) < LZ_T" "son huff_start (prnt huff_start (c + LZ_T)) = c + LZ_T"
      by (auto simp: h)
  next
    fix k assume "k < LZ_R"
    with pr [of k] inner(1) [of "N_CHAR + k div 2"]
    show "prnt huff_start k < LZ_T" "son huff_start (prnt huff_start k) = k - k mod 2"
      by (auto simp: h minus_mod_eq_mult_div)
  qed (simp add: h)
  have f: "freq_ok (freq huff_start)"
    unfolding freq_ok_def
  proof (intro conjI allI impI)
    fix i assume i: "i < LZ_T"
    then show "1 \<le> freq huff_start i" using s by (auto simp: h started_def)
    show "freq huff_start i \<le> freq huff_start (i + 1)"
      using le [of i] top i by (cases "i = LZ_R") (auto simp: h)
  qed (simp add: h)
  have "sum_at (freq huff_start) (son huff_start) i" if i: "i < LZ_T" for i
    unfolding sum_at_def
  proof
    assume "son huff_start i < LZ_T"
    with i have "N_CHAR \<le> i" using leaf [of i] by (cases "i < N_CHAR") (auto simp: h)
    with i inner [of i] show "freq huff_start i
        = freq huff_start (son huff_start i) + freq huff_start (son huff_start i + 1)"
      by (auto simp: h)
  qed
  with t f top show "huff_ok huff_start" by (simp add: huff_ok_def h)
qed

section \<open>Rebuilding\<close>

lemma collect_spec:
  assumes "fold collect_leaf [0..<n] (0, h) = (j, h')"
  defines "L \<equiv> filter (\<lambda>i. LZ_T \<le> son h i) [0..<n]"
  shows "j = length L \<and> prnt h' = prnt h
    \<and> (\<forall>m<j. son h' m = son h (L ! m) \<and> freq h' m = (freq h (L ! m) + 1) div 2)
    \<and> (\<forall>m. j \<le> m \<longrightarrow> son h' m = son h m \<and> freq h' m = freq h m)"
  using assms(1) unfolding L_def
proof (induction n arbitrary: j h')
  case (Suc n)
  obtain j1 h1 where o: "fold collect_leaf [0..<n] (0, h) = (j1, h1)" by fastforce
  note IH = Suc.IH [OF o]
  have "j1 \<le> n" using IH length_filter_le [of "\<lambda>i. LZ_T \<le> son h i" "[0..<n]"] by simp
  with IH have at: "son h1 n = son h n" "freq h1 n = freq h n" by auto
  have "collect_leaf n (j1, h1) = (j, h')" using Suc.prems by (simp add: o)
  then show ?case
    using IH at by (auto simp: collect_leaf_def nth_append less_Suc_eq split: if_splits)
qed auto

lemma shift_up_eq:
  "k \<le> j \<Longrightarrow> shift_up k j a = (\<lambda>m. if k < m \<and> m \<le> j then a (m - 1) else a m)"
proof (induction "j - k" arbitrary: j a)
  case 0
  then show ?case by (auto simp: shift_up_def)
next
  case (Suc d)
  then obtain q where q: "j = Suc q" "k \<le> q" by (cases j) auto
  have "shift_up k j a = shift_up k q (a(j := a q))"
    using q by (simp add: shift_up_def)
  also have "\<dots> = (\<lambda>m. if k < m \<and> m \<le> q then (a(j := a q)) (m - 1) else (a(j := a q)) m)"
    using Suc.hyps(1) [of q] Suc.hyps(2) unfolding q(1) using q(2) by simp
  finally show ?case using q by (auto simp: fun_eq_iff)
qed

lemma insert_at:
  "p \<le> j \<Longrightarrow> (shift_up p j a)(p := v)
     = (\<lambda>m. if m < p then a m else if m = p then v else if m \<le> j then a (m - 1) else a m)"
  by (auto simp: shift_up_eq fun_eq_iff)

lemma scan_down_finds:
  "m \<le> k \<Longrightarrow> fr m \<le> f \<Longrightarrow>
   \<exists>n. scan_down fr f k = Some n \<and> m \<le> n \<and> n \<le> k \<and> fr n \<le> f \<and> (\<forall>x. n < x \<longrightarrow> x \<le> k \<longrightarrow> f < fr x)"
proof (induction k)
  case (Suc k)
  show ?case
  proof (cases "f < fr (Suc k)")
    case True
    with Suc.prems have "m \<le> k" by (cases "m = Suc k") auto
    with Suc True show ?thesis by (auto simp: le_Suc_eq)
  qed (use Suc.prems in auto)
qed auto

definition built :: "nat \<Rightarrow> nat \<Rightarrow> huff \<Rightarrow> bool" where
  "built W j h \<longleftrightarrow> N_CHAR \<le> j \<and> j \<le> LZ_T
     \<and> (\<forall>x<j. 1 \<le> freq h x) \<and> (\<forall>x. x + 1 < j \<longrightarrow> freq h x \<le> freq h (x + 1))
     \<and> (\<forall>x<j. son h x < LZ_T \<longrightarrow> even (son h x) \<and> son h x + 1 < x
          \<and> freq h x = freq h (son h x) + freq h (son h x + 1))
     \<and> inj_on (son h) {..<j}
     \<and> son h ` {..<j} = {LZ_T..<LZ_T + N_CHAR} \<union> {e. even e \<and> e < 2 * (j - N_CHAR)}
     \<and> sum_list (map (freq h) [2 * (j - N_CHAR)..<j]) = W
     \<and> freq h LZ_T = 0xFFFF"

lemma built_mono:
  assumes "built W j h" "x \<le> y" "y < j"
  shows "freq h x \<le> freq h y"
  using assms(2,3)
proof (induction y)
  case (Suc y)
  then show ?case using assms(1) by (cases "x = Suc y") (auto simp: built_def intro: le_trans)
qed simp

lemma built_step:
  assumes b: "built W j h" and j: "j < LZ_T"
  defines "i \<equiv> 2 * (j - N_CHAR)" and "f \<equiv> freq h (2 * (j - N_CHAR)) + freq h (2 * (j - N_CHAR) + 1)"
  shows "\<exists>k. scan_down ((freq h)(j := f)) f (j - 1) = Some k
    \<and> built W (Suc j) (h\<lparr>freq := (shift_up (k + 1) j ((freq h)(j := f)))(k + 1 := f),
                          son := (shift_up (k + 1) j (son h))(k + 1 := i)\<rparr>)"
proof -
  have jN: "N_CHAR \<le> j" using b by (simp add: built_def)
  have ij: "i + 1 < j" "even i" "2 * (Suc j - N_CHAR) = i + 2" using j jN by (auto simp: i_def)
  have f: "f = freq h i + freq h (i + 1)" by (simp add: f_def i_def)
  obtain k where k: "scan_down ((freq h)(j := f)) f (j - 1) = Some k" "i + 1 \<le> k" "k \<le> j - 1"
    "freq h k \<le> f" "\<And>x. k < x \<Longrightarrow> x < j \<Longrightarrow> f < freq h x"
  proof -
    have "i + 1 \<le> j - 1" "((freq h)(j := f)) (i + 1) \<le> f" using ij(1) by (simp_all add: f)
    from scan_down_finds [of "i + 1" "j - 1" "(freq h)(j := f)", OF this] obtain k where
      k: "scan_down ((freq h)(j := f)) f (j - 1) = Some k" "i + 1 \<le> k" "k \<le> j - 1"
      "((freq h)(j := f)) k \<le> f" "\<forall>x. k < x \<longrightarrow> x \<le> j - 1 \<longrightarrow> f < ((freq h)(j := f)) x" by blast
    moreover have "f < freq h x" if "k < x" "x < j" for x
      using k(5) that by (metis Suc_pred' Suc_leI diff_Suc_1 fun_upd_apply less_imp_Suc_add
          less_Suc_eq_le nat_neq_iff zero_less_Suc)
    moreover have "k < j" using k(3) ij(1) by simp
    then have "freq h k \<le> f" using k(4) by simp
    ultimately show thesis using that [of k] by blast
  qed
  define p where "p = k + 1"
  have p: "i + 1 < p" "p \<le> j" using k(2,3) ij by (auto simp: p_def)
  define fr s where "fr = (\<lambda>m. if m < p then freq h m else if m = p then f else if m \<le> j then freq h (m - 1) else freq h m)"
    and "s = (\<lambda>m. if m < p then son h m else if m = p then i else if m \<le> j then son h (m - 1) else son h m)"
  have upd: "h\<lparr>freq := (shift_up (k + 1) j ((freq h)(j := f)))(k + 1 := f),
             son := (shift_up (k + 1) j (son h))(k + 1 := i)\<rparr> = h\<lparr>freq := fr, son := s\<rparr>"
  proof -
    have "(shift_up p j ((freq h)(j := f)))(p := f) = fr" "(shift_up p j (son h))(p := i) = s"
      using p(2) by (auto simp: insert_at fr_def s_def fun_eq_iff)
    then show ?thesis unfolding p_def by simp
  qed
  have one: "1 \<le> freq h x" if "x < j" for x using b that by (simp add: built_def)
  have mono: "freq h x \<le> freq h y" if "x \<le> y" "y < j" for x y by (rule built_mono [OF b that])
  have node: "even (son h x) \<and> son h x + 1 < x \<and> freq h x = freq h (son h x) + freq h (son h x + 1)"
    if "x < j" "son h x < LZ_T" for x using b that by (simp add: built_def)
  have img: "son h ` {..<j} = {LZ_T..<LZ_T + N_CHAR} \<union> {e. even e \<and> e < i}" and inj: "inj_on (son h) {..<j}"
    using b by (simp_all add: built_def i_def)
  have small: "son h x < i" if "x < j" "son h x < LZ_T" for x
    using img that by (metis (no_types, lifting) UnE atLeastLessThan_iff image_eqI lessThan_iff mem_Collect_eq not_less)
  define g where "g x = (if x < p then x else x - 1)" for x
  have sg: "s x = son h (g x)" if "x < Suc j" "x \<noteq> p" for x using that by (auto simp: s_def g_def)
  have sp: "s p = i" by (simp add: s_def)
  have gi: "g ` ({..<Suc j} - {p}) = {..<j}"
  proof (intro equalityI subsetI)
    fix y assume "y \<in> {..<j}"
    then show "y \<in> g ` ({..<Suc j} - {p})"
      by (intro image_eqI [of _ _ "if y < p then y else Suc y"]) (auto simp: g_def)
  qed (use p in \<open>auto simp: g_def split: if_splits\<close>)
  have i_new: "i \<notin> son h ` {..<j}" using ij j unfolding img by auto
  have sinj: "inj_on s {..<Suc j}"
  proof (rule inj_onI)
    fix x y assume xy: "x \<in> {..<Suc j}" "y \<in> {..<Suc j}" "s x = s y"
    have out: "s z \<in> son h ` {..<j}" if "z \<in> {..<Suc j}" "z \<noteq> p" for z
      using that sg gi by auto
    have "(x = p) = (y = p)" using out xy i_new sp by metis
    moreover have "x = y" if "x \<noteq> p" "y \<noteq> p"
    proof -
      have "son h (g x) = son h (g y)" "g x < j" "g y < j" using xy that sg gi by auto
      then have "g x = g y" using inj by (auto simp: inj_on_def)
      with that show ?thesis by (auto simp: g_def split: if_splits)
    qed
    ultimately show "x = y" by blast
  qed
  have simg: "s ` {..<Suc j} = insert i (son h ` {..<j})"
  proof -
    have "s ` {..<Suc j} = insert (s p) (s ` ({..<Suc j} - {p}))" using p(2) by auto
    also have "s ` ({..<Suc j} - {p}) = son h ` g ` ({..<Suc j} - {p})"
      using sg by (auto simp: image_image intro!: image_cong)
    finally show ?thesis by (simp add: sp gi)
  qed
  have weight: "sum_list (map fr [i + 2..<Suc j]) = W"
  proof -
    have e1: "[i + 2..<Suc j] = [i + 2..<p] @ p # [Suc p..<Suc j]"
      using p upt_add_eq_append [of "i + 2" p "Suc j - p"] by (simp add: upt_conv_Cons del: upt_Suc)
    have e2: "map fr [Suc p..<Suc j] = map (freq h) [p..<j]"
      unfolding map_Suc_upt [symmetric] map_map by (auto simp: fr_def)
    have e3: "map fr [i + 2..<p] = map (freq h) [i + 2..<p]" by (auto simp: fr_def)
    have "fr p = f" by (simp add: fr_def)
    then have "sum_list (map fr [i + 2..<Suc j])
      = sum_list (map (freq h) [i + 2..<p]) + f + sum_list (map (freq h) [p..<j])"
      unfolding e1 by (simp only: map_append list.map e2 e3 sum_list.append sum_list.Cons add.assoc)
    moreover have "[i..<j] = i # (i + 1) # [i + 2..<p] @ [p..<j]"
      using p upt_add_eq_append [of "i + 2" p "j - p"] by (simp add: upt_conv_Cons)
    moreover have "sum_list (map (freq h) [i..<j]) = W" using b by (simp add: built_def i_def)
    ultimately show ?thesis by (simp add: f)
  qed
  have "built W (Suc j) (h\<lparr>freq := fr, son := s\<rparr>)"
    unfolding built_def
  proof (intro conjI allI impI)
    show "1 \<le> freq (h\<lparr>freq := fr, son := s\<rparr>) x" if "x < Suc j" for x
      using that p one [of x] one [of "x - 1"] one [of i] ij by (auto simp: fr_def f)
    show "freq (h\<lparr>freq := fr, son := s\<rparr>) x \<le> freq (h\<lparr>freq := fr, son := s\<rparr>) (x + 1)"
      if "x + 1 < Suc j" for x
    proof -
      consider "x + 1 < p" | "x + 1 = p" | "x = p" | "p < x" by linarith
      then show ?thesis
      proof cases
        case 1 with that mono [of x "x + 1"] p show ?thesis by (simp add: fr_def)
      next
        case 2 with k(4) show ?thesis by (simp add: fr_def p_def)
      next
        case 3 with that k(5) [of p] show ?thesis by (simp add: fr_def p_def)
      next
        case 4 with that mono [of "x - 1" x] show ?thesis by (simp add: fr_def)
      qed
    qed
    fix x assume x: "x < Suc j" and sx: "son (h\<lparr>freq := fr, son := s\<rparr>) x < LZ_T"
    have low: "fr y = freq h y" if "y \<le> i + 1" for y using that p by (simp add: fr_def)
    consider "x < p" | "x = p" | "p < x" by linarith
    then have "even (s x) \<and> s x + 1 < x \<and> fr x = fr (s x) + fr (s x + 1)"
    proof cases
      case 1
      with x sx p have "x < j" "son h x < LZ_T" by (auto simp: s_def)
      from node [OF this] small [OF this] 1 low [of "son h x"] low [of "son h x + 1"]
      show ?thesis by (simp add: s_def fr_def)
    next
      case 2
      with p ij low [of i] low [of "i + 1"] show ?thesis by (simp add: s_def) (simp add: fr_def f)
    next
      case 3
      with x sx p have x1: "x - 1 < j" "son h (x - 1) < LZ_T" by (auto simp: s_def)
      have "s x = son h (x - 1)" "fr x = freq h (x - 1)" using 3 x by (simp_all add: s_def fr_def)
      with node [OF x1] small [OF x1] low [of "son h (x - 1)"] low [of "son h (x - 1) + 1"]
      show ?thesis by auto
    qed
    then show "even (son (h\<lparr>freq := fr, son := s\<rparr>) x)" "son (h\<lparr>freq := fr, son := s\<rparr>) x + 1 < x"
      "freq (h\<lparr>freq := fr, son := s\<rparr>) x = freq (h\<lparr>freq := fr, son := s\<rparr>) (son (h\<lparr>freq := fr, son := s\<rparr>) x)
        + freq (h\<lparr>freq := fr, son := s\<rparr>) (son (h\<lparr>freq := fr, son := s\<rparr>) x + 1)" by simp_all
  next
    show "freq (h\<lparr>freq := fr, son := s\<rparr>) LZ_T = 0xFFFF" using b j p by (simp add: built_def fr_def)
  next
    show "inj_on (son (h\<lparr>freq := fr, son := s\<rparr>)) {..<Suc j}" using sinj by simp
    show "son (h\<lparr>freq := fr, son := s\<rparr>) ` {..<Suc j}
      = {LZ_T..<LZ_T + N_CHAR} \<union> {e. even e \<and> e < 2 * (Suc j - N_CHAR)}"
      unfolding ij(3) using ij(2) by (auto simp: simg img less_Suc_eq)
    show "sum_list (map (freq (h\<lparr>freq := fr, son := s\<rparr>)) [2 * (Suc j - N_CHAR)..<Suc j]) = W"
      unfolding ij(3) using weight by simp
  qed (use jN j in simp_all)
  with k(1) upd show ?thesis by auto
qed

lemma rebuild_built:
  "built W j h \<Longrightarrow> \<exists>h'. rebuild (2 * (j - N_CHAR)) j h = Some h' \<and> built W LZ_T h' \<and> prnt h' = prnt h"
proof (induction "LZ_T - j" arbitrary: j h)
  case 0
  then have "j = LZ_T" by (simp add: built_def)
  with 0 show ?case by (subst rebuild.simps) simp
next
  case (Suc d)
  then have j: "j < LZ_T" "N_CHAR \<le> j" by (auto simp: built_def)
  let ?i = "2 * (j - N_CHAR)" and ?f = "freq h (2 * (j - N_CHAR)) + freq h (2 * (j - N_CHAR) + 1)"
  obtain k where k: "scan_down ((freq h)(j := ?f)) ?f (j - 1) = Some k"
    and b: "built W (Suc j) (h\<lparr>freq := (shift_up (k + 1) j ((freq h)(j := ?f)))(k + 1 := ?f),
                          son := (shift_up (k + 1) j (son h))(k + 1 := ?i)\<rparr>)" (is "built W (Suc j) ?h1")
    using built_step [OF Suc.prems j(1)] by blast
  have "d = LZ_T - Suc j" using Suc.hyps(2) by simp
  from Suc.hyps(1) [OF this b] obtain h' where
    h': "rebuild (2 * (Suc j - N_CHAR)) (Suc j) ?h1 = Some h'" "built W LZ_T h'" "prnt h' = prnt h" by auto
  have "2 * (Suc j - N_CHAR) = ?i + 2" using j by simp
  then have "rebuild ?i j h = rebuild (2 * (Suc j - N_CHAR)) (Suc j) ?h1"
    using k j(1) by (subst rebuild.simps) (simp add: Let_def)
  with h' show ?case by auto
qed

lemma set_parents:
  assumes inj: "inj_on s {..<LZ_T}" and even: "\<forall>x<LZ_T. s x < LZ_T \<longrightarrow> even (s x) \<and> s x + 1 < x" and "n \<le> LZ_T"
  shows "(\<forall>x<n. fold (set_parent s) [0..<n] pr (s x) = x
           \<and> (s x < LZ_T \<longrightarrow> fold (set_parent s) [0..<n] pr (s x + 1) = x))
    \<and> (\<forall>y. (\<forall>x<n. y \<noteq> s x \<and> (s x < LZ_T \<longrightarrow> y \<noteq> s x + 1)) \<longrightarrow> fold (set_parent s) [0..<n] pr y = pr y)"
  using assms(3)
proof (induction n)
  case (Suc n)
  let ?q = "fold (set_parent s) [0..<n] pr"
  have q: "fold (set_parent s) [0..<Suc n] pr y = (if y = s n \<or> y = s n + 1 \<and> s n < LZ_T then n else ?q y)" for y
    by (auto simp: set_parent_def)
  have apart: "s x \<noteq> s n \<and> (s n < LZ_T \<longrightarrow> s x \<noteq> s n + 1) \<and> (s x < LZ_T \<longrightarrow> s x + 1 \<noteq> s n)" if "x < n" for x
  proof -
    have lt: "x < LZ_T" "n < LZ_T" using that Suc.prems by auto
    have "s x \<noteq> s n" using inj_onD [OF inj, of x n] lt that by auto
    moreover have "s a \<noteq> s b + 1" if "a < LZ_T" "b < LZ_T" "s b < LZ_T" for a b
    proof
      assume "s a = s b + 1"
      moreover have "even (s b)" "s b + 1 < LZ_T" using even that by auto
      ultimately have "odd (s a)" "s a < LZ_T" by auto
      with even that(1) show False by blast
    qed
    ultimately show ?thesis using lt by metis
  qed
  show ?case
    using Suc q apart by (auto simp: less_Suc_eq)
qed simp

lemma halved_sum: "2 * sum_list (map (\<lambda>i. (fr i + 1) div 2) xs) \<le> sum_list (map fr xs) + length xs" for fr :: "nat \<Rightarrow> nat"
proof (induction xs)
  case (Cons x xs)
  let ?g = "\<lambda>i. (fr i + 1) div 2"
  have step: "2 * (a + b) \<le> f + s + (n + 1)" if "2 * a \<le> f + 1" "2 * b \<le> s + n" for a b f s n :: nat
    using that by simp
  show ?case using step [of "?g x" "fr x" "sum_list (map ?g xs)"] Cons by simp
qed simp

lemma collect_built:
  assumes ok: "huff_ok h" and c: "fold collect_leaf [0..<LZ_T] (0, h) = (j, h1)"
  shows "j = N_CHAR" "\<exists>W. built W N_CHAR h1 \<and> 2 * W \<le> freq h LZ_R + N_CHAR \<and> prnt h1 = prnt h"
proof -
  have t: "tree_ok (prnt h) (son h)" and f: "freq_ok (freq h)" and sums: "\<forall>i<LZ_T. sum_at (freq h) (son h) i"
    using ok by (simp_all add: huff_ok_def)
  define L where "L = filter (\<lambda>i. LZ_T \<le> son h i) [0..<LZ_T]"
  have spec: "j = length L" "prnt h1 = prnt h"
    "\<And>m. m < j \<Longrightarrow> son h1 m = son h (L ! m) \<and> freq h1 m = (freq h (L ! m) + 1) div 2"
    "\<And>m. j \<le> m \<Longrightarrow> son h1 m = son h m \<and> freq h1 m = freq h m"
    using collect_spec [OF c] by (auto simp: L_def)
  have setL: "set L = {i. i < LZ_T \<and> LZ_T \<le> son h i}" by (auto simp: L_def)
  have dL: "distinct L" and sL: "sorted L" by (simp_all add: L_def sorted_wrt_filter)
  show j: "j = N_CHAR" using leaf_sons(3) [OF t] distinct_card [OF dL] spec(1) by (simp add: setL)
  have at: "L ! m < LZ_T \<and> LZ_T \<le> son h (L ! m)" if "m < N_CHAR" for m
    using nth_mem [of m L] that j spec(1) setL by auto
  define W where "W = sum_list (map (freq h1) [0..<N_CHAR])"
  have "built W N_CHAR h1"
    unfolding built_def
  proof (intro conjI allI impI)
    fix x assume x: "x < N_CHAR"
    show "1 \<le> freq h1 x" using spec(3) [of x] freq_pos [OF f, of "L ! x"] at [OF x] x j by simp
    assume "son h1 x < LZ_T"
    with spec(3) [of x] at [OF x] x j have False by simp
    then show "even (son h1 x)" "son h1 x + 1 < x" "freq h1 x = freq h1 (son h1 x) + freq h1 (son h1 x + 1)"
      by blast+
  next
    fix x assume x: "x + 1 < N_CHAR"
    have "L ! x \<le> L ! (x + 1)" using sL x j spec(1) by (simp add: sorted_iff_nth_mono)
    then have "freq h (L ! x) \<le> freq h (L ! (x + 1))"
      using at [of "x + 1"] x by (intro freq_mono [OF f]) auto
    then show "freq h1 x \<le> freq h1 (x + 1)" using spec(3) [of x] spec(3) [of "x + 1"] x j
      by (simp add: div_le_mono)
  next
    show "inj_on (son h1) {..<N_CHAR}"
    proof (rule inj_onI)
      fix x y assume xy: "x \<in> {..<N_CHAR}" "y \<in> {..<N_CHAR}" "son h1 x = son h1 y"
      then have "son h (L ! x) = son h (L ! y)" using spec(3) j by auto
      then have "L ! x = L ! y" using inj_onD [OF leaf_sons(1) [OF t]] at xy by auto
      with dL xy j spec(1) show "x = y" by (simp add: nth_eq_iff_index_eq)
    qed
    have "son h1 ` {..<N_CHAR} = son h ` set L"
      using spec(3) j spec(1) by (force simp: set_conv_nth image_iff)
    then show "son h1 ` {..<N_CHAR} = {LZ_T..<LZ_T + N_CHAR} \<union> {e. even e \<and> e < 2 * (N_CHAR - N_CHAR)}"
      using leaf_sons(2) [OF t] by (simp add: setL)
    show "freq h1 LZ_T = 0xFFFF" using spec(4) [of LZ_T] f j by (simp add: freq_ok_def)
  qed (simp_all add: W_def)
  moreover have "2 * W \<le> freq h LZ_R + N_CHAR"
  proof -
    have "map (freq h1) [0..<N_CHAR] = map (\<lambda>i. (freq h i + 1) div 2) L"
      using spec(1,3) j by (intro nth_equalityI) auto
    then have "2 * W \<le> sum_list (map (freq h) L) + N_CHAR"
      using halved_sum [of "freq h" L] spec(1) j by (simp add: W_def)
    moreover have "sum_list (map (freq h) L) = freq h LZ_R"
      using root_weight [OF t sums] dL by (simp add: sum_list_distinct_conv_sum_set setL)
    ultimately show ?thesis by simp
  qed
  ultimately show "\<exists>W. built W N_CHAR h1 \<and> 2 * W \<le> freq h LZ_R + N_CHAR \<and> prnt h1 = prnt h"
    using spec(2) by blast
qed

lemma built_root: "built W LZ_T h \<Longrightarrow> freq h LZ_R = W"
  by (simp add: built_def)

lemma reconst_ok:
  assumes ok: "huff_ok h" and top: "freq h LZ_R = MAX_FREQ"
  shows "\<exists>h'. reconst h = Some h' \<and> huff_ok h' \<and> freq h' LZ_R < MAX_FREQ"
proof -
  obtain j h1 where c: "fold collect_leaf [0..<LZ_T] (0, h) = (j, h1)" by fastforce
  from collect_built(2) [OF ok c] obtain W where
    W: "built W N_CHAR h1" "2 * W \<le> freq h LZ_R + N_CHAR" "prnt h1 = prnt h" by blast
  have j: "j = N_CHAR" by (rule collect_built(1) [OF ok c])
  from rebuild_built [OF W(1)] obtain h2 where
    h2: "rebuild 0 N_CHAR h1 = Some h2" "built W LZ_T h2" "prnt h2 = prnt h1" by auto
  define pr where "pr = fold (set_parent (son h2)) [0..<LZ_T] (prnt h2)"
  have r: "reconst h = Some (h2\<lparr>prnt := pr\<rparr>)" using c h2(1) by (simp add: reconst_def j pr_def)
  have inj: "inj_on (son h2) {..<LZ_T}"
    and img: "son h2 ` {..<LZ_T} = {LZ_T..<LZ_T + N_CHAR} \<union> {e. even e \<and> e < LZ_R}"
    and node: "\<And>x. x < LZ_T \<Longrightarrow> son h2 x < LZ_T \<Longrightarrow> even (son h2 x) \<and> son h2 x + 1 < x
      \<and> freq h2 x = freq h2 (son h2 x) + freq h2 (son h2 x + 1)"
    using h2(2) by (auto simp: built_def)
  from set_parents [OF inj, of LZ_T "prnt h2"] node
  have pr: "\<And>x. x < LZ_T \<Longrightarrow> pr (son h2 x) = x" "\<And>x. x < LZ_T \<Longrightarrow> son h2 x < LZ_T \<Longrightarrow> pr (son h2 x + 1) = x"
    "(\<forall>x<LZ_T. LZ_R \<noteq> son h2 x \<and> (son h2 x < LZ_T \<longrightarrow> LZ_R \<noteq> son h2 x + 1)) \<longrightarrow> pr LZ_R = prnt h2 LZ_R"
    by (simp_all add: pr_def)
  have sonx: "son h2 x \<in> {LZ_T..<LZ_T + N_CHAR} \<union> {e. even e \<and> e < LZ_R}" if "x < LZ_T" for x
    using img that by blast
  have "tree_ok pr (son h2)"
    unfolding tree_ok_def
  proof (intro conjI allI impI)
    fix i assume "i < LZ_T" "LZ_T \<le> son h2 i"
    with sonx [of i] pr(1) [of i] show "son h2 i < LZ_T + N_CHAR" "pr (son h2 i) = i" by auto
  next
    fix c assume "c < N_CHAR"
    then have "c + LZ_T \<in> son h2 ` {..<LZ_T}" unfolding img by simp
    then obtain x where "x < LZ_T" "son h2 x = c + LZ_T" by auto
    with pr(1) [of x] show "pr (c + LZ_T) < LZ_T" "son h2 (pr (c + LZ_T)) = c + LZ_T" by auto
  next
    fix k assume k: "k < LZ_R"
    then have "k - k mod 2 \<in> son h2 ` {..<LZ_T}" unfolding img by (auto simp: even_iff_mod_2_eq_zero)
    then obtain x where x: "x < LZ_T" "son h2 x = k - k mod 2" by auto
    then have "k = son h2 x \<or> k = son h2 x + 1" "son h2 x < LZ_T" using k by presburger+
    with pr(1,2) [of x] x have "pr k = x" by auto
    with x show "pr k < LZ_T" "son h2 (pr k) = k - k mod 2" by auto
  next
    have "LZ_R \<noteq> son h2 x \<and> (son h2 x < LZ_T \<longrightarrow> LZ_R \<noteq> son h2 x + 1)" if "x < LZ_T" for x
      using node [OF that] sonx [OF that] that by auto
    moreover have "prnt h LZ_R = 0" using ok tree_root unfolding huff_ok_def by blast
    ultimately show "pr LZ_R = 0" using pr(3) h2(3) W(3) by simp
  qed (use node pr in auto)
  moreover have "freq_ok (freq h2)"
    unfolding freq_ok_def
  proof (intro conjI allI impI)
    fix i assume "i < LZ_T"
    with h2(2) built_root [OF h2(2)] W(2) top show "1 \<le> freq h2 i" "freq h2 i \<le> freq h2 (i + 1)"
      by (cases "i = LZ_R"; auto simp: built_def)+
  qed (use h2(2) in \<open>simp add: built_def\<close>)
  moreover have "\<forall>i<LZ_T. sum_at (freq h2) (son h2) i" using node by (auto simp: sum_at_def)
  moreover have "freq h2 LZ_R < MAX_FREQ" using built_root [OF h2(2)] W(2) top by simp
  ultimately show ?thesis using r by (auto simp: huff_ok_def)
qed

section \<open>Updating, writing and reading a character\<close>

lemma huff_update_ok:
  assumes ok: "huff_ok h" and c: "c < N_CHAR"
  shows "\<exists>h'. huff_update c h = Some h' \<and> huff_ok h' \<and> freq h' LZ_R \<le> freq h LZ_R + 1"
proof -
  obtain h0 where h0: "(if freq h LZ_R = MAX_FREQ then reconst h else Some h) = Some h0"
    "huff_ok h0" "freq h0 LZ_R < MAX_FREQ" "freq h0 LZ_R \<le> freq h LZ_R"
  proof (cases "freq h LZ_R = MAX_FREQ")
    case True
    with reconst_ok [OF ok True] that show thesis by auto
  next
    case False
    with ok that [of h] show thesis by (auto simp: huff_ok_def)
  qed
  then have t: "tree_ok (prnt h0) (son h0)" by (simp add: huff_ok_def)
  have "climb_ok (prnt h0 (c + LZ_T)) h0"
    using h0(2,3) tree_char [OF t c] by (auto simp: climb_ok_def huff_ok_def)
  from climb_total [OF this] h0 show ?thesis by (auto simp: huff_update_def)
qed

lemma bit_bval: "k < length bs \<Longrightarrow> bit (bval bs) (length bs - 1 - k) = bs ! k"
proof (induction bs arbitrary: k)
  case (Cons b bs)
  show ?case
  proof (cases k)
    case 0
    then show ?thesis using bval_less [of bs] by (cases b) (simp_all add: bit_iff_odd div_add_self1)
  next
    case (Suc i)
    then have i: "i < length bs" using Cons.prems by simp
    define m where "m = length bs - 1 - i"
    have "(2::nat) ^ length bs = 2 ^ m * 2 ^ Suc i" using i by (simp add: m_def power_add [symmetric] del: power_Suc)
    then have "(of_bool b * 2 ^ length bs + bval bs) div 2 ^ m = of_bool b * 2 ^ Suc i + bval bs div 2 ^ m"
      by (cases b) simp_all
    then have "bit (bval (b # bs)) m = bit (bval bs) m" by (simp add: bit_iff_odd)
    with Cons.IH [OF i] Suc show ?thesis by (simp add: m_def)
  qed
qed simp

lemma foldl_bval: "foldl (\<lambda>code b. 2 * code + of_bool b) v bs = v * 2 ^ length bs + bval bs"
  by (induction bs arbitrary: v) (simp_all add: algebra_simps)

lemma top_bits_code:
  assumes "length bs \<le> 16"
  shows "top_bits (length bs) (word_of_nat (push_bit (16 - length bs) (bval bs))) = bs"
proof (rule nth_equalityI)
  fix k assume "k < length (top_bits (length bs) (word_of_nat (push_bit (16 - length bs) (bval bs))))"
  then have k: "k < length bs" by simp
  have "bit (word_of_nat (push_bit (16 - length bs) (bval bs)) :: 16 word) (15 - k)
      = bit (push_bit (16 - length bs) (bval bs)) (15 - k)"
  proof -
    have "15 - k < (16 :: nat)" by arith
    then show ?thesis by (simp only: bit_of_nat_iff) (simp add: possible_bit_def)
  qed
  also have "\<dots> = bit (bval bs) (15 - k - (16 - length bs))"
  proof -
    have "16 - length bs \<le> 15 - k" using k assms by arith
    then show ?thesis by (simp add: bit_push_bit_iff)
  qed
  also have "15 - k - (16 - length bs) = length bs - 1 - k" using k assms by simp
  finally show "top_bits (length bs) (word_of_nat (push_bit (16 - length bs) (bval bs))) ! k = bs ! k"
    using k bit_bval [OF k] by (simp add: top_bits_def)
qed simp

text \<open>
  What is written for a character is read back as that character, from any position of the stream,
  and both sides then hold the same tree; the only way to fail is a code longer than 16 bits.
\<close>

lemma encode_char_cases:
  assumes ok: "huff_ok h" and c: "c < N_CHAR" and w: "bw_ok w"
  obtains (long) n where "16 < n" "depth_weight n \<le> freq h LZ_R"
      "encode_char c (h, w) = Some (Inl (ValueError ''negative shift count''))"
    | (written) h' w' bs where "encode_char c (h, w) = Some (Inr (h', w'))" "huff_ok h'"
        "freq h' LZ_R \<le> freq h LZ_R + 1" "bw_ok w'" "bw_bits w' = bw_bits w @ bs"
        "\<And>r rest. br_ok r \<Longrightarrow> br_bits r = bs @ rest \<Longrightarrow>
           \<exists>r'. decode_char (h, r) = Some (c, h', r') \<and> br_ok r' \<and> br_bits r' = rest"
proof -
  have t: "tree_ok (prnt h) (son h)" using ok by (simp add: huff_ok_def)
  let ?k = "prnt h (c + LZ_T)"
  have k: "?k \<le> LZ_R" "son h ?k = c + LZ_T" using tree_char [OF t c] by auto
  from path_round [OF t k(1)] obtain bs where
    up: "path_up (prnt h) ?k [] = Some bs" and
    anc: "(prnt h ^^ length bs) ?k = LZ_R" "\<forall>m<length bs. (prnt h ^^ m) ?k < LZ_R" and
    down: "\<And>r rest. br_ok r \<Longrightarrow> br_bits r = rev bs @ rest \<Longrightarrow>
      \<exists>r'. br_ok r' \<and> br_bits r' = rest \<and> path_down (son h) (son h LZ_R) r = path_down (son h) (son h ?k) r'"
    by (metis append_Nil)
  obtain h' where h': "huff_update c h = Some h'" "huff_ok h'" "freq h' LZ_R \<le> freq h LZ_R + 1"
    using huff_update_ok [OF ok c] by blast
  show thesis
  proof (cases "16 < length bs")
    case True
    have "depth_weight (length bs) \<le> freq h LZ_R"
      using freq_at_depth [OF t _ _ _ anc(2), of "freq h"] k(1) anc(1) ok by (simp add: huff_ok_def)
    with True up show thesis by (intro long) (simp_all add: encode_char_def)
  next
    case False
    let ?w = "put_code (length bs) (word_of_nat (push_bit (16 - length bs) (bval (rev bs)))) w"
    have w': "bw_ok ?w" "bw_bits ?w = bw_bits w @ rev bs"
      using put_code_bits [OF w, of "length bs"] top_bits_code [of "rev bs"] False by simp_all
    have e: "encode_char c (h, w) = Some (Inr (h', ?w))"
      using up h'(1) False by (simp add: encode_char_def foldl_bval Let_def)
    have d: "\<exists>r'. decode_char (h, r) = Some (c, h', r') \<and> br_ok r' \<and> br_bits r' = rest"
      if r: "br_ok r" "br_bits r = rev bs @ rest" for r rest
    proof -
      from down [OF r] obtain r' where r': "br_ok r'" "br_bits r' = rest"
        "path_down (son h) (son h LZ_R) r = path_down (son h) (c + LZ_T) r'" by (auto simp: k(2))
      have "path_down (son h) (c + LZ_T) r' = Some (c + LZ_T, r')" by (subst path_down.simps) simp
      with r' h'(1) show ?thesis by (simp add: decode_char_def)
    qed
    from e h'(2,3) w' d show thesis by (rule written)
  qed
qed

end
