(* ===== verification/Lzhuf_Tree.thy ===== *)
theory Lzhuf_Tree
  imports Lzhuf_Bits
begin

text \<open>
  The match search of the LZHUF encoder (\<^verbatim>\<open>insert_node\<close> and \<^verbatim>\<open>delete_node\<close> of \<^verbatim>\<open>_lzss_encode\<close> in
  src/src/web/lzhuf.py): binary trees in the arrays \<^verbatim>\<open>lson\<close>, \<^verbatim>\<open>rson\<close> and \<^verbatim>\<open>dad\<close> over positions of the
  ring buffer, one tree per first byte, its root a cell of \<^verbatim>\<open>rson\<close> above the ring. \<open>forest\<close> is
  their well-formedness: with it the searches stop, a position that has been deleted is never
  found again, and a match that is reported is one. Arrays are functions from indices; a
  loop that does not stop is None.
\<close>

section \<open>The arrays and their operations\<close>

record lz =
  text_buf :: "nat \<Rightarrow> byte"
  lson :: "nat \<Rightarrow> nat"
  rson :: "nat \<Rightarrow> nat"
  dad :: "nat \<Rightarrow> nat"
  match_position :: int
  match_length :: nat

definition root_of :: "byte \<Rightarrow> nat" where
  "root_of b = LZ_N + 1 + unat b"

definition ring_distance :: "nat \<Rightarrow> nat \<Rightarrow> int" where
  "ring_distance r p = (int r - int p) mod int LZ_N"

definition init_tree :: "lz \<Rightarrow> lz" where
  "init_tree z = z\<lparr>rson := \<lambda>i. if LZ_N + 1 \<le> i \<and> i < LZ_N + 257 then NIL else rson z i,
     dad := \<lambda>i. if i < LZ_N then NIL else dad z i\<rparr>"

text \<open>The comparison loop: the first index that differs (or \<^verbatim>\<open>F\<close>) and the last difference.\<close>

function compare_at :: "(nat \<Rightarrow> byte) \<Rightarrow> nat \<Rightarrow> nat \<Rightarrow> nat \<Rightarrow> int \<Rightarrow> nat \<times> int" where
  "compare_at t r p i cmp =
     (if i < LZ_F
      then let d = uint (t (r + i)) - uint (t (p + i)) in
        if d \<noteq> 0 then (i, d) else compare_at t r p (i + 1) d
      else (i, cmp))"
  by pat_completeness auto
termination by (relation "measure (\<lambda>(t, r, p, i, cmp). LZ_F - i)") auto
declare compare_at.simps [simp del]

text \<open>The bookkeeping of the best match; the flag is the break on a full-length match.\<close>

definition note_match :: "nat \<Rightarrow> nat \<Rightarrow> nat \<Rightarrow> lz \<Rightarrow> lz \<times> bool" where
  "note_match r p i z =
     (if THRESHOLD < i
      then let better = match_length z < i;
               z1 = (if better then z\<lparr>match_position := ring_distance r p - 1, match_length := i\<rparr> else z) in
        if better \<and> LZ_F \<le> match_length z1 then (z1, True)
        else if i = match_length z1
        then let c = ring_distance r p - 1 in
          (if c < match_position z1 then z1\<lparr>match_position := c\<rparr> else z1, False)
        else (z1, False)
      else (z, False))"

text \<open>\<open>q\<close> takes the place of \<open>p\<close> as a child of \<open>d\<close>.\<close>

definition set_slot :: "nat \<Rightarrow> nat \<Rightarrow> nat \<Rightarrow> lz \<Rightarrow> lz" where
  "set_slot d p q z = (if rson z d = p then z\<lparr>rson := (rson z)(d := q)\<rparr> else z\<lparr>lson := (lson z)(d := q)\<rparr>)"

definition replace_node :: "nat \<Rightarrow> nat \<Rightarrow> lz \<Rightarrow> lz" where
  "replace_node r p z =
     (let z = z\<lparr>dad := (dad z)(r := dad z p), lson := (lson z)(r := lson z p),
               rson := (rson z)(r := rson z p)\<rparr>;
          z = z\<lparr>dad := (dad z)(lson z p := r)\<rparr>;
          z = z\<lparr>dad := (dad z)(rson z p := r)\<rparr>;
          z = set_slot (dad z p) p r z
      in z\<lparr>dad := (dad z)(p := NIL)\<rparr>)"

partial_function (option) insert_loop :: "nat \<Rightarrow> nat \<Rightarrow> int \<Rightarrow> lz \<Rightarrow> lz option" where
  "insert_loop r p cmp z =
     (let q = (if 0 \<le> cmp then rson z p else lson z p) in
      if q = NIL
      then Some (if 0 \<le> cmp then z\<lparr>rson := (rson z)(p := r), dad := (dad z)(r := p)\<rparr>
                 else z\<lparr>lson := (lson z)(p := r), dad := (dad z)(r := p)\<rparr>)
      else (case compare_at (text_buf z) r q 1 cmp of (i, cmp') \<Rightarrow>
        (case note_match r q i z of (z', full) \<Rightarrow>
           if full then Some (replace_node r q z') else insert_loop r q cmp' z')))"
declare insert_loop.simps [simp del]

definition insert_node :: "nat \<Rightarrow> lz \<Rightarrow> lz option" where
  "insert_node r z = insert_loop r (root_of (text_buf z r)) 1
     (z\<lparr>rson := (rson z)(r := NIL), lson := (lson z)(r := NIL), match_length := 0\<rparr>)"

partial_function (option) rightmost :: "(nat \<Rightarrow> nat) \<Rightarrow> nat \<Rightarrow> nat option" where
  "rightmost rs q = (if rs q \<noteq> NIL then rightmost rs (rs q) else Some q)"
declare rightmost.simps [simp del]

text \<open>\<^verbatim>\<open>delete_node\<close>: \<open>q\<close> takes the place of \<open>p\<close>.\<close>

definition take_place :: "nat \<Rightarrow> nat \<Rightarrow> lz \<Rightarrow> lz" where
  "take_place q p z =
     (let z = z\<lparr>dad := (dad z)(q := dad z p)\<rparr>; z = set_slot (dad z p) p q z
      in z\<lparr>dad := (dad z)(p := NIL)\<rparr>)"

definition unhook :: "nat \<Rightarrow> nat \<Rightarrow> lz \<Rightarrow> lz" where
  "unhook q p z =
     (let z = z\<lparr>rson := (rson z)(dad z q := lson z q)\<rparr>; z = z\<lparr>dad := (dad z)(lson z q := dad z q)\<rparr>;
          z = z\<lparr>lson := (lson z)(q := lson z p)\<rparr>
      in z\<lparr>dad := (dad z)(lson z p := q)\<rparr>)"

definition delete_node :: "nat \<Rightarrow> lz \<Rightarrow> lz option" where
  "delete_node p z =
     (if dad z p = NIL then Some z
      else if rson z p = NIL then Some (take_place (lson z p) p z)
      else if lson z p = NIL then Some (take_place (rson z p) p z)
      else let adopt = (\<lambda>q z. let z = z\<lparr>rson := (rson z)(q := rson z p)\<rparr> in
             take_place q p (z\<lparr>dad := (dad z)(rson z p := q)\<rparr>)); q = lson z p in
        if rson z q \<noteq> NIL
        then (case rightmost (rson z) q of None \<Rightarrow> None | Some q \<Rightarrow> Some (adopt q (unhook q p z)))
        else Some (adopt q z))"

lemma set_slot_fields [simp]:
  "dad (set_slot d p q z) = dad z" "text_buf (set_slot d p q z) = text_buf z"
  "match_position (set_slot d p q z) = match_position z" "match_length (set_slot d p q z) = match_length z"
  "lson (set_slot d p q z) = (if rson z d = p then lson z else (lson z)(d := q))"
  "rson (set_slot d p q z) = (if rson z d = p then (rson z)(d := q) else rson z)"
  by (simp_all add: set_slot_def)

section \<open>Well-formed trees\<close>

definition live :: "lz \<Rightarrow> nat set" where
  "live z = {p. p < LZ_N \<and> dad z p \<noteq> NIL}"

definition is_root :: "nat \<Rightarrow> bool" where
  "is_root p \<longleftrightarrow> LZ_N + 1 \<le> p \<and> p < LZ_N + 257"

definition first_byte :: "lz \<Rightarrow> nat \<Rightarrow> nat" where
  "first_byte z p = (if is_root p then p else root_of (text_buf z p))"

definition child_ok :: "lz \<Rightarrow> nat \<Rightarrow> nat \<Rightarrow> bool" where
  "child_ok z p q \<longleftrightarrow> q = NIL \<or> q \<in> live z \<and> dad z q = p"

definition forest :: "lz \<Rightarrow> bool" where
  "forest z \<longleftrightarrow>
     (\<forall>p\<in>live z. child_ok z p (lson z p) \<and> child_ok z p (rson z p)
        \<and> (lson z p \<noteq> NIL \<longrightarrow> lson z p \<noteq> rson z p)
        \<and> (dad z p \<in> live z \<and> (lson z (dad z p) = p \<or> rson z (dad z p) = p)
           \<or> is_root (dad z p) \<and> rson z (dad z p) = p)
        \<and> first_byte z p = first_byte z (dad z p))
   \<and> (\<forall>p. is_root p \<longrightarrow> child_ok z p (rson z p))
   \<and> (\<exists>rk :: nat \<Rightarrow> nat. \<forall>p\<in>live z. rk p < rk (dad z p))"

lemma live_less: "p \<in> live z \<Longrightarrow> p < LZ_N"
  by (simp add: live_def)

lemma root_not_live: "is_root p \<Longrightarrow> p \<notin> live z" "is_root p \<Longrightarrow> p \<noteq> NIL"
  by (auto simp: is_root_def live_def)

lemma forestD:
  assumes "forest z" "p \<in> live z"
  shows "child_ok z p (lson z p)" "child_ok z p (rson z p)" "lson z p \<noteq> NIL \<Longrightarrow> lson z p \<noteq> rson z p"
    "dad z p \<in> live z \<and> (lson z (dad z p) = p \<or> rson z (dad z p) = p) \<or> is_root (dad z p) \<and> rson z (dad z p) = p"
    "first_byte z p = first_byte z (dad z p)"
  using assms unfolding forest_def by blast+

lemma forest_root: "forest z \<Longrightarrow> is_root p \<Longrightarrow> child_ok z p (rson z p)"
  unfolding forest_def by blast

lemma forest_rank: "forest z \<Longrightarrow> \<exists>rk :: nat \<Rightarrow> nat. \<forall>p\<in>live z. rk p < rk (dad z p)"
  unfolding forest_def by blast

lemma forestI:
  fixes rk :: "nat \<Rightarrow> nat"
  assumes "\<And>p. p \<in> live z \<Longrightarrow> child_ok z p (lson z p) \<and> child_ok z p (rson z p)
        \<and> (lson z p \<noteq> NIL \<longrightarrow> lson z p \<noteq> rson z p)
        \<and> (dad z p \<in> live z \<and> (lson z (dad z p) = p \<or> rson z (dad z p) = p)
           \<or> is_root (dad z p) \<and> rson z (dad z p) = p)
        \<and> first_byte z p = first_byte z (dad z p)"
    and "\<And>p. is_root p \<Longrightarrow> child_ok z p (rson z p)"
    and "\<And>p. p \<in> live z \<Longrightarrow> rk p < rk (dad z p)"
  shows "forest z"
  unfolding forest_def using assms by blast

section \<open>Insertion\<close>

lemma attach_right:
  assumes f: "forest z" and r: "r < LZ_N" "r \<notin> live z" and p: "p \<in> live z \<or> is_root p"
    and free: "rson z p = NIL" and new: "lson z r = NIL" "rson z r = NIL"
    and byte: "first_byte z r = first_byte z p"
  defines "z' \<equiv> z\<lparr>rson := (rson z)(p := r), dad := (dad z)(r := p)\<rparr>"
  shows "forest z'" "live z' = insert r (live z)"
proof -
  have pr: "p \<noteq> r" "p \<noteq> NIL" using p r root_not_live live_less by (auto simp: is_root_def)
  show L: "live z' = insert r (live z)" using r pr by (auto simp: z'_def live_def)
  obtain rk where rk: "\<And>x. x \<in> live z \<Longrightarrow> rk x < (rk (dad z x) :: nat)"
    using forest_rank [OF f] by blast
  have fb: "first_byte z' x = first_byte z x" for x by (simp add: first_byte_def z'_def)
  have co: "child_ok z' x q" if "child_ok z x q" for x q
    using that r L by (auto simp: child_ok_def z'_def)
  show "forest z'"
  proof (rule forestI [where rk = "\<lambda>x. if x = r then 0 else Suc (rk x)"])
    fix x assume x: "x \<in> live z'"
    show "child_ok z' x (lson z' x) \<and> child_ok z' x (rson z' x)
        \<and> (lson z' x \<noteq> NIL \<longrightarrow> lson z' x \<noteq> rson z' x)
        \<and> (dad z' x \<in> live z' \<and> (lson z' (dad z' x) = x \<or> rson z' (dad z' x) = x)
           \<or> is_root (dad z' x) \<and> rson z' (dad z' x) = x)
        \<and> first_byte z' x = first_byte z' (dad z' x)"
    proof (cases "x = r")
      case True
      have "lson z' r = NIL" "rson z' r = NIL" "dad z' r = p" "rson z' p = r"
        using new pr by (simp_all add: z'_def)
      with True p byte L show ?thesis by (auto simp only: fb child_ok_def insert_iff)
    next
      case False
      then have xl: "x \<in> live z" using x L by simp
      note d = forestD [OF f xl]
      have "child_ok z' x (rson z' x)"
      proof (cases "x = p")
        case True
        then show ?thesis using L by (simp add: z'_def child_ok_def)
      next
        case False
        with co [OF d(2)] show ?thesis by (simp add: z'_def)
      qed
      moreover have "child_ok z' x (lson z' x)" using co [OF d(1)] by (simp add: z'_def)
      moreover have "lson z' x \<noteq> NIL \<longrightarrow> lson z' x \<noteq> rson z' x"
        using d(1,3) r by (auto simp: z'_def child_ok_def)
      moreover have dd: "dad z' x = dad z x" using False by (simp add: z'_def)
      moreover have "dad z x \<in> live z \<and> (lson z' (dad z x) = x \<or> rson z' (dad z x) = x)
        \<or> is_root (dad z x) \<and> rson z' (dad z x) = x"
      proof (cases "dad z x = p")
        case True
        have "x \<noteq> NIL" using live_less [OF xl] by simp
        with True d(4) free have "p \<in> live z" "lson z p = x" by auto
        with True show ?thesis by (simp add: z'_def)
      next
        case False
        with d(4) show ?thesis by (simp add: z'_def)
      qed
      ultimately show ?thesis using d(5) L by (simp only: fb dd insert_iff) blast
    qed
    show "(if x = r then 0 else Suc (rk x)) < (if dad z' x = r then 0 else Suc (rk (dad z' x)))"
    proof (cases "x = r")
      case True
      with pr show ?thesis by (simp add: z'_def)
    next
      case False
      then have xl: "x \<in> live z" using x L by simp
      have "dad z x \<noteq> r" using forestD(4) [OF f xl] r by (auto simp: is_root_def)
      with False rk [OF xl] show ?thesis by (simp add: z'_def)
    qed
  next
    fix x assume x: "is_root x"
    then show "child_ok z' x (rson z' x)"
      using co [OF forest_root [OF f x]] L by (auto simp: z'_def child_ok_def)
  qed
qed

lemma attach_left:
  assumes f: "forest z" and r: "r < LZ_N" "r \<notin> live z" and p: "p \<in> live z"
    and free: "lson z p = NIL" and new: "lson z r = NIL" "rson z r = NIL"
    and byte: "first_byte z r = first_byte z p"
  defines "z' \<equiv> z\<lparr>lson := (lson z)(p := r), dad := (dad z)(r := p)\<rparr>"
  shows "forest z'" "live z' = insert r (live z)"
proof -
  have pr: "p \<noteq> r" "p \<noteq> NIL" using p r live_less by auto
  show L: "live z' = insert r (live z)" using r pr by (auto simp: z'_def live_def)
  obtain rk where rk: "\<And>x. x \<in> live z \<Longrightarrow> rk x < (rk (dad z x) :: nat)"
    using forest_rank [OF f] by blast
  have fb: "first_byte z' x = first_byte z x" for x by (simp add: first_byte_def z'_def)
  have co: "child_ok z' x q" if "child_ok z x q" for x q
    using that r L by (auto simp: child_ok_def z'_def)
  show "forest z'"
  proof (rule forestI [where rk = "\<lambda>x. if x = r then 0 else Suc (rk x)"])
    fix x assume x: "x \<in> live z'"
    show "child_ok z' x (lson z' x) \<and> child_ok z' x (rson z' x)
        \<and> (lson z' x \<noteq> NIL \<longrightarrow> lson z' x \<noteq> rson z' x)
        \<and> (dad z' x \<in> live z' \<and> (lson z' (dad z' x) = x \<or> rson z' (dad z' x) = x)
           \<or> is_root (dad z' x) \<and> rson z' (dad z' x) = x)
        \<and> first_byte z' x = first_byte z' (dad z' x)"
    proof (cases "x = r")
      case True
      have "lson z' r = NIL" "rson z' r = NIL" "dad z' r = p" "lson z' p = r"
        using new pr by (simp_all add: z'_def)
      with True p byte L show ?thesis by (auto simp only: fb child_ok_def insert_iff)
    next
      case False
      then have xl: "x \<in> live z" using x L by simp
      note d = forestD [OF f xl]
      have "child_ok z' x (lson z' x)"
        using co [OF d(1)] L by (cases "x = p") (simp_all add: z'_def child_ok_def)
      moreover have "child_ok z' x (rson z' x)" using co [OF d(2)] by (simp add: z'_def)
      moreover have "lson z' x \<noteq> NIL \<longrightarrow> lson z' x \<noteq> rson z' x"
        using d(2,3) r by (auto simp: z'_def child_ok_def)
      moreover have dd: "dad z' x = dad z x" using False by (simp add: z'_def)
      moreover have "dad z x \<in> live z \<and> (lson z' (dad z x) = x \<or> rson z' (dad z x) = x)
        \<or> is_root (dad z x) \<and> rson z' (dad z x) = x"
        using d(4) free live_less [OF xl] by (auto simp: z'_def)
      ultimately show ?thesis using d(5) L by (simp only: fb dd insert_iff) blast
    qed
    show "(if x = r then 0 else Suc (rk x)) < (if dad z' x = r then 0 else Suc (rk (dad z' x)))"
    proof (cases "x = r")
      case True
      with pr show ?thesis by (simp add: z'_def)
    next
      case False
      then have xl: "x \<in> live z" using x L by simp
      have "dad z x \<noteq> r" using forestD(4) [OF f xl] r by (auto simp: is_root_def)
      with False rk [OF xl] show ?thesis by (simp add: z'_def)
    qed
  next
    fix x assume x: "is_root x"
    with co [OF forest_root [OF f x]] show "child_ok z' x (rson z' x)" by (simp add: z'_def)
  qed
qed

section \<open>Splicing out a node with one child, and replacing a node\<close>

lemma no_loop:
  assumes "forest z" "p \<in> live z"
  shows "dad z p \<noteq> p" "lson z p \<noteq> p" "rson z p \<noteq> p" "dad z p \<noteq> NIL"
    "lson z p \<noteq> NIL \<Longrightarrow> dad z p \<noteq> lson z p" "rson z p \<noteq> NIL \<Longrightarrow> dad z p \<noteq> rson z p"
proof -
  obtain rk where rk: "\<And>x. x \<in> live z \<Longrightarrow> rk x < (rk (dad z x) :: nat)"
    using forest_rank [OF assms(1)] by blast
  note d = forestD(1,2) [OF assms]
  show "dad z p \<noteq> p" using rk [OF assms(2)] by auto
  then show "lson z p \<noteq> p" "rson z p \<noteq> p"
    using d live_less [OF assms(2)] by (auto simp: child_ok_def)
  show "dad z p \<noteq> NIL" using assms(2) by (simp add: live_def)
  show "lson z p \<noteq> NIL \<Longrightarrow> dad z p \<noteq> lson z p" "rson z p \<noteq> NIL \<Longrightarrow> dad z p \<noteq> rson z p"
    using d rk [OF assms(2)] rk by (auto simp: child_ok_def) (metis less_asym)+
qed

lemma splice:
  assumes f: "forest z" and p: "p \<in> live z"
    and q: "lson z p = q \<and> rson z p = NIL \<or> lson z p = NIL \<and> rson z p = q"
  shows "forest (take_place q p z)" "live (take_place q p z) = live z - {p}"
proof -
  define d z' where "d = dad z p" and "z' = take_place q p z"
  note n = no_loop [OF f p] and dp = forestD [OF f p]
  have cq: "child_ok z p q" using q dp by auto
  have qp: "q \<noteq> p" "d \<noteq> p" "d \<noteq> NIL" "q \<noteq> NIL \<Longrightarrow> d \<noteq> q"
    using q n by (auto simp: d_def)
  have dad': "dad z' = (dad z)(q := d, p := NIL)"
    and lson': "lson z' = (if rson z d = p then lson z else (lson z)(d := q))"
    and rson': "rson z' = (if rson z d = p then (rson z)(d := q) else rson z)"
    and text': "text_buf z' = text_buf z"
    using qp by (simp_all add: z'_def take_place_def d_def Let_def)
  show L: "live (take_place q p z) = live z - {p}"
    unfolding z'_def [symmetric] using cq qp live_less [of q z]
    by (auto simp: live_def dad' child_ok_def)
  then have L: "live z' = live z - {p}" by (simp add: z'_def)
  have fb: "first_byte z' x = first_byte z x" for x by (simp add: first_byte_def text')
  obtain rk where rk: "\<And>x. x \<in> live z \<Longrightarrow> rk x < (rk (dad z x) :: nat)"
    using forest_rank [OF f] by blast
  have slot: "x \<noteq> q" if "x \<in> live z" "dad z x \<noteq> p" for x
    using cq that live_less [of x z] by (auto simp: child_ok_def)
  have co: "child_ok z' x y" if "child_ok z x y" "y \<noteq> p" "x \<noteq> p" for x y
  proof (cases "y = NIL")
    case False
    with that(1) have y: "y \<in> live z" "dad z y = x" by (simp_all add: child_ok_def)
    with slot [of y] that have "y \<noteq> q" by simp
    with y that(2) L show ?thesis by (simp add: child_ok_def dad')
  qed (simp add: child_ok_def)
  have cd: "child_ok z' d q" using cq L qp by (auto simp: child_ok_def dad')
  have only: "x = p" if "x \<in> live z" "dad z x = d" "lson z d = p \<and> lson z d = x \<or> rson z d = p \<and> rson z d = x" for x
    using that by auto
  have "forest z'"
  proof (rule forestI [where rk = rk])
    fix x assume "x \<in> live z'"
    then have x: "x \<in> live z" "x \<noteq> p" using L by simp_all
    note dx = forestD [OF f x(1)]
    have l: "child_ok z' x (lson z' x)"
    proof (cases "x = d \<and> rson z d \<noteq> p")
      case True then show ?thesis using cd by (simp add: lson')
    next
      case False
      then have e: "lson z' x = lson z x" by (auto simp: lson')
      have "lson z x \<noteq> p" using dx(1,3) False live_less [OF p] by (auto simp: child_ok_def d_def)
      with co [OF dx(1)] x e show ?thesis by simp
    qed
    have r: "child_ok z' x (rson z' x)"
    proof (cases "x = d \<and> rson z d = p")
      case True then show ?thesis using cd by (simp add: rson')
    next
      case False
      then have e: "rson z' x = rson z x" by (auto simp: rson')
      have "rson z x \<noteq> p" using dx(2) False live_less [OF p] by (auto simp: child_ok_def d_def)
      with co [OF dx(2)] x e show ?thesis by simp
    qed
    have lr: "lson z' x \<noteq> NIL \<longrightarrow> lson z' x \<noteq> rson z' x"
    proof (cases "x = d")
      case True
      have "lson z d \<noteq> q \<or> q = NIL" "rson z d \<noteq> q \<or> q = NIL"
        using dx(1,2) True cq qp by (auto simp: child_ok_def d_def)
      with True dx(3) show ?thesis by (auto simp: lson' rson')
    next
      case False with dx(3) show ?thesis by (auto simp: lson' rson')
    qed
    have up: "dad z' x \<in> live z' \<and> (lson z' (dad z' x) = x \<or> rson z' (dad z' x) = x)
        \<or> is_root (dad z' x) \<and> rson z' (dad z' x) = x"
    proof (cases "x = q")
      case True
      then have "dad z' x = d" using x by (simp add: dad')
      moreover have "d \<in> live z \<and> (lson z d = p \<or> rson z d = p) \<or> is_root d \<and> rson z d = p"
        using dp(4) by (simp add: d_def)
      ultimately show ?thesis using True L qp by (auto simp: lson' rson')
    next
      case False
      then have e: "dad z' x = dad z x" using x by (simp add: dad')
      have "dad z x \<noteq> p"
        using dx(4) False q live_less [OF x(1)] root_not_live(1) [of p z] p by auto
      moreover have "lson z' (dad z x) = lson z (dad z x)" if "lson z (dad z x) = x"
        using that x dp(4) by (auto simp: lson' d_def dest: root_not_live)
      moreover have "rson z' (dad z x) = rson z (dad z x)" if "rson z (dad z x) = x"
        using that x by (auto simp: rson')
      ultimately show ?thesis using dx(4) L by (auto simp: e)
    qed
    have fbx: "first_byte z' x = first_byte z' (dad z' x)"
      using dx(5) dp(5) cq x by (cases "x = q") (auto simp: fb dad' child_ok_def d_def dest: live_less)
    from l r lr up fbx show "child_ok z' x (lson z' x) \<and> child_ok z' x (rson z' x)
        \<and> (lson z' x \<noteq> NIL \<longrightarrow> lson z' x \<noteq> rson z' x)
        \<and> (dad z' x \<in> live z' \<and> (lson z' (dad z' x) = x \<or> rson z' (dad z' x) = x)
           \<or> is_root (dad z' x) \<and> rson z' (dad z' x) = x)
        \<and> first_byte z' x = first_byte z' (dad z' x)" by blast
    show "rk x < rk (dad z' x)"
    proof (cases "x = q")
      case True
      then have "rk x < rk p" using cq x rk [OF x(1)] live_less [OF x(1)] by (auto simp: child_ok_def)
      also have "rk p < rk d" using rk [OF p] by (simp add: d_def)
      finally show ?thesis using True x by (simp add: dad')
    next
      case False
      with rk [OF x(1)] x show ?thesis by (simp add: dad')
    qed
  next
    fix x assume x: "is_root x"
    have "x \<noteq> p" using x p root_not_live by blast
    show "child_ok z' x (rson z' x)"
    proof (cases "x = d \<and> rson z d = p")
      case True then show ?thesis using cd by (simp add: rson')
    next
      case False
      then have e: "rson z' x = rson z x" by (auto simp: rson')
      have "rson z x \<noteq> p" using forest_root [OF f x] False live_less [OF p] by (auto simp: child_ok_def d_def)
      with co [OF forest_root [OF f x]] \<open>x \<noteq> p\<close> e show ?thesis by simp
    qed
  qed
  then show "forest (take_place q p z)" by (simp add: z'_def)
qed

lemma replace_ok:
  assumes f: "forest z" and p: "p \<in> live z" and r: "r < LZ_N" "r \<notin> live z"
    and byte: "first_byte z r = first_byte z p"
  shows "forest (replace_node r p z)" "live (replace_node r p z) = insert r (live z - {p})"
proof -
  define a b d z' where "a = lson z p" and "b = rson z p" and "d = dad z p" and "z' = replace_node r p z"
  note n = no_loop [OF f p] and dp = forestD [OF f p]
  have ab: "child_ok z p a" "child_ok z p b" "a \<noteq> NIL \<Longrightarrow> a \<noteq> b" using dp by (auto simp: a_def b_def)
  have ne: "r \<noteq> p" "a \<noteq> p" "b \<noteq> p" "d \<noteq> p" "d \<noteq> r" "a \<noteq> r" "b \<noteq> r" "d \<noteq> NIL"
    "a \<noteq> NIL \<Longrightarrow> d \<noteq> a" "b \<noteq> NIL \<Longrightarrow> d \<noteq> b"
    using p r n ab dp(4) by (auto simp: a_def b_def d_def child_ok_def is_root_def)
  have dad': "dad z' = (dad z)(r := d, a := r, b := r, p := NIL)"
    and lson': "lson z' = (if rson z d = p then (lson z)(r := a) else (lson z)(r := a, d := r))"
    and rson': "rson z' = (if rson z d = p then (rson z)(r := b, d := r) else (rson z)(r := b))"
    and text': "text_buf z' = text_buf z"
    using ne by (simp_all add: z'_def replace_node_def a_def [symmetric] b_def [symmetric] d_def [symmetric] Let_def)
  have al: "a \<noteq> NIL \<Longrightarrow> a \<in> live z \<and> dad z a = p" "b \<noteq> NIL \<Longrightarrow> b \<in> live z \<and> dad z b = p"
    using ab by (simp_all add: child_ok_def)
  have L: "live z' = insert r (live z - {p})"
  proof (rule set_eqI)
    fix x
    consider "x = p" | "x = r" | "x \<noteq> p" "x \<noteq> r" "x = a \<or> x = b" | "x \<noteq> p" "x \<noteq> r" "x \<noteq> a" "x \<noteq> b" by blast
    then show "x \<in> live z' \<longleftrightarrow> x \<in> insert r (live z - {p})"
    proof cases
      case 1 with ne show ?thesis by (simp add: live_def dad')
    next
      case 2 with ne r show ?thesis by (simp add: live_def dad')
    next
      case 3
      then have "dad z' x = r" by (auto simp: dad')
      with 3 al r live_less [of x z] show ?thesis by (cases "x = NIL") (auto simp: live_def)
    next
      case 4 then show ?thesis by (simp add: live_def dad')
    qed
  qed
  then show "live (replace_node r p z) = insert r (live z - {p})" by (simp add: z'_def)
  have fb: "first_byte z' x = first_byte z x" for x by (simp add: first_byte_def text')
  obtain rk where rk: "\<And>x. x \<in> live z \<Longrightarrow> rk x < (rk (dad z x) :: nat)"
    using forest_rank [OF f] by blast
  have dkeep: "dad z' y = dad z y" if "y \<in> live z" "dad z y \<noteq> p" "y \<noteq> p" for y
    using that r al live_less [of y z] by (auto simp: dad')
  have co: "child_ok z' x y" if "child_ok z x y" "y \<noteq> p" "x \<noteq> p" for x y
  proof (cases "y = NIL")
    case False
    with that(1) have y: "y \<in> live z" "dad z y = x" by (simp_all add: child_ok_def)
    with dkeep [of y] that L show ?thesis by (simp add: child_ok_def)
  qed (simp add: child_ok_def)
  have cab: "child_ok z' r a" "child_ok z' r b"
    using al ne L by (auto simp: child_ok_def dad')
  have cr: "child_ok z' d r" using ne L by (simp add: child_ok_def dad')
  have "forest z'"
  proof (rule forestI [where rk = "rk(r := rk p)"])
    fix x assume "x \<in> live z'"
    then consider (new) "x = r" | (old) "x \<in> live z" "x \<noteq> p" "x \<noteq> r" using L r by auto
    then show "child_ok z' x (lson z' x) \<and> child_ok z' x (rson z' x)
        \<and> (lson z' x \<noteq> NIL \<longrightarrow> lson z' x \<noteq> rson z' x)
        \<and> (dad z' x \<in> live z' \<and> (lson z' (dad z' x) = x \<or> rson z' (dad z' x) = x)
           \<or> is_root (dad z' x) \<and> rson z' (dad z' x) = x)
        \<and> first_byte z' x = first_byte z' (dad z' x)"
    proof cases
      case new
      have e: "lson z' r = a" "rson z' r = b" "dad z' r = d" using ne by (simp_all add: lson' rson' dad')
      have "d \<in> live z \<and> (lson z d = p \<or> rson z d = p) \<or> is_root d \<and> rson z d = p"
        using dp(4) by (simp add: d_def)
      then have "d \<in> live z' \<and> (lson z' d = r \<or> rson z' d = r) \<or> is_root d \<and> rson z' d = r"
        using L ne by (auto simp: lson' rson')
      moreover have "first_byte z' r = first_byte z' d" using byte dp(5) by (simp add: fb d_def)
      ultimately show ?thesis using cab ab(3) by (simp add: new e)
    next
      case old
      note dx = forestD [OF f old(1)]
      have l: "child_ok z' x (lson z' x)"
      proof (cases "x = d \<and> rson z d \<noteq> p")
        case True then show ?thesis using cr by (simp add: lson')
      next
        case False
        then have e: "lson z' x = lson z x" using old by (auto simp: lson')
        have "lson z x \<noteq> p" using dx(1,3) False live_less [OF p] by (auto simp: child_ok_def d_def)
        with co [OF dx(1)] old e show ?thesis by simp
      qed
      have rr: "child_ok z' x (rson z' x)"
      proof (cases "x = d \<and> rson z d = p")
        case True then show ?thesis using cr by (simp add: rson')
      next
        case False
        then have e: "rson z' x = rson z x" using old by (auto simp: rson')
        have "rson z x \<noteq> p" using dx(2) False live_less [OF p] by (auto simp: child_ok_def d_def)
        with co [OF dx(2)] old e show ?thesis by simp
      qed
      have "r \<noteq> lson z x" "r \<noteq> rson z x" using dx(1,2) r by (auto simp: child_ok_def)
      then have lr: "lson z' x \<noteq> NIL \<longrightarrow> lson z' x \<noteq> rson z' x"
        using dx(3) old by (auto simp: lson' rson')
      have up: "dad z' x \<in> live z' \<and> (lson z' (dad z' x) = x \<or> rson z' (dad z' x) = x)
          \<or> is_root (dad z' x) \<and> rson z' (dad z' x) = x"
      proof (cases "dad z x = p")
        case True
        then have "x = a \<or> x = b" using dx(4) root_not_live(1) p by (auto simp: a_def b_def)
        moreover have "x \<noteq> NIL" using live_less [OF old(1)] by simp
        ultimately have "dad z' x = r" using old by (auto simp: dad')
        moreover have "lson z' r = a" "rson z' r = b" using ne by (simp_all add: lson' rson')
        ultimately show ?thesis using \<open>x = a \<or> x = b\<close> L by auto
      next
        case False
        have e: "dad z' x = dad z x" by (rule dkeep [OF old(1) False old(2)])
        have "dad z x \<noteq> r" using dx(4) r by (auto simp: is_root_def)
        then have "lson z (dad z x) = x \<Longrightarrow> dad z x \<in> live z \<Longrightarrow> lson z' (dad z x) = x"
          "rson z (dad z x) = x \<Longrightarrow> rson z' (dad z x) = x"
          using old dp(4) by (auto simp: lson' rson' d_def dest: root_not_live)
        with dx(4) L False show ?thesis by (auto simp: e)
      qed
      have "first_byte z' x = first_byte z' (dad z' x)"
      proof (cases "dad z x = p")
        case True
        then have "x = a \<or> x = b" using dx(4) root_not_live(1) p by (auto simp: a_def b_def)
        then have "dad z' x = r" using old live_less [OF old(1)] by (auto simp: dad')
        with dx(5) True byte show ?thesis by (simp add: fb)
      next
        case False
        with dx(5) dkeep [OF old(1) False old(2)] show ?thesis by (simp add: fb)
      qed
      with l rr lr up show ?thesis by blast
    qed
    show "(rk(r := rk p)) x < (rk(r := rk p)) (dad z' x)"
      using \<open>x \<in> live z'\<close> L
    proof (cases "x = r")
      case True
      then show ?thesis using rk [OF p] ne by (simp add: dad' d_def)
    next
      case False
      then have x: "x \<in> live z" "x \<noteq> p" using \<open>x \<in> live z'\<close> L by auto
      show ?thesis
      proof (cases "dad z x = p")
        case True
        then have "x = a \<or> x = b" using forestD(4) [OF f x(1)] root_not_live(1) p by (auto simp: a_def b_def)
        then have "dad z' x = r" using x live_less [OF x(1)] by (auto simp: dad')
        with True rk [OF x(1)] False show ?thesis by simp
      next
        case F: False
        have "dad z x \<noteq> r" using forestD(4) [OF f x(1)] r by (auto simp: is_root_def)
        with rk [OF x(1)] False dkeep [OF x(1) F x(2)] show ?thesis by simp
      qed
    qed
  next
    fix x assume x: "is_root x"
    then have xr: "x \<noteq> p" "x \<noteq> r" using p r root_not_live by (auto simp: is_root_def)
    show "child_ok z' x (rson z' x)"
    proof (cases "x = d \<and> rson z d = p")
      case True then show ?thesis using cr by (simp add: rson')
    next
      case False
      then have e: "rson z' x = rson z x" using xr by (auto simp: rson')
      have "rson z x \<noteq> p" using forest_root [OF f x] False live_less [OF p] by (auto simp: child_ok_def d_def)
      with co [OF forest_root [OF f x]] xr e show ?thesis by simp
    qed
  qed
  then show "forest (replace_node r p z)" by (simp add: z'_def)
qed

section \<open>Deletion\<close>

lemma rightmost_finds:
  assumes f: "forest z" and rk: "\<And>x. x \<in> live z \<Longrightarrow> rk x < (rk (dad z x) :: nat)" and "x \<in> live z"
  shows "\<exists>q. rightmost (rson z) x = Some q \<and> q \<in> live z \<and> rson z q = NIL \<and> rk q \<le> rk x
    \<and> first_byte z q = first_byte z x
    \<and> (q \<noteq> x \<longrightarrow> dad z q \<in> live z \<and> rson z (dad z q) = q \<and> rk (dad z q) \<le> rk x)"
  using assms(3)
proof (induction "rk x" arbitrary: x rule: less_induct)
  case less
  show ?case
  proof (cases "rson z x = NIL")
    case True
    with less.prems show ?thesis by (subst rightmost.simps) auto
  next
    case False
    define y where "y = rson z x"
    have y: "y \<in> live z" "dad z y = x" using forestD(2) [OF f less.prems] False by (auto simp: child_ok_def y_def)
    have "rk y < rk x" using rk [OF y(1)] y(2) by simp
    from less.hyps [OF this y(1)] obtain q where
      q: "rightmost (rson z) y = Some q" "q \<in> live z" "rson z q = NIL" "rk q \<le> rk y"
        "first_byte z q = first_byte z y"
        "q \<noteq> y \<longrightarrow> dad z q \<in> live z \<and> rson z (dad z q) = q \<and> rk (dad z q) \<le> rk y" by blast
    moreover have "first_byte z y = first_byte z x" using forestD(5) [OF f y(1)] y(2) by simp
    moreover have "rightmost (rson z) x = rightmost (rson z) y"
      using False by (subst rightmost.simps) (simp add: y_def)
    ultimately show ?thesis
      using \<open>rk y < rk x\<close> less.prems y(2) by (cases "q = y") (auto simp: y_def)
  qed
qed

text \<open>Only the cells of live nodes and roots matter.\<close>

lemma forest_cong:
  assumes "forest z" and dad': "\<And>x. x \<noteq> NIL \<Longrightarrow> dad z' x = dad z x" and "text_buf z' = text_buf z"
    and "\<And>p. p \<in> live z \<Longrightarrow> lson z' p = lson z p" "\<And>p. p \<in> live z \<or> is_root p \<Longrightarrow> rson z' p = rson z p"
  shows "forest z'" "live z' = live z"
proof -
  show L: "live z' = live z" using dad' by (auto simp: live_def)
  have fb: "first_byte z' x = first_byte z x" for x using assms(3) by (simp add: first_byte_def)
  have co: "child_ok z' x q = child_ok z x q" for x q
    using L dad' [of q] by (cases "q = NIL") (auto simp: child_ok_def)
  obtain rk where rk: "\<And>x. x \<in> live z \<Longrightarrow> rk x < (rk (dad z x) :: nat)"
    using forest_rank [OF assms(1)] by blast
  show "forest z'"
  proof (rule forestI [where rk = rk])
    fix p assume "p \<in> live z'"
    then have p: "p \<in> live z" by (simp add: L)
    have dp: "dad z' p = dad z p" using dad' live_less [OF p] by simp
    from forestD [OF assms(1) p] assms(4,5) [of p] assms(4,5) [of "dad z p"] p
    show "child_ok z' p (lson z' p) \<and> child_ok z' p (rson z' p)
        \<and> (lson z' p \<noteq> NIL \<longrightarrow> lson z' p \<noteq> rson z' p)
        \<and> (dad z' p \<in> live z' \<and> (lson z' (dad z' p) = p \<or> rson z' (dad z' p) = p)
           \<or> is_root (dad z' p) \<and> rson z' (dad z' p) = p)
        \<and> first_byte z' p = first_byte z' (dad z' p)"
      unfolding L fb co dp by auto
    show "rk p < rk (dad z' p)" using rk [OF p] by (simp add: dp)
  next
    fix p assume "is_root p"
    with forest_root [OF assms(1)] assms(5) show "child_ok z' p (rson z' p)" by (simp add: co)
  qed
qed

lemma delete_spec:
  assumes f: "forest z" and p: "p < LZ_N"
  shows "\<exists>z'. delete_node p z = Some z' \<and> forest z' \<and> live z' = live z - {p} \<and> text_buf z' = text_buf z
    \<and> match_position z' = match_position z \<and> match_length z' = match_length z"
proof (cases "p \<in> live z")
  case False
  with p f show ?thesis by (auto simp: delete_node_def live_def)
next
  case live: True
  then have dp: "dad z p \<noteq> NIL" by (simp add: live_def)
  note cd = forestD(1-3) [OF f live] and n = no_loop [OF f live]
  have keep: "text_buf (take_place q p z0) = text_buf z0" "match_position (take_place q p z0) = match_position z0"
    "match_length (take_place q p z0) = match_length z0" for q p z0
    by (simp_all add: take_place_def Let_def)
  consider "rson z p = NIL" | "rson z p \<noteq> NIL" "lson z p = NIL" | "rson z p \<noteq> NIL" "lson z p \<noteq> NIL" by blast
  then show ?thesis
  proof cases
    case 1
    with splice [OF f live, of "lson z p"] dp show ?thesis by (auto simp: delete_node_def keep)
  next
    case 2
    with splice [OF f live, of "rson z p"] dp show ?thesis by (auto simp: delete_node_def keep)
  next
    case 3
    define a b d where "a = lson z p" and "b = rson z p" and "d = dad z p"
    have al: "a \<in> live z" "dad z a = p" "b \<in> live z" "dad z b = p" "a \<noteq> b"
      using cd 3 by (auto simp: child_ok_def a_def b_def)
    obtain rk where rk: "\<And>x. x \<in> live z \<Longrightarrow> rk x < (rk (dad z x) :: nat)"
      using forest_rank [OF f] by blast
    obtain q where q: "rightmost (rson z) a = Some q" "q \<in> live z" "rson z q = NIL" "rk q \<le> rk a"
      "first_byte z q = first_byte z a"
      "q \<noteq> a \<Longrightarrow> dad z q \<in> live z \<and> rson z (dad z q) = q \<and> rk (dad z q) \<le> rk a"
      using rightmost_finds [of z rk a, OF f _ al(1)] rk by blast
    have ap: "rk a < rk p" using rk [OF al(1)] al(2) by simp
    have qp: "q \<noteq> p" using q(4) ap by auto
    define l dq where "l = lson z q" and "dq = dad z q"
    have lq: "l = NIL \<or> l \<in> live z \<and> dad z l = q" using forestD(1) [OF f q(2)] by (simp add: child_ok_def l_def)
    have lp: "l \<noteq> p" using lq rk [of p] live q(4) ap live_less [OF live] by auto
    have lne: "l \<noteq> q" "l \<noteq> b" using no_loop [OF f q(2)] lq al(4) qp live_less [OF al(3)] by (auto simp: l_def)
    have fbq: "first_byte z q = first_byte z p" using q(5) forestD(5) [OF f al(1)] al(2) by simp
    define z1 where "z1 = take_place l q z"
    have z1: "forest z1" "live z1 = live z - {q}"
      using splice [OF f q(2), of l] q(3) by (simp_all add: z1_def l_def)
    have "text_buf z1 = text_buf z" by (simp add: z1_def keep)
    then have fb1: "first_byte z1 q = first_byte z1 p" using fbq unfolding first_byte_def by metis
    have "p \<in> live z1" "q \<notin> live z1" "q < LZ_N" using z1(2) live qp live_less [OF q(2)] by auto
    from replace_ok [OF z1(1) this(1,3,2) fb1] z1(2)
    have r: "forest (replace_node q p z1)" "live (replace_node q p z1) = live z - {p}"
      using q(2) qp by auto
    have bq: "b \<noteq> q"
      using q(6) al(4,5) ap by (cases "q = a") auto
    have ne: "a \<noteq> p" "b \<noteq> p" "d \<noteq> p" "d \<noteq> NIL" "d \<noteq> a" "d \<noteq> b" "p \<noteq> NIL" "q \<noteq> NIL"
      using n 3 live_less [OF live] live_less [OF q(2)] by (auto simp: a_def b_def d_def)
    have dq: "d \<noteq> q" using rk [OF live] q(4) ap by (auto simp: d_def)
    show ?thesis
    proof (cases "q = a")
      case True
      have code: "delete_node p z = Some (take_place a p
        (z\<lparr>rson := (rson z)(a := b), dad := (dad z)(b := a)\<rparr>))"
        using dp 3 q(3) True al(5) ne by (simp add: delete_node_def Let_def a_def [symmetric] b_def [symmetric])
      let ?z' = "take_place a p (z\<lparr>rson := (rson z)(a := b), dad := (dad z)(b := a)\<rparr>)"
      have lq': "l = NIL \<or> dad z l = a" "lson z a = l" using lq True by (auto simp: l_def)
      have z1': "dad z1 = (dad z)(l := p, a := NIL)" "lson z1 = (lson z)(p := l)" "rson z1 = rson z"
        "text_buf z1 = text_buf z"
        using al(2,5) lne True
        by (simp_all add: z1_def take_place_def b_def Let_def)
      have c1: "dad ?z' x = dad (replace_node q p z1) x" if "x \<noteq> NIL" for x
        using that lq' ne lp lne bq True al(5)
        by (auto simp: replace_node_def take_place_def z1' Let_def a_def [symmetric] b_def [symmetric]
            d_def [symmetric])
      have c2: "text_buf ?z' = text_buf (replace_node q p z1)"
        by (simp add: replace_node_def take_place_def z1' Let_def)
      have c3: "lson ?z' x = lson (replace_node q p z1) x" if "x \<in> live (replace_node q p z1)" for x
        using that lq' ne lp lne bq True al(5) r(2)
        by (auto simp: replace_node_def take_place_def z1' Let_def a_def [symmetric] b_def [symmetric]
            d_def [symmetric])
      have c4: "rson ?z' x = rson (replace_node q p z1) x"
        if "x \<in> live (replace_node q p z1) \<or> is_root x" for x
        using lq' ne lp lne bq True al(5)
        by (auto simp: replace_node_def take_place_def z1' Let_def a_def [symmetric] b_def [symmetric]
            d_def [symmetric])
      note forest_cong [OF r(1) c1 c2 c3 c4]
      with code r(2) show ?thesis by (simp add: keep)
    next
      case False
      then have qa: "dq \<noteq> p" "rson z dq = q" "dq \<noteq> d"
        using q(6) ap rk [OF live] by (auto simp: dq_def d_def)
      have z1': "z1 = z\<lparr>dad := (dad z)(l := dq, q := NIL), rson := (rson z)(dq := l)\<rparr>"
        using qa lne by (simp add: z1_def take_place_def dq_def [symmetric] Let_def)
      have "rson z a \<noteq> NIL"
        using q(1) False by (subst (asm) rightmost.simps) (auto split: if_splits)
      then have "delete_node p z = Some (replace_node q p z1)"
        using dp 3 q(1) qa ne lp lne bq qp dq False al(5)
        by (simp add: delete_node_def unhook_def take_place_def replace_node_def z1' Let_def
            a_def [symmetric] b_def [symmetric] d_def [symmetric] l_def [symmetric] dq_def [symmetric]
            fun_upd_twist)
      moreover have "text_buf (replace_node q p z1) = text_buf z"
        "match_position (replace_node q p z1) = match_position z"
        "match_length (replace_node q p z1) = match_length z"
        by (simp_all add: replace_node_def z1' Let_def)
      ultimately show ?thesis using r by simp
    qed
  qed
qed

section \<open>Searching and inserting\<close>

text \<open>The best match noted so far is a match at one of the positions \<open>S\<close>.\<close>

definition match_ok :: "nat \<Rightarrow> nat set \<Rightarrow> lz \<Rightarrow> bool" where
  "match_ok r S z \<longleftrightarrow> match_length z \<le> LZ_F
     \<and> (THRESHOLD < match_length z \<longrightarrow> (\<exists>q\<in>S. match_position z = ring_distance r q - 1
          \<and> (\<forall>j<match_length z. text_buf z (r + j) = text_buf z (q + j))))"

lemma compare_at_spec:
  "compare_at t r p i cmp = (i', cmp') \<Longrightarrow> i \<le> LZ_F \<Longrightarrow>
   i \<le> i' \<and> i' \<le> LZ_F \<and> (\<forall>j. i \<le> j \<longrightarrow> j < i' \<longrightarrow> t (r + j) = t (p + j))"
proof (induction t r p i cmp rule: compare_at.induct)
  case (1 t r p i cmp)
  show ?case
  proof (cases "i < LZ_F \<and> t (r + i) = t (p + i)")
    case True
    then have "compare_at t r p (i + 1) 0 = (i', cmp')"
      using "1.prems"(1) by (subst (asm) compare_at.simps) simp
    with "1.IH" [of "uint (t (r + i)) - uint (t (p + i))"] True
    have IH: "i + 1 \<le> i'" "i' \<le> LZ_F" "\<forall>j. i + 1 \<le> j \<longrightarrow> j < i' \<longrightarrow> t (r + j) = t (p + j)" by auto
    have "t (r + j) = t (p + j)" if "i \<le> j" "j < i'" for j
      using that True IH(3) by (cases "j = i") auto
    with IH show ?thesis by auto
  next
    case False
    then have "i < LZ_F \<Longrightarrow> uint (t (r + i)) \<noteq> uint (t (p + i))" by (simp add: word_uint_eq_iff)
    with "1.prems" show ?thesis by (subst (asm) compare_at.simps) (auto simp: Let_def split: if_splits)
  qed
qed

lemma note_match_ok:
  assumes "match_ok r S z" "q \<in> S" "i \<le> LZ_F" "\<forall>j<i. text_buf z (r + j) = text_buf z (q + j)"
    and "note_match r q i z = (z', full)"
  shows "match_ok r S z' \<and> dad z' = dad z \<and> lson z' = lson z \<and> rson z' = rson z \<and> text_buf z' = text_buf z"
proof (cases "THRESHOLD < i")
  case False
  with assms show ?thesis by (simp add: note_match_def)
next
  case True
  have mine: "match_ok r S (z\<lparr>match_position := ring_distance r q - 1, match_length := i\<rparr>)"
    using assms(2-4) by (auto simp: match_ok_def)
  show ?thesis
  proof (cases "match_length z < i")
    case better: True
    with True assms(5) mine show ?thesis by (auto simp: note_match_def Let_def split: if_splits)
  next
    case worse: False
    have "match_ok r S (z\<lparr>match_position := ring_distance r q - 1\<rparr>)" if "match_length z = i"
      using mine that by (simp add: match_ok_def)
    with worse True assms(1,5) show ?thesis by (auto simp: note_match_def Let_def split: if_splits)
  qed
qed

lemma root_of_inj: "root_of a = root_of b \<Longrightarrow> a = b"
  by (simp add: root_of_def word_unat_eq_iff)

lemma root_of_root: "is_root (root_of b)"
  using unsigned_less [of b] by (simp add: root_of_def is_root_def)

lemma same_tree:
  "first_byte z r = first_byte z q \<Longrightarrow> r < LZ_N \<Longrightarrow> q < LZ_N \<Longrightarrow> text_buf z r = text_buf z q"
  by (auto simp: first_byte_def is_root_def intro: root_of_inj)

lemma insert_loop_ok:
  assumes rk: "\<And>x. x < LZ_N \<Longrightarrow> D x \<noteq> NIL \<Longrightarrow> rk x < (rk (D x) :: nat)"
    and "forest z" "dad z = D" "r < LZ_N" "r \<notin> live z" "lson z r = NIL" "rson z r = NIL"
    and "p \<in> live z \<or> is_root p \<and> 0 \<le> cmp" "first_byte z r = first_byte z p" "match_ok r (live z) z"
  shows "\<exists>z'. insert_loop r p cmp z = Some z' \<and> forest z' \<and> live z' \<subseteq> insert r (live z)
    \<and> text_buf z' = text_buf z \<and> match_ok r (live z) z'"
  using assms(2-)
proof (induction "rk p" arbitrary: p cmp z rule: less_induct)
  case less
  note f = less.prems(1)
  define q where "q = (if 0 \<le> cmp then rson z p else lson z p)"
  have cq: "child_ok z p q"
    using forestD(1,2) [OF f] forest_root [OF f] less.prems(7) by (auto simp: q_def)
  show ?case
  proof (cases "q = NIL")
    case True
    let ?z = "if 0 \<le> cmp then z\<lparr>rson := (rson z)(p := r), dad := (dad z)(r := p)\<rparr>
                else z\<lparr>lson := (lson z)(p := r), dad := (dad z)(r := p)\<rparr>"
    have "insert_loop r p cmp z = Some ?z"
      using True by (subst insert_loop.simps) (simp add: q_def)
    moreover have "forest ?z \<and> live ?z = insert r (live z)"
    proof (cases "0 \<le> cmp")
      case c: True
      with attach_right [OF f less.prems(3,4) _ _ less.prems(5,6,8)] True less.prems(7)
      show ?thesis by (auto simp: q_def)
    next
      case c: False
      with attach_left [OF f less.prems(3,4) _ _ less.prems(5,6,8)] True less.prems(7)
      show ?thesis by (auto simp: q_def)
    qed
    moreover have "match_ok r (live z) ?z" using less.prems(9) by (auto simp: match_ok_def)
    ultimately show ?thesis by auto
  next
    case False
    then have q: "q \<in> live z" "dad z q = p" using cq by (auto simp: child_ok_def)
    have fq: "first_byte z r = first_byte z q" using forestD(5) [OF f q(1)] q(2) less.prems(8) by simp
    obtain i c' where c: "compare_at (text_buf z) r q 1 cmp = (i, c')" by fastforce
    obtain z1 full where m: "note_match r q i z = (z1, full)" by fastforce
    have i: "i \<le> LZ_F" "\<forall>j<i. text_buf z (r + j) = text_buf z (q + j)"
    proof -
      have "text_buf z (r + j) = text_buf z (q + j)" if "j < i" for j
      proof (cases j)
        case 0
        with same_tree [OF fq less.prems(3) live_less [OF q(1)]] show ?thesis by simp
      next
        case (Suc k)
        with compare_at_spec [OF c] that show ?thesis by auto
      qed
      then show "i \<le> LZ_F" "\<forall>j<i. text_buf z (r + j) = text_buf z (q + j)"
        using compare_at_spec [OF c] by auto
    qed
    from note_match_ok [OF less.prems(9) q(1) i m] have z1: "match_ok r (live z) z1" "dad z1 = dad z"
      "lson z1 = lson z" "rson z1 = rson z" "text_buf z1 = text_buf z" by auto
    have f1: "forest z1" and L1: "live z1 = live z"
      using forest_cong [OF f, of z1] z1 by auto
    have fb1: "first_byte z1 x = first_byte z x" for x using z1(5) by (simp add: first_byte_def)
    have step: "insert_loop r p cmp z = (if full then Some (replace_node r q z1) else insert_loop r q c' z1)"
      using False c m by (subst insert_loop.simps) (simp add: q_def Let_def)
    show ?thesis
    proof (cases full)
      case True
      have "forest (replace_node r q z1)" "live (replace_node r q z1) = insert r (live z - {q})"
        using replace_ok [OF f1, of q r] q(1) less.prems(3,4) fq by (simp_all add: L1 fb1)
      moreover have "match_ok r (live z) (replace_node r q z1)" "text_buf (replace_node r q z1) = text_buf z"
        using z1(1,5) by (simp_all add: match_ok_def replace_node_def Let_def)
      ultimately show ?thesis using step True by auto
    next
      case no: False
      have "rk q < rk p" using rk [of q] q live_less [OF q(1)] less.prems(2) by (auto simp: live_def)
      from less.hyps [OF this f1] z1 less.prems q(1) fq no step
      show ?thesis by (auto simp: L1 fb1)
    qed
  qed
qed

lemma insert_spec:
  assumes f: "forest z" and r: "r < LZ_N" "r \<notin> live z"
  shows "\<exists>z'. insert_node r z = Some z' \<and> forest z' \<and> live z' \<subseteq> insert r (live z)
    \<and> text_buf z' = text_buf z \<and> match_ok r (live z) z'"
proof -
  obtain rk where rk: "\<And>x. x \<in> live z \<Longrightarrow> rk x < (rk (dad z x) :: nat)"
    using forest_rank [OF f] by blast
  let ?z = "z\<lparr>rson := (rson z)(r := NIL), lson := (lson z)(r := NIL), match_length := 0\<rparr>"
  have ne: "p \<noteq> r" if "p \<in> live z \<or> is_root p" for p using that r by (auto simp: is_root_def)
  have "lson ?z p = lson z p" if "p \<in> live z" for p using ne that by simp
  moreover have "rson ?z p = rson z p" if "p \<in> live z \<or> is_root p" for p using ne [OF that] by simp
  ultimately have z: "forest ?z" "live ?z = live z"
    using forest_cong [OF f, of ?z] by simp_all
  have "first_byte ?z r = first_byte ?z (root_of (text_buf z r))"
    using r root_of_root [of "text_buf z r"] by (simp add: first_byte_def) (simp add: is_root_def)
  with insert_loop_ok [of "dad z" rk ?z r "root_of (text_buf z r)" 1] rk z r root_of_root [of "text_buf z r"]
  show ?thesis by (auto simp: insert_node_def match_ok_def live_def)
qed

end
