(* ===== verification/Lzhuf_Crc.thy ===== *)
theory Lzhuf_Crc
  imports Prelude
begin

text \<open>
  The CRC-16 of the B2 stream and the message checksum (src/src/web/lzhuf.py, the public API):
  the table, the update step and the sum over the bytes followed by two zero bytes, with
  what the check detects: any change confined to one byte.
\<close>

section \<open>Definitions\<close>

text \<open>One shift of the table construction; \<^verbatim>\<open>i << 8\<close> for a byte \<open>i\<close> is where an entry starts.\<close>

definition crc_shift :: "16 word \<Rightarrow> 16 word" where
  "crc_shift c = (if c AND 0x8000 \<noteq> 0 then push_bit 1 c XOR 0x1021 else push_bit 1 c)"

definition crc_entry :: "nat \<Rightarrow> 16 word" where
  "crc_entry i = (crc_shift ^^ 8) (push_bit 8 (word_of_nat i))"

definition CRC16_TAB :: "16 word list" where
  "CRC16_TAB = map crc_entry [0..<256]"

definition crc16_update :: "byte \<Rightarrow> 16 word \<Rightarrow> 16 word" where
  "crc16_update cp sm = (push_bit 8 sm AND 0xFF00) XOR CRC16_TAB ! (unat (drop_bit 8 sm AND 0xFF)) XOR ucast cp"

definition crc16 :: "bytes \<Rightarrow> 16 word" where
  "crc16 data = fold crc16_update [0, 0] (fold crc16_update data 0)"

definition compute_checksum :: "bytes \<Rightarrow> int" where
  "compute_checksum data = (- sum_list (map uint data)) AND 0xFF"

section \<open>The table separates the high bytes\<close>

lemma and_8000: "(c AND 0x8000 \<noteq> 0) = bit (c :: 16 word) 15"
proof -
  have b: "bit (0x8000 :: 16 word) n \<longleftrightarrow> n = 15" for n
    using bit_exp_iff [of 15 n, where 'a = "16 word"] by (auto simp: possible_bit_def)
  have "c AND 0x8000 = 0 \<longleftrightarrow> (\<forall>n. \<not> bit (c AND 0x8000) n)"
    by (auto intro: bit_word_eqI simp del: bit_and_iff)
  also have "\<dots> \<longleftrightarrow> \<not> bit c 15"
    by (simp only: bit_and_iff b) blast
  finally show ?thesis by blast
qed

lemma crc_shift_xor: "crc_shift (a XOR b) = crc_shift a XOR crc_shift b"
  by (simp add: crc_shift_def and_8000 bit_xor_iff push_bit_xor ac_simps)

lemma crc_shifts_xor: "(crc_shift ^^ n) (a XOR b) = (crc_shift ^^ n) a XOR (crc_shift ^^ n) b"
  by (induction n) (simp_all add: crc_shift_xor)

definition crc_of :: "byte \<Rightarrow> 16 word" where
  "crc_of d = (crc_shift ^^ 8) (push_bit 8 (ucast d))"

lemma crc_of_xor: "crc_of (a XOR b) = crc_of a XOR crc_of b"
  by (simp add: crc_of_def crc_shifts_xor [symmetric] unsigned_xor_eq push_bit_xor)

lemma crc_of_0 [simp]: "crc_of 0 = 0"
  by (simp add: crc_of_def crc_shift_def numeral_eq_Suc)

lemma crc_of_powers:
  "crc_of 1 = 0x1021" "crc_of 2 = 0x2042" "crc_of 4 = 0x4084" "crc_of 8 = 0x8108"
  "crc_of 0x10 = 0x1231" "crc_of 0x20 = 0x2462" "crc_of 0x40 = 0x48C4" "crc_of 0x80 = 0x9188"
  by code_simp+

lemma byte_as_bits:
  "(d :: byte) = (if bit d 0 then 1 else 0) XOR (if bit d 1 then 2 else 0) XOR (if bit d 2 then 4 else 0)
     XOR (if bit d 3 then 8 else 0) XOR (if bit d 4 then 0x10 else 0) XOR (if bit d 5 then 0x20 else 0)
     XOR (if bit d 6 then 0x40 else 0) XOR (if bit d 7 then 0x80 else 0)" (is "_ = ?r")
proof (rule bit_word_eqI)
  fix n assume "n < LENGTH(8)"
  then have "n \<in> {0, 1, 2, 3, 4, 5, 6, 7}" by auto
  then show "bit d n = bit ?r n" by (elim insertE emptyE) (simp_all add: bit_xor_iff)
qed

lemma crc_of_low_zero:
  assumes "crc_of d AND 0xFF = 0"
  shows "d = 0"
proof -
  have crc: "crc_of d = (if bit d 0 then 0x1021 else 0) XOR (if bit d 1 then 0x2042 else 0)
     XOR (if bit d 2 then 0x4084 else 0) XOR (if bit d 3 then 0x8108 else 0)
     XOR (if bit d 4 then 0x1231 else 0) XOR (if bit d 5 then 0x2462 else 0)
     XOR (if bit d 6 then 0x48C4 else 0) XOR (if bit d 7 then 0x9188 else 0)"
    by (subst byte_as_bits) (simp add: crc_of_xor if_distrib [of crc_of] crc_of_powers cong: if_cong)
  have low: "\<not> bit (crc_of d) n" if "n < 8" for n
  proof -
    have "bit (0xFF :: 16 word) n" using that bit_mask_iff [of 8 n, where 'a = "16 word"]
      by (simp add: mask_eq_exp_minus_1 possible_bit_def)
    moreover have "\<not> bit (crc_of d AND 0xFF) n" by (simp add: assms)
    ultimately show ?thesis by (simp add: bit_and_iff)
  qed
  from low [of 0] low [of 1] low [of 2] low [of 3] low [of 4] low [of 5] low [of 6] low [of 7]
  have bits: "\<not> bit d 0 \<and> \<not> bit d 1 \<and> \<not> bit d 2 \<and> \<not> bit d 3 \<and> \<not> bit d 4 \<and> \<not> bit d 5 \<and> \<not> bit d 6 \<and> \<not> bit d 7"
    by (simp add: crc bit_xor_iff split: if_splits)
  then show ?thesis by (subst byte_as_bits) simp
qed

lemma crc_table: "i < 256 \<Longrightarrow> CRC16_TAB ! i = crc_of (word_of_nat i)"
  by (simp add: CRC16_TAB_def crc_entry_def crc_of_def unsigned_of_nat take_bit_nat_eq_self)

section \<open>A changed byte changes the sum\<close>

lemma byte_index: "unat (drop_bit 8 (sm :: 16 word) AND 0xFF) < 256"
proof -
  have "drop_bit 8 sm AND 0xFF = take_bit 8 (drop_bit 8 sm)"
    by (simp add: take_bit_eq_mask mask_eq_exp_minus_1)
  then show ?thesis by (simp add: unsigned_take_bit_eq take_bit_nat_less_exp [of 8, simplified])
qed

lemma xor_cancel: "(x XOR a = x XOR b) = (a = b)" "(a XOR x = b XOR x) = (a = b)" for x :: "'a :: len word"
proof -
  have "a = b" if "x XOR a = x XOR b" for a b :: "'a word"
  proof -
    have "x XOR (x XOR a) = x XOR (x XOR b)" using that by simp
    then show ?thesis by (simp add: xor.assoc [symmetric])
  qed
  then show "(x XOR a = x XOR b) = (a = b)" "(a XOR x = b XOR x) = (a = b)"
    by (auto simp: xor.commute [of _ x])
qed

lemma xor_zero: "x XOR y = 0 \<Longrightarrow> x = y" for x y :: "'a :: len word"
  using xor_cancel(1) [of x x y] by simp

lemma crc16_update_inj:
  assumes "crc16_update cp sm = crc16_update cp sm'"
  shows "sm = sm'"
proof -
  let ?hi = "\<lambda>sm :: 16 word. word_of_nat (unat (drop_bit 8 sm AND 0xFF)) :: byte"
  have upd: "crc16_update cp sm = (push_bit 8 sm AND 0xFF00) XOR crc_of (?hi sm) XOR ucast cp" for sm
    by (simp add: crc16_update_def crc_table [OF byte_index])
  have hi: "bit (?hi sm) n = bit sm (n + 8)" if "n < 8" for sm n
  proof -
    have "drop_bit 8 sm AND 0xFF = take_bit 8 (drop_bit 8 sm)"
      by (simp add: take_bit_eq_mask mask_eq_exp_minus_1)
    then show ?thesis using that
      by (simp add: bit_of_nat_iff bit_unsigned_iff bit_take_bit_iff bit_drop_bit_eq add.commute)
  qed
  have mid: "(push_bit 8 sm AND 0xFF00) XOR crc_of (?hi sm) = (push_bit 8 sm' AND 0xFF00) XOR crc_of (?hi sm')"
    using assms unfolding upd by (simp add: xor_cancel xor.assoc [symmetric])
  have masks: "bit (0xFF :: 16 word) n \<longleftrightarrow> n < 8" "bit (0xFF00 :: 16 word) n \<longleftrightarrow> 8 \<le> n \<and> n < 16" for n
  proof -
    show "bit (0xFF :: 16 word) n \<longleftrightarrow> n < 8"
      using bit_mask_iff [of 8 n, where 'a = "16 word"] by (simp add: mask_eq_exp_minus_1 possible_bit_def) presburger
    have "(0xFF00 :: 16 word) = push_bit 8 0xFF" by simp
    then show "bit (0xFF00 :: 16 word) n \<longleftrightarrow> 8 \<le> n \<and> n < 16"
      using bit_mask_iff [of 8 "n - 8", where 'a = "16 word"]
      by (simp only: bit_push_bit_iff) (auto simp: mask_eq_exp_minus_1 possible_bit_def)
  qed
  have "crc_of (?hi sm XOR ?hi sm') AND 0xFF = 0"
  proof (rule bit_word_eqI)
    fix n assume "n < LENGTH(16)"
    have "bit (crc_of (?hi sm)) n = bit (crc_of (?hi sm')) n" if "n < 8"
      using arg_cong [OF mid, of "\<lambda>w. bit w n"] that by (simp only: bit_xor_iff bit_and_iff masks) auto
    then show "bit (crc_of (?hi sm XOR ?hi sm') AND 0xFF) n = bit 0 n"
      by (auto simp only: crc_of_xor bit_xor_iff bit_and_iff masks bit_0_eq bot_apply bot_bool_def)
  qed
  then have "?hi sm XOR ?hi sm' = 0" by (rule crc_of_low_zero)
  then have eq: "?hi sm = ?hi sm'" by (rule xor_zero)
  show ?thesis
  proof (rule bit_word_eqI)
    fix n assume n: "n < LENGTH(16)"
    show "bit sm n = bit sm' n"
    proof (cases "n < 8")
      case True
      have "push_bit 8 sm AND 0xFF00 = push_bit 8 sm' AND 0xFF00"
        using mid eq by (simp add: xor_cancel)
      from arg_cong [OF this, of "\<lambda>w. bit w (n + 8)"] True show ?thesis
        by (simp only: bit_push_bit_iff bit_and_iff masks possible_bit_def) simp
    next
      case False
      then have "n - 8 < 8" "n - 8 + 8 = n" using n by auto
      with hi [of "n - 8"] eq show ?thesis by metis
    qed
  qed
qed

lemma crc16_update_change:
  assumes "a \<noteq> b"
  shows "crc16_update a sm \<noteq> crc16_update b sm"
proof
  assume "crc16_update a sm = crc16_update b sm"
  then have "(ucast a :: 16 word) = ucast b"
    unfolding crc16_update_def by (simp add: xor_cancel xor.assoc [symmetric])
  then have u: "bit (ucast a :: 16 word) n = bit (ucast b :: 16 word) n" for n by (rule arg_cong)
  have "bit a n = bit b n" if "n < 8" for n
    using that u [of n] by (simp add: bit_unsigned_iff)
  then have "a = b" by (intro bit_word_eqI) simp
  with assms show False by blast
qed

lemma crc_fold_inj: "fold crc16_update xs sm = fold crc16_update xs sm' \<Longrightarrow> sm = sm'"
  by (induction xs arbitrary: sm sm') (auto dest: crc16_update_inj)

lemma crc16_byte_change:
  assumes "a \<noteq> b"
  shows "crc16 (xs @ a # ys) \<noteq> crc16 (xs @ b # ys)"
proof
  assume "crc16 (xs @ a # ys) = crc16 (xs @ b # ys)"
  then have "fold crc16_update (ys @ [0, 0]) (crc16_update a (fold crc16_update xs 0))
    = fold crc16_update (ys @ [0, 0]) (crc16_update b (fold crc16_update xs 0))"
    by (simp add: crc16_def)
  from crc_fold_inj [OF this] crc16_update_change [OF assms] show False by blast
qed

end
