(* ===== verification/Lzhuf.thy ===== *)
theory Lzhuf
  imports Lzhuf_Reconst Lzhuf_Tree Lzhuf_Crc
begin

text \<open>
  The LZHUF codec (src/src/web/lzhuf.py): the LZSS encoder and decoder over the ring buffer, the
  search trees, the adaptive Huffman tree and the bit streams, and the B2 stream with its
  length and CRC-16. What \<^verbatim>\<open>compress\<close> returns, \<^verbatim>\<open>decompress\<close> turns back into the message;
  \<^verbatim>\<open>compress\<close> always returns, and returns a stream for every message of up to 3866 bytes;
  a stream with one changed byte is refused.
\<close>

section \<open>Encoder\<close>

record encoder =
  e_lz :: lz
  e_huff :: huff
  e_out :: bit_writer
  e_rest :: bytes
  e_s :: nat
  e_r :: nat
  e_len :: nat

text \<open>\<^verbatim>\<open>& (N - 1)\<close> on a ring index.\<close>

definition wrap :: "nat \<Rightarrow> nat" where
  "wrap i = i mod LZ_N"

text \<open>One round of the loop that takes in the next input byte, and one of the loop that runs dry.\<close>

definition load_byte :: "byte \<Rightarrow> bytes \<Rightarrow> encoder \<Rightarrow> encoder option" where
  "load_byte c rest st =
     (case delete_node (e_s st) (e_lz st) of None \<Rightarrow> None
      | Some z \<Rightarrow>
          let s = e_s st; t = (text_buf z)(s := c);
              t = (if s < LZ_F - 1 then t(s + LZ_N := c) else t); r = wrap (e_r st + 1) in
          (case insert_node r (z\<lparr>text_buf := t\<rparr>) of None \<Rightarrow> None
           | Some z \<Rightarrow> Some (st\<lparr>e_lz := z, e_rest := rest, e_s := wrap (s + 1), e_r := r\<rparr>)))"

definition drain_byte :: "encoder \<Rightarrow> encoder option" where
  "drain_byte st =
     (case delete_node (e_s st) (e_lz st) of None \<Rightarrow> None
      | Some z \<Rightarrow>
          let st = st\<lparr>e_lz := z, e_s := wrap (e_s st + 1), e_r := wrap (e_r st + 1), e_len := e_len st - 1\<rparr> in
          if e_len st \<noteq> 0
          then (case insert_node (e_r st) z of None \<Rightarrow> None | Some z \<Rightarrow> Some (st\<lparr>e_lz := z\<rparr>))
          else Some st)"

text \<open>The two loops over \<^verbatim>\<open>last_match_length\<close>: once the input is used up it stays so.\<close>

primrec advance :: "nat \<Rightarrow> encoder \<Rightarrow> encoder option" where
  "advance 0 st = Some st"
| "advance (Suc n) st =
     (case (case e_rest st of [] \<Rightarrow> drain_byte st | c # rest \<Rightarrow> load_byte c rest st) of None \<Rightarrow> None
      | Some st \<Rightarrow> advance n st)"

definition emit :: "nat \<Rightarrow> encoder \<Rightarrow> (huff \<times> bit_writer) result option" where
  "emit ml st =
     (if ml \<le> THRESHOLD then encode_char (unat (text_buf (e_lz st) (e_r st))) (e_huff st, e_out st)
      else (case encode_char (255 - THRESHOLD + ml) (e_huff st, e_out st) of
              Some (Inr (h, w)) \<Rightarrow> Some (Inr (h, encode_position (nat (match_position (e_lz st))) w))
            | x \<Rightarrow> x))"

partial_function (option) enc_loop :: "encoder \<Rightarrow> bit_writer result option" where
  "enc_loop st =
     (if 0 < e_len st
      then let ml = (if e_len st < match_length (e_lz st) then e_len st else match_length (e_lz st)) in
        (case emit ml st of None \<Rightarrow> None
         | Some r \<Rightarrow>
            (case r of Inl e \<Rightarrow> Some (Inl e)
             | Inr hw \<Rightarrow>
                (case advance (if ml \<le> THRESHOLD then 1 else ml) (st\<lparr>e_huff := fst hw, e_out := snd hw\<rparr>) of
                   None \<Rightarrow> None | Some st \<Rightarrow> enc_loop st)))
      else Some (Inr (e_out st)))"
declare enc_loop.simps [simp del]

fun insert_all :: "nat list \<Rightarrow> lz \<Rightarrow> lz option" where
  "insert_all [] z = Some z"
| "insert_all (r # rs) z = (case insert_node r z of None \<Rightarrow> None | Some z \<Rightarrow> insert_all rs z)"

definition enc_start :: "bytes \<Rightarrow> lz" where
  "enc_start data = init_tree
     \<lparr>text_buf = (\<lambda>i. if i < LZ_N - LZ_F then 0x20
        else if i < LZ_N - LZ_F + min LZ_F (length data) then data ! (i - (LZ_N - LZ_F)) else 0),
      lson = \<lambda>_. 0, rson = \<lambda>_. 0, dad = \<lambda>_. 0, match_position = 0, match_length = 0\<rparr>"

definition lzss_encode :: "bytes \<Rightarrow> bytes result option" where
  "lzss_encode data =
     (let r = LZ_N - LZ_F; len = min LZ_F (length data) in
      if len = 0 then Some (Inr (bw_flush bw_init))
      else (case insert_all (map (\<lambda>i. r - i) [1..<LZ_F + 1] @ [r]) (enc_start data) of None \<Rightarrow> None
        | Some z \<Rightarrow>
           (case enc_loop \<lparr>e_lz = z, e_huff = huff_start, e_out = bw_init, e_rest = drop len data,
                          e_s = 0, e_r = r, e_len = len\<rparr> of None \<Rightarrow> None
            | Some x \<Rightarrow> Some (case x of Inl e \<Rightarrow> Inl e | Inr w \<Rightarrow> Inr (bw_flush w)))))"

section \<open>Decoder\<close>

record decoder =
  d_huff :: huff
  d_in :: bit_reader
  d_text :: "nat \<Rightarrow> byte"
  d_r :: nat
  d_out :: bytes

definition put_byte :: "byte \<Rightarrow> decoder \<Rightarrow> decoder" where
  "put_byte b d = d\<lparr>d_out := d_out d @ [b], d_text := (d_text d)(d_r d := b), d_r := wrap (d_r d + 1)\<rparr>"

primrec copy_match :: "nat \<Rightarrow> nat \<Rightarrow> nat \<Rightarrow> decoder \<Rightarrow> decoder" where
  "copy_match len 0 pos d = d"
| "copy_match len (Suc k) pos d =
     (let d = put_byte (d_text d pos) d in
      if len \<le> length (d_out d) then d else copy_match len k (wrap (pos + 1)) d)"

partial_function (option) dec_loop :: "nat \<Rightarrow> decoder \<Rightarrow> bytes option" where
  "dec_loop len d =
     (if length (d_out d) < len
      then (case decode_char (d_huff d, d_in d) of None \<Rightarrow> None
        | Some (c, h, r) \<Rightarrow>
            let d = d\<lparr>d_huff := h, d_in := r\<rparr> in
            if c < 256 then dec_loop len (put_byte (word_of_nat c) d)
            else (case decode_position (d_in d) of (off, r) \<Rightarrow>
              dec_loop len (copy_match len (c - 255 + THRESHOLD)
                (nat ((int (d_r d) - int off - 1) mod int LZ_N)) (d\<lparr>d_in := r\<rparr>))))
      else Some (d_out d))"
declare dec_loop.simps [simp del]

definition lzss_decode :: "bytes \<Rightarrow> nat \<Rightarrow> bytes option" where
  "lzss_decode data len = dec_loop len
     \<lparr>d_huff = huff_start, d_in = br_init data, d_text = \<lambda>i. if i < LZ_N - LZ_F then 0x20 else 0,
      d_r = LZ_N - LZ_F, d_out = []\<rparr>"

section \<open>The B2 stream\<close>

definition le_bytes :: "nat \<Rightarrow> nat \<Rightarrow> bytes" where
  "le_bytes k n = map (\<lambda>i. word_of_nat (n div 256 ^ i)) [0..<k]"

fun from_le :: "bytes \<Rightarrow> nat" where
  "from_le [] = 0"
| "from_le (b # bs) = unat b + 256 * from_le bs"

definition compress :: "bytes \<Rightarrow> bytes result option" where
  "compress data =
     (case lzss_encode data of None \<Rightarrow> None
      | Some (Inl e) \<Rightarrow> Some (Inl e)
      | Some (Inr body) \<Rightarrow>
          if 2 ^ 32 \<le> length data then Some (Inl OverflowError)
          else let len = le_bytes 4 (length data) in
            Some (Inr (le_bytes 2 (unat (crc16 (len @ body))) @ len @ body)))"

definition decompress :: "bytes \<Rightarrow> bytes result option" where
  "decompress blob =
     (if length blob < 6 then Some (Inl (ValueError ''B2 stream too short''))
      else let stored = from_le (take 2 blob); len = take 4 (drop 2 blob); body = drop 6 blob in
        if unat (crc16 (len @ body)) \<noteq> stored then Some (Inl (ValueError ''B2 CRC-16 mismatch''))
        else if from_le len = 0 then Some (Inr [])
        else map_option Inr (lzss_decode body (from_le len)))"

section \<open>The ring of the encoder\<close>

text \<open>The bytes both rings have seen: the initial spaces, then the message. \<open>d\<close> bytes are done.\<close>

definition hist :: "bytes \<Rightarrow> bytes" where
  "hist data = replicate 1988 0x20 @ data"

definition ring_ok :: "bytes \<Rightarrow> nat \<Rightarrow> nat \<Rightarrow> lz \<Rightarrow> bool" where
  "ring_ok data d e z \<longleftrightarrow> e \<le> d + LZ_N \<and> (\<forall>k. d \<le> k \<longrightarrow> k < e \<longrightarrow> text_buf z (k mod LZ_N) = hist data ! k
     \<and> (LZ_N \<le> k \<longrightarrow> k mod LZ_N < 59 \<longrightarrow> text_buf z (k mod LZ_N + LZ_N) = hist data ! k))"

definition live_in :: "nat \<Rightarrow> nat \<Rightarrow> lz \<Rightarrow> bool" where
  "live_in a b z \<longleftrightarrow> forest z \<and> live z \<subseteq> (\<lambda>k. k mod LZ_N) ` {a..<b}"

text \<open>What the encoder knows of its best match: it is a match of the message with its past.\<close>

definition match_at :: "bytes \<Rightarrow> nat \<Rightarrow> nat \<Rightarrow> lz \<Rightarrow> bool" where
  "match_at data d len z \<longleftrightarrow> match_length z \<le> LZ_F
     \<and> (THRESHOLD < match_length z \<longrightarrow> (\<exists>k. d \<le> k \<and> k < d + 1988
          \<and> match_position z = int (d + 1988) - int k - 1
          \<and> (\<forall>j. j < match_length z \<longrightarrow> j < len \<longrightarrow> hist data ! (k + j) = hist data ! (d + 1988 + j))))"

lemma mod_eq_near:
  assumes "(a :: nat) mod n = b mod n" "a \<le> b" "b < a + n"
  shows "a = b"
proof -
  have "n dvd b - a" using mod_eq_dvd_iff_nat [of a b n] assms(1,2) by simp
  moreover have "b - a < n" using assms(2,3) by linarith
  ultimately have "b - a = 0" using dvd_imp_le [of n "b - a"] by (metis not_gr_zero not_less)
  then show ?thesis using assms(2) by simp
qed

lemma ring_read:
  assumes "ring_ok data d e z" "d \<le> k" "k + j < e" "j < LZ_F"
  shows "text_buf z (k mod LZ_N + j) = hist data ! (k + j)"
proof (cases "k mod LZ_N + j < LZ_N")
  case True
  have "(k + j) mod LZ_N = (k mod LZ_N + j) mod LZ_N" by (rule mod_add_left_eq [symmetric])
  also have "\<dots> = k mod LZ_N + j" using True by (rule mod_less)
  finally have "(k + j) mod LZ_N = k mod LZ_N + j" .
  moreover have "text_buf z ((k + j) mod LZ_N) = hist data ! (k + j)"
    using assms(1) assms(2,3) unfolding ring_ok_def by (auto dest: spec [of _ "k + j"])
  ultimately show ?thesis by simp
next
  case False
  have kb: "k mod LZ_N < LZ_N" by simp
  have "(k + j) mod LZ_N = (k mod LZ_N + j) mod LZ_N" by (rule mod_add_left_eq [symmetric])
  also have "\<dots> = (k mod LZ_N + j - LZ_N) mod LZ_N" using False by (simp add: le_mod_geq)
  also have "\<dots> = k mod LZ_N + j - LZ_N" by (rule mod_less) (use assms(4) kb in linarith)
  finally have m: "(k + j) mod LZ_N = k mod LZ_N + j - LZ_N" .
  have "k mod LZ_N \<le> k" by (rule mod_less_eq_dividend)
  then have "LZ_N \<le> k + j" using False by linarith
  moreover have "(k + j) mod LZ_N < 59" unfolding m using assms(4) kb by linarith
  moreover have "d \<le> k + j" using assms(2) by simp
  ultimately have "text_buf z ((k + j) mod LZ_N + LZ_N) = hist data ! (k + j)"
    using assms(1,3) unfolding ring_ok_def by blast
  moreover have "(k + j) mod LZ_N + LZ_N = k mod LZ_N + j" unfolding m using False by linarith
  ultimately show ?thesis by simp
qed

lemma ring_distance_near:
  assumes "k < t" "t < k + LZ_N"
  shows "ring_distance (t mod LZ_N) (k mod LZ_N) = int t - int k"
proof -
  have "ring_distance (t mod LZ_N) (k mod LZ_N) = (int t - int k) mod 2048"
    by (simp add: ring_distance_def zmod_int mod_diff_eq)
  also have "\<dots> = int t - int k" using assms by (intro mod_pos_pos_trivial) auto
  finally show ?thesis .
qed

text \<open>Deleting the node about to be overwritten, and inserting the next one.\<close>

lemma delete_ring:
  assumes "live_in d (d + 1989) z" "ring_ok data d e z"
  obtains z' where "delete_node (d mod LZ_N) z = Some z'" "live_in (d + 1) (d + 1989) z'"
    "text_buf z' = text_buf z"
proof -
  from delete_spec [of z "d mod LZ_N"] assms(1) obtain z' where
    z': "delete_node (d mod LZ_N) z = Some z'" "forest z'" "live z' = live z - {d mod LZ_N}"
      "text_buf z' = text_buf z" by (auto simp: live_in_def)
  have "live z' \<subseteq> (\<lambda>k. k mod LZ_N) ` {d + 1..<d + 1989}"
  proof
    fix x assume "x \<in> live z'"
    then have "x \<noteq> d mod LZ_N" "x \<in> (\<lambda>k. k mod LZ_N) ` {d..<d + 1989}"
      using z'(3) assms(1) by (auto simp: live_in_def)
    then obtain k where k: "x = k mod LZ_N" "d \<le> k" "k < d + 1989" by auto
    with \<open>x \<noteq> d mod LZ_N\<close> have "k \<noteq> d" by blast
    with k show "x \<in> (\<lambda>k. k mod LZ_N) ` {d + 1..<d + 1989}" by (intro image_eqI [of _ _ k]) auto
  qed
  with z' that show thesis by (simp add: live_in_def)
qed

lemma insert_ring:
  assumes l: "live_in d (d + 1988) z" and r: "ring_ok data d e z" and e: "d + 1988 + len = e"
  obtains z' where "insert_node ((d + 1988) mod LZ_N) z = Some z'" "live_in d (d + 1989) z'"
    "text_buf z' = text_buf z" "match_at data d len z'"
proof -
  let ?t = "d + 1988"
  have new: "?t mod LZ_N \<notin> live z"
  proof
    assume "?t mod LZ_N \<in> live z"
    then obtain k where "?t mod LZ_N = k mod LZ_N" "d \<le> k" "k < ?t" using l by (auto simp: live_in_def)
    with mod_eq_near [of k LZ_N ?t] show False by simp
  qed
  have "forest z" "?t mod LZ_N < LZ_N" using l by (simp_all add: live_in_def)
  from insert_spec [OF this new] obtain z' where
    z': "insert_node (?t mod LZ_N) z = Some z'" "forest z'" "live z' \<subseteq> insert (?t mod LZ_N) (live z)"
      "text_buf z' = text_buf z" "match_ok (?t mod LZ_N) (live z) z'" by blast
  have "live z' \<subseteq> (\<lambda>k. k mod LZ_N) ` {d..<d + 1989}"
  proof
    fix x assume "x \<in> live z'"
    then consider "x = ?t mod LZ_N" | "x \<in> live z" using z'(3) by auto
    then show "x \<in> (\<lambda>k. k mod LZ_N) ` {d..<d + 1989}"
    proof cases
      case 1 then show ?thesis by (intro image_eqI [of _ _ ?t]) auto
    next
      case 2
      then obtain k where "x = k mod LZ_N" "d \<le> k" "k < ?t" using l by (auto simp: live_in_def)
      then show ?thesis by (intro image_eqI [of _ _ k]) auto
    qed
  qed
  then have "live_in d (d + 1989) z'" using z'(2) by (simp add: live_in_def)
  moreover have "match_at data d len z'"
    unfolding match_at_def
  proof (intro conjI impI)
    show ml: "match_length z' \<le> LZ_F" using z'(5) by (simp add: match_ok_def)
    assume "THRESHOLD < match_length z'"
    then obtain q where q: "q \<in> live z" "match_position z' = ring_distance (?t mod LZ_N) q - 1"
      "\<And>j. j < match_length z' \<Longrightarrow> text_buf z' (?t mod LZ_N + j) = text_buf z' (q + j)"
      using z'(5) by (auto simp: match_ok_def)
    then obtain k where k: "q = k mod LZ_N" "d \<le> k" "k < ?t" using l by (auto simp: live_in_def)
    have "hist data ! (k + j) = hist data ! (?t + j)" if "j < match_length z'" "j < len" for j
    proof -
      have "text_buf z (k mod LZ_N + j) = hist data ! (k + j)"
        by (rule ring_read [OF r]) (use k that ml e in auto)
      moreover have "text_buf z (?t mod LZ_N + j) = hist data ! (?t + j)"
        by (rule ring_read [OF r]) (use that ml e in auto)
      ultimately show ?thesis using q(3) [OF that(1)] k(1) z'(4) by simp
    qed
    then show "\<exists>k. d \<le> k \<and> k < d + 1988 \<and> match_position z' = int (d + 1988) - int k - 1
      \<and> (\<forall>j. j < match_length z' \<longrightarrow> j < len \<longrightarrow> hist data ! (k + j) = hist data ! (d + 1988 + j))"
      using k q(2) ring_distance_near [of k ?t] by (intro exI [of _ k]) auto
  qed
  ultimately show thesis using that z'(1,4) by blast
qed

text \<open>The encoder between two steps, \<open>d\<close> bytes of the message done.\<close>

definition enc_ok :: "bytes \<Rightarrow> nat \<Rightarrow> encoder \<Rightarrow> bool" where
  "enc_ok data d st \<longleftrightarrow> d \<le> length data \<and> e_len st = min LZ_F (length data - d)
     \<and> e_rest st = drop (d + LZ_F) data \<and> e_s st = d mod LZ_N \<and> e_r st = (d + 1988) mod LZ_N
     \<and> ring_ok data d (d + 1988 + e_len st) (e_lz st) \<and> live_in d (d + 1989) (e_lz st)
     \<and> (d < length data \<longrightarrow> match_at data d (e_len st) (e_lz st))"

lemma wrap_next: "wrap (k mod LZ_N + 1) = (k + 1) mod LZ_N"
  unfolding wrap_def by (rule mod_add_left_eq)

lemma forest_text:
  assumes f: "forest z" and t: "\<And>p. p \<in> live z \<Longrightarrow> t p = text_buf z p"
  shows "forest (z\<lparr>text_buf := t\<rparr>)"
proof -
  let ?z = "z\<lparr>text_buf := t\<rparr>"
  have L: "live ?z = live z" by (simp add: live_def)
  have co: "child_ok ?z = child_ok z" by (intro ext) (simp add: child_ok_def L)
  have fb: "first_byte ?z x = first_byte z x" if "x \<in> live z \<or> is_root x" for x
    using that t by (auto simp: first_byte_def)
  have "first_byte ?z p = first_byte ?z (dad z p)" if "p \<in> live z" for p
    using forestD(4,5) [OF f that] fb [of p] fb [of "dad z p"] that by auto
  with f show ?thesis unfolding forest_def L co by simp
qed

lemma live_in_text:
  assumes "live_in a b z" "\<And>p. p \<in> live z \<Longrightarrow> t p = text_buf z p"
  shows "live_in a b (z\<lparr>text_buf := t\<rparr>)"
  using assms forest_text by (auto simp: live_in_def live_def)

lemma live_in_mono: "live_in a b z \<Longrightarrow> b \<le> b' \<Longrightarrow> live_in a b' z"
  unfolding live_in_def using image_mono [of "{a..<b}" "{a..<b'}"] by (meson atLeastLessThan_subset_iff
    ivl_subset order_refl subset_trans)

lemma ring_load:
  assumes r: "ring_ok data d (d + 2048) z" and c: "c = hist data ! (d + 2048)"
    and t: "t = (let s = d mod LZ_N; t = (text_buf z)(s := c) in if s < LZ_F - 1 then t(s + LZ_N := c) else t)"
  shows "ring_ok data (d + 1) (d + 2049) (z\<lparr>text_buf := t\<rparr>)"
  unfolding ring_ok_def
proof (intro conjI allI impI)
  fix k assume k: "d + 1 \<le> k" "k < d + 2049"
  have s: "d mod LZ_N < LZ_N" "k mod LZ_N < LZ_N" by simp_all
  show "text_buf (z\<lparr>text_buf := t\<rparr>) (k mod LZ_N) = hist data ! k"
  proof (cases "k = d + 2048")
    case True
    then have "k mod LZ_N = d mod LZ_N" by simp
    then show ?thesis using True c s(1) unfolding t by (simp add: Let_def)
  next
    case False
    then have "k mod LZ_N \<noteq> d mod LZ_N" using mod_eq_near [of d LZ_N k] k by auto
    moreover have "text_buf z (k mod LZ_N) = hist data ! k" using r k False unfolding ring_ok_def by auto
    moreover have "k mod LZ_N \<noteq> d mod LZ_N + LZ_N" using s by linarith
    ultimately show ?thesis unfolding t by (simp add: Let_def)
  qed
  assume m: "LZ_N \<le> k" "k mod LZ_N < 59"
  show "text_buf (z\<lparr>text_buf := t\<rparr>) (k mod LZ_N + LZ_N) = hist data ! k"
  proof (cases "k = d + 2048")
    case True
    then have "k mod LZ_N = d mod LZ_N" by simp
    then show ?thesis using True c s(1) m(2) unfolding t by (simp add: Let_def)
  next
    case False
    then have "k mod LZ_N \<noteq> d mod LZ_N" using mod_eq_near [of d LZ_N k] k by auto
    moreover have "text_buf z (k mod LZ_N + LZ_N) = hist data ! k"
      using r k m False unfolding ring_ok_def by auto
    moreover have "k mod LZ_N + LZ_N \<noteq> d mod LZ_N" using s by linarith
    ultimately show ?thesis unfolding t by (simp add: Let_def)
  qed
qed simp

lemma hist_nth: "hist data ! (1988 + j) = data ! j"
  by (simp add: hist_def nth_append)

lemma load_step:
  assumes st: "enc_ok data d st" and c: "e_rest st = c # rest"
  shows "\<exists>st'. load_byte c rest st = Some st' \<and> enc_ok data (d + 1) st'
    \<and> e_huff st' = e_huff st \<and> e_out st' = e_out st"
proof -
  have l: "live_in d (d + 1989) (e_lz st)" and len: "e_len st = min LZ_F (length data - d)"
    and r: "ring_ok data d (d + 1988 + e_len st) (e_lz st)"
    and ix: "e_s st = d mod LZ_N" "e_r st = (d + 1988) mod LZ_N" and dr: "drop (d + 60) data = c # rest"
    using c st unfolding enc_ok_def by auto
  have d: "d + 60 < length data" using dr by (metis drop_eq_Nil list.distinct(1) not_less)
  have cv: "c = data ! (d + 60)" using nth_via_drop [OF dr] by simp
  have rest: "rest = drop (d + 61) data"
    using dr Cons_nth_drop_Suc [OF d] by (simp add: add.commute)
  from d len have e60: "e_len st = 60" by simp
  obtain z where z: "delete_node (d mod LZ_N) (e_lz st) = Some z" "live_in (d + 1) (d + 1989) z"
    "text_buf z = text_buf (e_lz st)" by (rule delete_ring [OF l r])
  let ?t = "let s = d mod LZ_N; t = (text_buf z)(s := c) in if s < LZ_F - 1 then t(s + LZ_N := c) else t"
  have rz: "ring_ok data d (d + 2048) z" using r e60 z(3) by (simp add: ring_ok_def)
  have "c = hist data ! (d + 2048)" using cv hist_nth [of data "d + 60"] by (simp add: add.commute)
  from ring_load [OF rz this refl] have r1: "ring_ok data (d + 1) (d + 2049) (z\<lparr>text_buf := ?t\<rparr>)" .
  have "?t p = text_buf z p" if "p \<in> live z" for p
  proof -
    have "p \<in> (\<lambda>k. k mod LZ_N) ` {d + 1..<d + 1989}" using z(2) that unfolding live_in_def by (rule subsetD [OF conjunct2])
    then obtain k where k: "p = k mod LZ_N" "d + 1 \<le> k" "k < d + 1989" by auto
    then have "p \<noteq> d mod LZ_N" using mod_eq_near [of d LZ_N k] by auto
    moreover have "p < LZ_N" using k(1) by simp
    ultimately show ?thesis by (simp add: Let_def)
  qed
  from live_in_text [OF z(2) this] have "live_in (d + 1) (d + 1 + 1988) (z\<lparr>text_buf := ?t\<rparr>)"
    by (simp add: add.commute)
  from insert_ring [OF this r1, of 60] obtain z' where
    z': "insert_node ((d + 1 + 1988) mod LZ_N) (z\<lparr>text_buf := ?t\<rparr>) = Some z'"
      "live_in (d + 1) (d + 1 + 1989) z'" "text_buf z' = ?t" "match_at data (d + 1) 60 z'" by auto
  have w: "wrap ((d + 1988) mod LZ_N + 1) = (d + 1 + 1988) mod LZ_N"
    using wrap_next [of "d + 1988"] by (simp add: add.commute add.left_commute)
  have "load_byte c rest st =
    Some (st\<lparr>e_lz := z', e_rest := rest, e_s := (d + 1) mod LZ_N, e_r := (d + 1 + 1988) mod LZ_N\<rparr>)"
    unfolding load_byte_def ix Let_def w using z(1) z'(1) wrap_next [of d] by (simp add: Let_def)
  moreover have "enc_ok data (d + 1)
    (st\<lparr>e_lz := z', e_rest := rest, e_s := (d + 1) mod LZ_N, e_r := (d + 1 + 1988) mod LZ_N\<rparr>)"
    using d e60 rest z' r1 by (simp add: enc_ok_def ring_ok_def add.commute)
  ultimately show ?thesis by (intro exI) auto
qed

lemma drain_step:
  assumes st: "enc_ok data d st" and c: "e_rest st = []" and d: "d < length data"
  shows "\<exists>st'. drain_byte st = Some st' \<and> enc_ok data (d + 1) st'
    \<and> e_huff st' = e_huff st \<and> e_out st' = e_out st"
proof -
  have l: "live_in d (d + 1989) (e_lz st)" and len: "e_len st = length data - d"
    and r: "ring_ok data d (d + 1988 + e_len st) (e_lz st)" and short: "length data \<le> d + 60"
    and ix: "e_s st = d mod LZ_N" "e_r st = (d + 1988) mod LZ_N"
    using c st d unfolding enc_ok_def by auto
  obtain z where z: "delete_node (d mod LZ_N) (e_lz st) = Some z" "live_in (d + 1) (d + 1989) z"
    "text_buf z = text_buf (e_lz st)" by (rule delete_ring [OF l r])
  let ?e = "d + 1 + 1988 + (length data - (d + 1))"
  have r1: "ring_ok data (d + 1) ?e z" using r len d z(3) by (simp add: ring_ok_def)
  have w: "wrap ((d + 1988) mod LZ_N + 1) = (d + 1 + 1988) mod LZ_N"
    using wrap_next [of "d + 1988"] by (simp add: add.commute add.left_commute)
  let ?st = "st\<lparr>e_lz := z, e_s := (d + 1) mod LZ_N, e_r := (d + 1 + 1988) mod LZ_N, e_len := e_len st - 1\<rparr>"
  have step: "drain_byte st = (if e_len ?st \<noteq> 0
    then (case insert_node (e_r ?st) z of None \<Rightarrow> None | Some z \<Rightarrow> Some (?st\<lparr>e_lz := z\<rparr>)) else Some ?st)"
    unfolding drain_byte_def ix z(1) option.case Let_def by (simp add: w wrap_next [of d] del: One_nat_def split: option.split)
  show ?thesis
  proof (cases "d + 1 = length data")
    case True
    have "live_in (d + 1) (d + 1 + 1989) z" by (rule live_in_mono [OF z(2)]) simp
    with True len r1 have "enc_ok data (d + 1) ?st" by (simp add: enc_ok_def c)
    moreover have "e_len ?st = 0" using True len by simp
    then have "drain_byte st = Some ?st" unfolding step by simp
    ultimately show ?thesis by (intro exI [of _ ?st] conjI) simp_all
  next
    case False
    have l1: "live_in (d + 1) (d + 1 + 1988) z" by (rule live_in_mono [OF z(2)]) simp
    from insert_ring [OF l1 r1 refl] obtain z' where
      z': "insert_node ((d + 1 + 1988) mod LZ_N) z = Some z'" "live_in (d + 1) (d + 1 + 1989) z'"
        "text_buf z' = text_buf z" "match_at data (d + 1) (length data - (d + 1)) z'" .
    from False d len have e: "e_len ?st \<noteq> 0" by simp
    have "drain_byte st = Some (?st\<lparr>e_lz := z'\<rparr>)" unfolding step using e z'(1) by simp
    moreover have "ring_ok data (d + 1) ?e z'" using r1 z'(3) by (simp add: ring_ok_def)
    then have "enc_ok data (d + 1) (?st\<lparr>e_lz := z'\<rparr>)"
      using z' short len d by (simp add: enc_ok_def c)
    ultimately show ?thesis by (intro exI) auto
  qed
qed

lemma advance_ok:
  "enc_ok data d st \<Longrightarrow> d + n \<le> length data \<Longrightarrow>
   \<exists>st'. advance n st = Some st' \<and> enc_ok data (d + n) st' \<and> e_huff st' = e_huff st \<and> e_out st' = e_out st"
proof (induction n arbitrary: d st)
  case (Suc n)
  obtain st' where s: "(case e_rest st of [] \<Rightarrow> drain_byte st | c # rest \<Rightarrow> load_byte c rest st) = Some st'"
    "enc_ok data (d + 1) st'" "e_huff st' = e_huff st" "e_out st' = e_out st"
    using load_step [OF Suc.prems(1)] drain_step [OF Suc.prems(1)] Suc.prems(2)
    by (cases "e_rest st") auto
  from Suc.IH [OF s(2)] Suc.prems(2) show ?case unfolding advance.simps s(1) option.case
    using s(3,4) by auto
qed simp

lemma insert_all_ok:
  "forest z \<Longrightarrow> distinct rs \<Longrightarrow> list_all (\<lambda>r. r < LZ_N) rs \<Longrightarrow> set rs \<inter> live z = {} \<Longrightarrow>
   \<exists>z'. insert_all rs z = Some z' \<and> forest z' \<and> live z' \<subseteq> set rs \<union> live z \<and> text_buf z' = text_buf z"
proof (induction rs arbitrary: z)
  case (Cons r rs)
  from insert_spec [OF Cons.prems(1), of r] Cons.prems(3,4) obtain z1 where
    z1: "insert_node r z = Some z1" "forest z1" "live z1 \<subseteq> insert r (live z)" "text_buf z1 = text_buf z" by auto
  have "set rs \<inter> live z1 = {}" using z1(3) Cons.prems(2,4) by auto
  from Cons.IH [OF z1(2) _ _ this] Cons.prems(2,3) obtain z2 where
    "insert_all rs z1 = Some z2" "forest z2" "live z2 \<subseteq> set rs \<union> live z1" "text_buf z2 = text_buf z1" by auto
  with z1 show ?case by auto
qed simp

lemma insert_all_append:
  "insert_all (rs @ rs') z = (case insert_all rs z of None \<Rightarrow> None | Some z \<Rightarrow> insert_all rs' z)"
  by (induction rs arbitrary: z) (auto split: option.splits)

lemma enc_start_ok: "forest (enc_start data)" "live (enc_start data) = {}"
proof -
  show L: "live (enc_start data) = {}" by (auto simp: live_def enc_start_def init_tree_def)
  have "child_ok (enc_start data) p (rson (enc_start data) p)" if "is_root p" for p
    using that by (auto simp: child_ok_def enc_start_def init_tree_def is_root_def)
  then show "forest (enc_start data)" unfolding forest_def L by simp
qed

lemma start_ring: "ring_ok data 0 (1988 + min LZ_F (length data)) (enc_start data)"
  by (auto simp: ring_ok_def enc_start_def init_tree_def hist_def nth_append)

lemma enc_init:
  assumes "data \<noteq> []"
  shows "\<exists>z. insert_all (map (\<lambda>i. LZ_N - LZ_F - i) [1..<LZ_F + 1] @ [LZ_N - LZ_F]) (enc_start data) = Some z
    \<and> enc_ok data 0 \<lparr>e_lz = z, e_huff = huff_start, e_out = bw_init, e_rest = drop (min LZ_F (length data)) data,
        e_s = 0, e_r = LZ_N - LZ_F, e_len = min LZ_F (length data)\<rparr>"
proof -
  let ?rs = "map (\<lambda>i. LZ_N - LZ_F - i) [1..<LZ_F + 1]"
  let ?len = "min LZ_F (length data)"
  have "distinct ?rs" "list_all (\<lambda>r. r < LZ_N) ?rs" by (auto simp: distinct_map inj_on_def list_all_iff)
  from insert_all_ok [OF enc_start_ok(1) [of data] this] enc_start_ok(2) [of data] obtain z1 where
    z1: "insert_all ?rs (enc_start data) = Some z1" "forest z1" "live z1 \<subseteq> set ?rs"
      "text_buf z1 = text_buf (enc_start data)" by auto
  have "live z1 \<subseteq> (\<lambda>k. k mod LZ_N) ` {0..<0 + 1988}"
  proof
    fix x assume "x \<in> live z1"
    then have "x < 1988" using z1(3) by auto
    then show "x \<in> (\<lambda>k. k mod LZ_N) ` {0..<0 + 1988}" by (intro image_eqI [of _ _ x]) auto
  qed
  then have l: "live_in 0 (0 + 1988) z1" using z1(2) by (simp add: live_in_def)
  have r: "ring_ok data 0 (1988 + ?len) z1" using start_ring [of data] unfolding ring_ok_def z1(4) .
  from insert_ring [OF l r, of ?len] obtain z where
    z: "insert_node 1988 z1 = Some z" "live_in 0 1989 z" "text_buf z = text_buf z1" "match_at data 0 ?len z"
    by auto
  have "insert_all (?rs @ [LZ_N - LZ_F]) (enc_start data) = Some z"
    unfolding insert_all_append z1(1) option.case using z(1) by simp
  moreover have "drop ?len data = drop LZ_F data" by (simp add: min_def)
  moreover have "ring_ok data 0 (1988 + ?len) z" using r unfolding ring_ok_def z(3) .
  ultimately show ?thesis using z by (simp add: enc_ok_def)
qed

section \<open>The decoder follows\<close>

definition dec_ok :: "bytes \<Rightarrow> nat \<Rightarrow> decoder \<Rightarrow> bool" where
  "dec_ok data d D \<longleftrightarrow> d \<le> length data \<and> d_out D = take d data \<and> d_r D = (d + 1988) mod LZ_N
     \<and> (\<forall>k. k < d + 1988 \<longrightarrow> d + 1988 \<le> k + LZ_N \<longrightarrow> d_text D (k mod LZ_N) = hist data ! k)"

lemma put_byte_ok:
  assumes D: "dec_ok data d D" and d: "d < length data"
  shows "dec_ok data (d + 1) (put_byte (data ! d) D)"
proof -
  have "d_text (put_byte (data ! d) D) (k mod LZ_N) = hist data ! k"
    if k: "k < d + 1 + 1988" "d + 1 + 1988 \<le> k + LZ_N" for k
  proof (cases "k = d + 1988")
    case True
    then show ?thesis using D hist_nth [of data d] by (simp add: put_byte_def dec_ok_def add.commute)
  next
    case False
    then have "k mod LZ_N \<noteq> (d + 1988) mod LZ_N" using mod_eq_near [of k LZ_N "d + 1988"] k by auto
    with False k D show ?thesis by (simp add: put_byte_def dec_ok_def)
  qed
  moreover have "wrap ((d + 1988) mod LZ_N + 1) = (d + 1 + 1988) mod LZ_N"
    using wrap_next [of "d + 1988"] by (simp add: add.commute)
  ultimately show ?thesis using D d by (simp add: dec_ok_def put_byte_def take_Suc_conv_app_nth)
qed

lemma put_byte_fields [simp]: "d_huff (put_byte b D) = d_huff D" "d_in (put_byte b D) = d_in D"
  by (simp_all add: put_byte_def)

lemma copy_match_fields [simp]:
  "d_huff (copy_match len n p D) = d_huff D" "d_in (copy_match len n p D) = d_in D"
  by (induction n arbitrary: p D) (simp_all add: Let_def)

lemma copy_ok:
  "dec_ok data d D \<Longrightarrow> d \<le> k \<Longrightarrow> k < d + 1988 \<Longrightarrow> d + n \<le> length data \<Longrightarrow>
   (\<And>j. j < n \<Longrightarrow> hist data ! (k + j) = hist data ! (d + 1988 + j)) \<Longrightarrow>
   dec_ok data (d + n) (copy_match (length data) n (k mod LZ_N) D)"
proof (induction n arbitrary: d k D)
  case (Suc n)
  have "d_text D (k mod LZ_N) = hist data ! k" using Suc.prems(1-3) by (simp add: dec_ok_def)
  also have "\<dots> = data ! d" using Suc.prems(5) [of 0] hist_nth [of data d] by (simp add: add.commute)
  finally have b: "d_text D (k mod LZ_N) = data ! d" .
  let ?D = "put_byte (data ! d) D"
  have D1: "dec_ok data (d + 1) ?D" using put_byte_ok [OF Suc.prems(1)] Suc.prems(4) by simp
  then have l: "length (d_out ?D) = d + 1" using Suc.prems(4) by (simp add: dec_ok_def)
  have "dec_ok data (d + 1 + n) (copy_match (length data) n ((k + 1) mod LZ_N) ?D)"
    by (rule Suc.IH [OF D1]) (use Suc.prems(2-4) Suc.prems(5) [of "Suc j" for j] in \<open>auto simp: add.assoc\<close>)
  moreover have "n = 0" if "length data \<le> d + 1" using that Suc.prems(4) by simp
  ultimately show ?case using D1 Suc.prems(4)
    by (cases "length data \<le> d + 1") (simp_all add: b l wrap_next [unfolded One_nat_def add_Suc_right add_0_right] le_Suc_eq del: upt_Suc)
qed simp

text \<open>One symbol: what the encoder writes for its match, the decoder reads back.\<close>

definition follows :: "bytes \<Rightarrow> nat \<Rightarrow> huff \<Rightarrow> bool list \<Rightarrow> nat \<Rightarrow> huff \<Rightarrow> bool" where
  "follows data d h bs n h' \<longleftrightarrow> (\<forall>D rest. dec_ok data d D \<longrightarrow> d_huff D = h \<longrightarrow> br_ok (d_in D) \<longrightarrow>
     br_bits (d_in D) = bs @ rest \<longrightarrow>
     (\<exists>D'. dec_loop (length data) D = dec_loop (length data) D' \<and> dec_ok data n D' \<and> d_huff D' = h'
        \<and> br_ok (d_in D') \<and> br_bits (d_in D') = rest))"

lemma followsI:
  assumes "\<And>D rest. dec_ok data d D \<Longrightarrow> d_huff D = h \<Longrightarrow> br_ok (d_in D) \<Longrightarrow> br_bits (d_in D) = bs @ rest \<Longrightarrow>
    \<exists>D'. dec_loop (length data) D = dec_loop (length data) D' \<and> dec_ok data n D' \<and> d_huff D' = h'
      \<and> br_ok (d_in D') \<and> br_bits (d_in D') = rest"
  shows "follows data d h bs n h'"
  using assms unfolding follows_def by blast

lemma dec_ok_running: "dec_ok data d D \<Longrightarrow> d < length data \<Longrightarrow> length (d_out D) < length data"
  by (simp add: dec_ok_def)

lemma dec_ok_cong:
  "dec_ok data d D \<Longrightarrow> d_out D' = d_out D \<Longrightarrow> d_r D' = d_r D \<Longrightarrow> d_text D' = d_text D \<Longrightarrow> dec_ok data d D'"
  by (simp add: dec_ok_def)

lemma literal_follows:
  assumes d: "d < length data" and c: "c = unat (data ! d)"
    and r: "\<And>r rest. br_ok r \<Longrightarrow> br_bits r = bs @ rest \<Longrightarrow>
      \<exists>r'. decode_char (h, r) = Some (c, h', r') \<and> br_ok r' \<and> br_bits r' = rest"
  shows "follows data d h bs (d + 1) h'"
proof (rule followsI)
  fix D rest assume D: "dec_ok data d D" "d_huff D = h" "br_ok (d_in D)" "br_bits (d_in D) = bs @ rest"
  from r [OF D(3,4)] obtain r' where r': "decode_char (h, d_in D) = Some (c, h', r')" "br_ok r'"
    "br_bits r' = rest" by blast
  let ?D = "D\<lparr>d_huff := h', d_in := r'\<rparr>"
  have c256: "c < 256" using unsigned_less [of "data ! d"] by (simp add: c)
  have "dec_loop (length data) D = dec_loop (length data) (put_byte (data ! d) ?D)"
    by (subst dec_loop.simps) (use c256 in \<open>simp add: dec_ok_running [OF D(1) d] D(2) r'(1) c\<close>)
  moreover have "dec_ok data (d + 1) (put_byte (data ! d) ?D)"
    by (rule put_byte_ok [OF _ d]) (rule dec_ok_cong [OF D(1)], simp_all)
  ultimately show "\<exists>D'. dec_loop (length data) D = dec_loop (length data) D' \<and> dec_ok data (d + 1) D'
      \<and> d_huff D' = h' \<and> br_ok (d_in D') \<and> br_bits (d_in D') = rest"
    using r'(2,3) by (intro exI [of _ "put_byte (data ! d) ?D"]) simp
qed

lemma match_follows:
  assumes d: "d < length data" and m: "THRESHOLD < m" "m \<le> LZ_F" "d + m \<le> length data"
    and k: "d \<le> k" "k < d + 1988" and eq: "\<And>j. j < m \<Longrightarrow> hist data ! (k + j) = hist data ! (d + 1988 + j)"
    and r: "\<And>r rest. br_ok r \<Longrightarrow> br_bits r = bs @ rest \<Longrightarrow>
      \<exists>r'. decode_char (h, r) = Some (255 - THRESHOLD + m, h', r') \<and> br_ok r' \<and> br_bits r' = rest"
  shows "follows data d h (bs @ position_bits (d + 1987 - k)) (d + m) h'"
proof (rule followsI)
  fix D rest assume D: "dec_ok data d D" "d_huff D = h" "br_ok (d_in D)"
    "br_bits (d_in D) = (bs @ position_bits (d + 1987 - k)) @ rest"
  from r [OF D(3)] D(4) obtain r1 where r1: "decode_char (h, d_in D) = Some (255 - THRESHOLD + m, h', r1)"
    "br_ok r1" "br_bits r1 = position_bits (d + 1987 - k) @ rest" by auto
  have "d + 1987 - k < 4096" using k by simp
  from decode_position_bits [OF r1(2,3) this] obtain r2 where
    r2: "decode_position r1 = (d + 1987 - k, r2)" "br_ok r2" "br_bits r2 = rest" by blast
  define c where "c = 255 - THRESHOLD + m"
  have c: "\<not> c < 256" "c - 255 + THRESHOLD = m" using m(1) by (simp_all add: c_def)
  let ?D = "D\<lparr>d_huff := h', d_in := r2\<rparr>"
  have "(int ((d + 1988) mod LZ_N) - int (d + 1987 - k) - 1) mod int LZ_N = int k mod int LZ_N"
  proof -
    have "(int ((d + 1988) mod LZ_N) - int (d + 1987 - k) - 1) mod int LZ_N
        = (int (d + 1988) mod int LZ_N - (int (d + 1987 - k) + 1)) mod int LZ_N"
      by (simp add: zmod_int algebra_simps)
    also have "\<dots> = (int (d + 1988) - (int (d + 1987 - k) + 1)) mod int LZ_N" by (rule mod_diff_left_eq)
    also have "int (d + 1988) - (int (d + 1987 - k) + 1) = int k" using k by linarith
    finally show ?thesis .
  qed
  then have pos: "nat ((int (d_r D) - int (d + 1987 - k) - 1) mod int LZ_N) = k mod LZ_N"
    using D(1) by (simp add: dec_ok_def nat_mod_distrib)
  have "dec_loop (length data) D = dec_loop (length data) (copy_match (length data) m (k mod LZ_N) ?D)"
    by (subst dec_loop.simps) (use pos in \<open>simp add: dec_ok_running [OF D(1) d] D(2) r1(1) [folded c_def] c
      r2(1) del: add_2_eq_Suc'\<close>)
  moreover have "dec_ok data (d + m) (copy_match (length data) m (k mod LZ_N) ?D)"
    by (rule copy_ok [OF dec_ok_cong [OF D(1)] k m(3) eq]) simp_all
  ultimately show "\<exists>D'. dec_loop (length data) D = dec_loop (length data) D' \<and> dec_ok data (d + m) D'
      \<and> d_huff D' = h' \<and> br_ok (d_in D') \<and> br_bits (d_in D') = rest"
    using r2(2,3) by (intro exI [of _ "copy_match (length data) m (k mod LZ_N) ?D"]) simp
qed

section \<open>The encoder loop and its decoder\<close>

lemma deep_tree: "16 < n \<Longrightarrow> 4181 \<le> depth_weight n"
proof (induction n rule: depth_weight.induct)
  case (3 n)
  show ?case
  proof (cases "n = 15")
    case True
    then show ?thesis by (simp add: eval_nat_numeral)
  qed (use 3 in simp)
qed simp_all

lemma emit_ok:
  assumes st: "enc_ok data d st" and d: "d < length data" and h: "huff_ok (e_huff st)" and w: "bw_ok (e_out st)"
    and ml: "ml = min (e_len st) (match_length (e_lz st))" and n: "n = (if ml \<le> THRESHOLD then 1 else ml)"
  obtains (long) "emit ml st = Some (Inl (ValueError ''negative shift count''))"
      "4181 \<le> freq (e_huff st) LZ_R"
    | (written) h' w' bs where "emit ml st = Some (Inr (h', w'))" "huff_ok h'"
        "freq h' LZ_R \<le> freq (e_huff st) LZ_R + 1" "bw_ok w'" "bw_bits w' = bw_bits (e_out st) @ bs"
        "follows data d (e_huff st) bs (d + n) h'" "0 < n" "d + n \<le> length data"
proof (cases "ml \<le> THRESHOLD")
  case True
  let ?c = "unat (text_buf (e_lz st) (e_r st))"
  have e: "emit ml st = encode_char ?c (e_huff st, e_out st)" using True by (simp add: emit_def)
  have "0 < e_len st" using st d by (simp add: enc_ok_def)
  then have t: "text_buf (e_lz st) (e_r st) = data ! d"
    using st hist_nth [of data d] by (auto simp: enc_ok_def ring_ok_def add.commute)
  have "?c < N_CHAR" unfolding t by (rule order_less_le_trans [OF unsigned_less]) simp
  from h this w show ?thesis
  proof (cases rule: encode_char_cases)
    case (long k)
    with deep_tree [of k] show ?thesis by (intro that(1)) (simp_all add: e)
  next
    case (written h' w' bs)
    have "follows data d (e_huff st) bs (d + 1) h'"
      by (rule literal_follows [OF d refl]) (use written(6) t in simp)
    with written True d show ?thesis by (intro that(2) [of h' w' bs]) (simp_all add: e n)
  qed
next
  case False
  then have m: "THRESHOLD < ml" "ml \<le> e_len st" "ml \<le> match_length (e_lz st)" unfolding ml by linarith+
  have len: "e_len st \<le> length data - d" "match_at data d (e_len st) (e_lz st)" using st d unfolding enc_ok_def by auto
  then have ml60: "ml \<le> LZ_F" using m(3) by (simp add: match_at_def)
  from len(2) m obtain k where k: "d \<le> k" "k < d + 1988" "match_position (e_lz st) = int (d + 1988) - int k - 1"
    "\<And>j. j < ml \<Longrightarrow> hist data ! (k + j) = hist data ! (d + 1988 + j)" by (auto simp: match_at_def)
  have pos: "nat (match_position (e_lz st)) = d + 1987 - k" using k(2,3) by linarith
  have "255 - THRESHOLD + ml < N_CHAR" using ml60 by simp
  from h this w show ?thesis
  proof (cases rule: encode_char_cases)
    case (long k)
    then have "emit ml st = Some (Inl (ValueError ''negative shift count''))" using False by (simp add: emit_def)
    moreover have "4181 \<le> freq (e_huff st) LZ_R" using deep_tree [OF long(1)] long(2) by linarith
    ultimately show ?thesis by (rule that(1))
  next
    case (written h' w' bs)
    let ?p = "d + 1987 - k"
    have "?p < 4096" using k(1) by simp
    from encode_position_bits [OF written(4) this] have
      p: "bw_ok (encode_position ?p w')" "bw_bits (encode_position ?p w') = bw_bits (e_out st) @ bs @ position_bits ?p"
      using written(5) by auto
    have "emit ml st = Some (Inr (h', encode_position ?p w'))" using False written(1) by (simp add: emit_def pos)
    moreover have "follows data d (e_huff st) (bs @ position_bits ?p) (d + ml) h'"
      by (rule match_follows [OF d m(1) ml60 _ k(1,2,4) written(6)]) (use m(2) len(1) d in simp_all)
    ultimately show ?thesis using written(2,3) p False m len(1) d
      by (intro that(2) [of h' "encode_position ?p w'" "bs @ position_bits ?p"]) (simp_all add: n)
  qed
qed

lemma enc_loop_ok:
  assumes "enc_ok data d st" "huff_ok (e_huff st)" "bw_ok (e_out st)"
  shows "(enc_loop st = Some (Inl (ValueError ''negative shift count''))
       \<and> 4181 < freq (e_huff st) LZ_R + (length data - d))
    \<or> (\<exists>w bs. enc_loop st = Some (Inr w) \<and> bw_ok w \<and> bw_bits w = bw_bits (e_out st) @ bs
       \<and> (\<forall>D rest. dec_ok data d D \<longrightarrow> d_huff D = e_huff st \<longrightarrow> br_ok (d_in D) \<longrightarrow>
            br_bits (d_in D) = bs @ rest \<longrightarrow> dec_loop (length data) D = Some data))"
  using assms
proof (induction "length data - d" arbitrary: d st rule: less_induct)
  case less
  show ?case
  proof (cases "d < length data")
    case False
    then have e: "e_len st = 0" "d = length data" using less.prems(1) by (simp_all add: enc_ok_def)
    have "enc_loop st = Some (Inr (e_out st))" by (subst enc_loop.simps) (simp add: e)
    moreover have "dec_loop (length data) D = Some data" if "dec_ok data d D" for D
      using that e(2) by (subst dec_loop.simps) (simp add: dec_ok_def)
    ultimately show ?thesis using less.prems(3) by (intro disjI2 exI [of _ "e_out st"] exI [of _ "[]"]) simp
  next
    case True
    define ml where "ml = min (e_len st) (match_length (e_lz st))"
    define n where "n = (if ml \<le> THRESHOLD then 1 else ml)"
    have pos: "0 < e_len st" using less.prems(1) True by (simp add: enc_ok_def)
    have ml': "(if e_len st < match_length (e_lz st) then e_len st else match_length (e_lz st)) = ml"
      by (simp add: ml_def min_def)
    from less.prems(1) True less.prems(2,3) ml_def n_def show ?thesis
    proof (cases rule: emit_ok)
      case long
      have "enc_loop st = Some (Inl (ValueError ''negative shift count''))"
        by (subst enc_loop.simps) (simp add: pos ml' long(1))
      with long(2) True show ?thesis by (intro disjI1 conjI) simp_all
    next
      case (written h' w' bs)
      let ?st = "st\<lparr>e_huff := h', e_out := w'\<rparr>"
      have "enc_ok data d ?st = enc_ok data d st" by (simp add: enc_ok_def)
      then have "enc_ok data d ?st" using less.prems(1) by blast
      from advance_ok [OF this written(8)] obtain st' where
        st': "advance n ?st = Some st'" "enc_ok data (d + n) st'" "e_huff st' = h'" "e_out st' = w'" by auto
      have step: "enc_loop st = enc_loop st'"
        by (subst enc_loop.simps) (use st'(1) in \<open>simp add: pos ml' written(1) n_def\<close>)
      have "length data - (d + n) < length data - d" using written(7,8) by linarith
      from less.hyps [OF this st'(2)] st'(3,4) written(2,4) consider
          "enc_loop st' = Some (Inl (ValueError ''negative shift count''))"
            "4181 < freq h' LZ_R + (length data - (d + n))"
        | w bs' where "enc_loop st' = Some (Inr w)" "bw_ok w" "bw_bits w = bw_bits w' @ bs'"
            "\<And>D rest. dec_ok data (d + n) D \<Longrightarrow> d_huff D = h' \<Longrightarrow> br_ok (d_in D) \<Longrightarrow>
              br_bits (d_in D) = bs' @ rest \<Longrightarrow> dec_loop (length data) D = Some data" by auto
      then show ?thesis
      proof cases
        case 1
        then have "4181 < freq (e_huff st) LZ_R + (length data - d)" using written(3,7,8) by linarith
        with 1(1) step show ?thesis by simp
      next
        case 2
        have "dec_loop (length data) D = Some data"
          if D: "dec_ok data d D" "d_huff D = e_huff st" "br_ok (d_in D)" "br_bits (d_in D) = (bs @ bs') @ rest"
          for D rest
        proof -
          from D(4) have "br_bits (d_in D) = bs @ bs' @ rest" by simp
          with written(6) D(1-3) obtain D' where
            D': "dec_loop (length data) D = dec_loop (length data) D'" "dec_ok data (d + n) D'" "d_huff D' = h'"
              "br_ok (d_in D')" "br_bits (d_in D') = bs' @ rest" unfolding follows_def by blast
          with 2(4) show ?thesis by simp
        qed
        with 2 step written(5) show ?thesis by (intro disjI2 exI [of _ w] exI [of _ "bs @ bs'"]) auto
      qed
    qed
  qed
qed

section \<open>Streams\<close>

lemma start_decoder: "dec_ok data 0 \<lparr>d_huff = huff_start, d_in = r, d_text = \<lambda>i. if i < LZ_N - LZ_F then 0x20 else 0,
    d_r = LZ_N - LZ_F, d_out = []\<rparr>"
  by (auto simp: dec_ok_def hist_def nth_append)

lemma lzss_roundtrip:
  assumes "data \<noteq> []"
  obtains (long) "lzss_encode data = Some (Inl (ValueError ''negative shift count''))" "3867 < length data"
    | (written) body where "lzss_encode data = Some (Inr body)" "lzss_decode body (length data) = Some data"
proof -
  let ?len = "min LZ_F (length data)"
  obtain z where z: "insert_all (map (\<lambda>i. LZ_N - LZ_F - i) [1..<LZ_F + 1] @ [LZ_N - LZ_F]) (enc_start data) = Some z"
    and st: "enc_ok data 0 \<lparr>e_lz = z, e_huff = huff_start, e_out = bw_init, e_rest = drop ?len data,
        e_s = 0, e_r = LZ_N - LZ_F, e_len = ?len\<rparr>" (is "enc_ok data 0 ?st")
    using enc_init [OF assms] by blast
  have "?len \<noteq> 0" using assms by simp
  then have enc: "lzss_encode data = (case enc_loop ?st of None \<Rightarrow> None
      | Some x \<Rightarrow> Some (case x of Inl e \<Rightarrow> Inl e | Inr w \<Rightarrow> Inr (bw_flush w)))"
    unfolding lzss_encode_def Let_def z by (simp only: if_False option.case)
  have "huff_ok (e_huff ?st)" "bw_ok (e_out ?st)" using huff_start_ok bw_init_ok by simp_all
  from enc_loop_ok [OF st this] consider
      "enc_loop ?st = Some (Inl (ValueError ''negative shift count''))"
        "4181 < freq (e_huff ?st) LZ_R + (length data - 0)"
    | w bs where "enc_loop ?st = Some (Inr w)" "bw_ok w" "bw_bits w = bw_bits (e_out ?st) @ bs"
        "\<And>D rest. dec_ok data 0 D \<Longrightarrow> d_huff D = e_huff ?st \<Longrightarrow> br_ok (d_in D) \<Longrightarrow>
          br_bits (d_in D) = bs @ rest \<Longrightarrow> dec_loop (length data) D = Some data" by blast
  then show thesis
  proof cases
    case 1
    show thesis
    proof (rule long)
      show "lzss_encode data = Some (Inl (ValueError ''negative shift count''))" unfolding enc 1(1) by simp
      show "3867 < length data" using 1(2) huff_start_ok(2) by simp
    qed
  next
    case 2
    from bw_flush_bits [OF 2(2)] obtain k where
      k: "concat (map bits8 (bw_flush w)) = bw_bits w @ replicate k False" by blast
    have "bw_bits w = bs" using 2(3) bw_init_ok(2) by simp
    with k have b: "br_bits (br_init (bw_flush w)) = bs @ replicate k False" by simp
    have "lzss_decode (bw_flush w) (length data) = Some data"
      unfolding lzss_decode_def by (rule 2(4) [OF start_decoder]) (use b in simp_all)
    moreover have "lzss_encode data = Some (Inr (bw_flush w))" unfolding enc 2(1) by simp
    ultimately show thesis by (rule written [rotated])
  qed
qed

lemma le_bytes_length [simp]: "length (le_bytes k n) = k"
  by (simp add: le_bytes_def)

lemma from_le_bytes: "n < 256 ^ k \<Longrightarrow> from_le (le_bytes k n) = n"
proof (induction k arbitrary: n)
  case (Suc k)
  have "map (\<lambda>i. word_of_nat (n div 256 ^ i) :: byte) [0..<Suc k]
      = word_of_nat n # map (\<lambda>i. word_of_nat (n div 256 ^ Suc i)) [0..<k]"
    by (simp only: map_upt_Suc power_0 div_by_1)
  also have "(\<lambda>i. word_of_nat (n div 256 ^ Suc i) :: byte) = (\<lambda>i. word_of_nat (n div 256 div 256 ^ i))"
    unfolding power_Suc div_mult2_eq ..
  finally have "le_bytes (Suc k) n = word_of_nat n # le_bytes k (n div 256)" unfolding le_bytes_def .
  moreover have "n div 256 < 256 ^ k" using Suc.prems by (intro less_mult_imp_div_less) (simp add: mult.commute)
  from Suc.IH [OF this] have "from_le (le_bytes k (n div 256)) = n div 256" .
  ultimately show ?case by (simp add: unsigned_of_nat take_bit_eq_mod)
qed (simp add: le_bytes_def)

lemma from_le_inject: "length xs = length ys \<Longrightarrow> from_le xs = from_le ys \<Longrightarrow> xs = ys"
proof (induction xs ys rule: list_induct2)
  case (Cons x xs y ys)
  have "unat x < 256" "unat y < 256" by (rule order_less_le_trans [OF unsigned_less], simp)+
  moreover have "a = b \<and> m = n" if "a + 256 * m = b + 256 * n" "a < 256" "b < 256" for a b m n :: nat
  proof -
    have "(a + 256 * m) mod 256 = (b + 256 * n) mod 256" using that(1) by (rule arg_cong)
    then have "a = b" using that(2,3) unfolding mod_mult_self2 by simp
    with that(1) show ?thesis by simp
  qed
  ultimately have "unat x = unat y" "from_le xs = from_le ys" using Cons.prems by (metis from_le.simps(2))+
  with Cons.IH show ?case by (simp add: word_unat_eq_iff)
qed simp

lemma crc_fits: "unat (crc16 xs) < 256 ^ 2"
  by (rule order_less_le_trans [OF unsigned_less]) simp

text \<open>Every outcome of \<^verbatim>\<open>compress\<close>.\<close>

lemma compress_cases:
  obtains (long) "compress data = Some (Inl (ValueError ''negative shift count''))" "3867 < length data"
    | (huge) "compress data = Some (Inl OverflowError)" "2 ^ 32 \<le> length data"
    | (stream) body where "compress data = Some (Inr (le_bytes 2 (unat (crc16 (le_bytes 4 (length data) @ body)))
          @ le_bytes 4 (length data) @ body))"
        "length data < 2 ^ 32" "data \<noteq> [] \<Longrightarrow> lzss_decode body (length data) = Some data"
proof -
  have *: thesis if "lzss_encode data = Some (Inr body)"
    "data \<noteq> [] \<Longrightarrow> lzss_decode body (length data) = Some data" for body
  proof (cases "length data < 2 ^ 32")
    case True
    with that(1) show thesis by (intro stream [OF _ True that(2)]) (simp_all add: compress_def Let_def)
  next
    case False
    with that(1) show thesis by (intro huge) (simp_all add: compress_def)
  qed
  show thesis
  proof (cases "data = []")
    case True
    then have "lzss_encode data = Some (Inr (bw_flush bw_init))" by (simp add: lzss_encode_def)
    with * True show thesis by blast
  next
    case False
    then show thesis
    proof (cases rule: lzss_roundtrip)
      case long
      then show thesis by (intro that(1)) (simp_all add: compress_def)
    next
      case (written body)
      with * show thesis by blast
    qed
  qed
qed

lemma decompress_stream:
  assumes "length data < 2 ^ 32" "data \<noteq> [] \<Longrightarrow> lzss_decode body (length data) = Some data"
  shows "decompress (le_bytes 2 (unat (crc16 (le_bytes 4 (length data) @ body))) @ le_bytes 4 (length data) @ body)
    = Some (Inr data)"
proof -
  have "from_le (le_bytes 4 (length data)) = length data" using assms(1) by (intro from_le_bytes) simp
  moreover have "from_le (le_bytes 2 (unat (crc16 zs))) = unat (crc16 zs)" for zs by (rule from_le_bytes [OF crc_fits])
  ultimately show ?thesis using assms(2) by (cases "data = []") (simp_all add: decompress_def Let_def)
qed

text \<open>C1. \<^verbatim>\<open>compress\<close> always returns. What it returns for a message, \<^verbatim>\<open>decompress\<close> turns back into exactly
that message; it fails only when an adaptive code grows past 16 bits, which takes more than 3867 bytes,
or when the length does not fit its four bytes.\<close>

theorem lzhuf_roundtrip:
  "\<exists>r. compress data = Some r \<and> (case r of
      Inr blob \<Rightarrow> decompress blob = Some (Inr data)
    | Inl e \<Rightarrow> e = ValueError ''negative shift count'' \<and> 3867 < length data \<or> e = OverflowError \<and> 2 ^ 32 \<le> length data)"
proof (cases rule: compress_cases [of data])
  case (stream body)
  with decompress_stream [of data body] show ?thesis by simp
qed simp_all

text \<open>C40. A compressed message with any one byte changed is refused: the CRC-16 of the stream does not match.\<close>

theorem corrupt_byte_refused:
  assumes "compress data = Some (Inr (xs @ a # ys))" "a \<noteq> b"
  shows "decompress (xs @ b # ys) = Some (Inl (ValueError ''B2 CRC-16 mismatch''))"
proof -
  obtain len body where blob: "xs @ a # ys = le_bytes 2 (unat (crc16 (len @ body))) @ len @ body"
    and len: "length len = 4"
  proof (cases rule: compress_cases [of data])
    case (stream body)
    with assms(1) that [of "le_bytes 4 (length data)" body] show thesis by simp
  qed (use assms(1) in simp_all)
  have "length (xs @ a # ys) = 6 + length body" unfolding blob using len by simp
  then have l: "6 \<le> length (xs @ b # ys)" by simp
  have crc: "from_le (le_bytes 2 (unat (crc16 zs))) = unat (crc16 zs)" for zs by (rule from_le_bytes [OF crc_fits])
  have ne: "unat (crc16 (drop 2 (xs @ b # ys))) \<noteq> from_le (take 2 (xs @ b # ys))"
  proof (cases "length xs < 2")
    case True
    then have "drop 2 (xs @ b # ys) = drop 2 (xs @ a # ys)" by (cases xs) (auto simp: drop_Cons' neq_Nil_conv)
    also have "\<dots> = len @ body" using blob by simp
    finally have d: "drop 2 (xs @ b # ys) = len @ body" .
    have "take 2 (xs @ b # ys) \<noteq> take 2 (xs @ a # ys)" using True assms(2)
      by (cases xs) (auto simp: take_Cons' neq_Nil_conv)
    moreover have "take 2 (xs @ a # ys) = le_bytes 2 (unat (crc16 (len @ body)))" using blob by simp
    moreover have "length (take 2 (xs @ b # ys)) = 2" using l by simp
    ultimately have "from_le (take 2 (xs @ b # ys)) \<noteq> from_le (le_bytes 2 (unat (crc16 (len @ body))))"
      using from_le_inject by (metis le_bytes_length)
    then show ?thesis unfolding d crc by simp
  next
    case False
    then obtain x1 x2 zs where xs: "xs = x1 # x2 # zs" by (cases xs; cases "tl xs") auto
    then have "x1 # x2 # zs @ a # ys = le_bytes 2 (unat (crc16 (len @ body))) @ len @ body" using blob(1) by simp
    then have "zs @ a # ys = len @ body" "[x1, x2] = le_bytes 2 (unat (crc16 (len @ body)))"
      by (auto simp: le_bytes_def numeral_2_eq_2)
    then have "from_le [x1, x2] = unat (crc16 (zs @ a # ys))" using crc by simp
    moreover have "crc16 (zs @ a # ys) \<noteq> crc16 (zs @ b # ys)" by (rule crc16_byte_change [OF assms(2)])
    ultimately show ?thesis by (simp add: xs) (metis word_unat_eq_iff)
  qed
  have "drop 2 (xs @ b # ys) = take 4 (drop 2 (xs @ b # ys)) @ drop 6 (xs @ b # ys)"
    using append_take_drop_id [of 4 "drop 2 (xs @ b # ys)"] unfolding drop_drop by simp
  with ne have "unat (crc16 (take 4 (drop 2 (xs @ b # ys)) @ drop 6 (xs @ b # ys))) \<noteq> from_le (take 2 (xs @ b # ys))"
    by metis
  then show ?thesis unfolding decompress_def Let_def using l by (simp only: not_le [symmetric] not_True_eq_False if_False if_True simp_thms)
qed

lemma short_message_compresses:
  assumes "length data \<le> 3867"
  obtains blob where "compress data = Some (Inr blob)" "6 \<le> length blob"
  by (rule compress_cases [of data]) (use assms that in auto)

theorem corrupt_byte_refused_witness:
  "\<exists>blob. compress [0x48, 0x69, 0x48, 0x69, 0x48, 0x69, 0x21] = Some (Inr blob)
     \<and> decompress (blob[3 := blob ! 3 + 1]) = Some (Inl (ValueError ''B2 CRC-16 mismatch''))"
proof -
  obtain blob where b: "compress [0x48, 0x69, 0x48, 0x69, 0x48, 0x69, 0x21] = Some (Inr blob)" "6 \<le> length blob"
    by (rule short_message_compresses [of "[0x48, 0x69, 0x48, 0x69, 0x48, 0x69, 0x21]"]) simp_all
  have split: "blob = take 3 blob @ blob ! 3 # drop 4 blob" using b(2) id_take_nth_drop [of 3 blob] by simp
  with b(1) have "compress [0x48, 0x69, 0x48, 0x69, 0x48, 0x69, 0x21] = Some (Inr (take 3 blob @ blob ! 3 # drop 4 blob))"
    by simp
  from corrupt_byte_refused [OF this, of "blob ! 3 + 1"] b show ?thesis
    by (intro exI [of _ blob]) (simp add: upd_conv_take_nth_drop)
qed

end
