(* ===== verification/Aprs.thy ===== *)
theory Aprs
  imports Kiss Ax25 B2f Py_Time
begin

text \<open>
  APRS messages (src/src/web/aprs.py) and the two wire formats below them
  (src/src/web/aprs_transports.py): the information field of a message, an acknowledgement or a
  reject and its parser, the generator of message numbers, the APRS-IS passcode, login and TNC2
  lines, UI frames over KISS. Positions are left out: they are computed in floating point.
  A message sent with a number comes back from the parser as it was sent, over either transport.
\<close>

section \<open>Calls and text\<close>

definition TOCALL :: string where
  "TOCALL = ''APKPPR''"

definition normalize_call :: "string \<Rightarrow> string" where
  "normalize_call call = upper (strip call)"

text \<open>\<open>[A-Z0-9]\<close>, and the pattern of a call: one to six of them, then at most a dash and one to three more.\<close>

definition call_char :: "char \<Rightarrow> bool" where
  "call_char c \<longleftrightarrow> is_upper c \<or> is_digit c"

definition call_re :: "string \<Rightarrow> bool" where
  "call_re s = (case partition_at CHR ''-'' s of (base, dash, ssid) \<Rightarrow>
     1 \<le> length base \<and> length base \<le> 6 \<and> list_all call_char base
     \<and> (dash \<longrightarrow> 1 \<le> length ssid \<and> length ssid \<le> 3 \<and> list_all call_char ssid))"

definition valid_call :: "string \<Rightarrow> bool" where
  "valid_call call = (let c = normalize_call call in call_re c \<and> length c \<le> 9)"

definition format_addressee :: "string \<Rightarrow> string" where
  "format_addressee call = ljust 9 (take 9 (normalize_call call))"

text \<open>\<^verbatim>\<open>replace("\r\n", " ")\<close>, and the whole of \<^verbatim>\<open>sanitize_text\<close>.\<close>

abbreviation CR :: char where "CR \<equiv> CHR 0x0D"
abbreviation LF :: char where "LF \<equiv> CHR 0x0A"

fun replace_crlf :: "string \<Rightarrow> string" where
  "replace_crlf (a # b # s) = (if a = CR \<and> b = LF then CHR '' '' # replace_crlf s else a # replace_crlf (b # s))"
| "replace_crlf s = s"

definition sanitize_aprs :: "string \<Rightarrow> string" where
  "sanitize_aprs text =
     (let t = replace1 LF '' '' (replace1 CR '' '' (replace_crlf text))
      in take 67 (fold (\<lambda>c. replace1 c []) [CHR ''|'', CHR ''~'', CHR ''{''] t))"

section \<open>Message fields\<close>

definition format_message :: "string \<Rightarrow> string \<Rightarrow> string option \<Rightarrow> string" where
  "format_message addressee text msgno =
     (let field = '':'' @ format_addressee addressee @ '':'' @ sanitize_aprs text in
      case msgno of None \<Rightarrow> field
      | Some n \<Rightarrow> if n = [] then field else field @ ''{'' @ take 5 n)"

definition format_ack :: "string \<Rightarrow> string \<Rightarrow> string" where
  "format_ack addressee msgno = '':'' @ format_addressee addressee @ '':ack'' @ take 5 msgno"

definition format_reject :: "string \<Rightarrow> string \<Rightarrow> string" where
  "format_reject addressee msgno = '':'' @ format_addressee addressee @ '':rej'' @ take 5 msgno"

datatype kind = KMessage | KAck | KReject

record parsed =
  p_kind :: "kind option"
  p_addressee :: string
  p_text :: string
  p_msgno :: "string option"

definition no_message :: parsed where
  "no_message = \<lparr>p_kind = None, p_addressee = [], p_text = [], p_msgno = None\<rparr>"

text \<open>\<^verbatim>\<open>ack([A-Za-z0-9]{1,5})\}?\s*$\<close> after its three letters: the longest run of alphanumerics, then
at most one brace, then white space.\<close>

definition reply_no :: "string \<Rightarrow> string \<Rightarrow> string option" where
  "reply_no tag s =
     (if startswith tag s
      then let r = drop (length tag) s; n = takeWhile is_alnum r; r = dropWhile is_alnum r;
               r = (if startswith ''}'' r then tl r else r) in
        (if 1 \<le> length n \<and> length n \<le> 5 \<and> list_all is_space r then Some n else None)
      else None)"

definition parse_message :: "string \<Rightarrow> parsed" where
  "parse_message info =
     (if startswith '':'' info \<and> 10 < length info \<and> info ! 10 = CHR '':''
      then let rest = drop 11 info;
               out = no_message\<lparr>p_addressee := upper (strip (take 9 (drop 1 info)))\<rparr> in
        (case reply_no ''ack'' rest of
           Some n \<Rightarrow> out\<lparr>p_kind := Some KAck, p_msgno := Some n\<rparr>
         | None \<Rightarrow>
        (case reply_no ''rej'' rest of
           Some n \<Rightarrow> out\<lparr>p_kind := Some KReject, p_msgno := Some n\<rparr>
         | None \<Rightarrow>
        (case rpartition_at CHR ''{'' rest of (body, found, n) \<Rightarrow>
           if found \<and> 1 \<le> length (strip n) \<and> length (strip n) \<le> 5 \<and> list_all is_alnum (strip n)
           then out\<lparr>p_kind := Some KMessage, p_text := body, p_msgno := Some (strip n)\<rparr>
           else out\<lparr>p_kind := Some KMessage, p_text := rest\<rparr>)))
      else no_message)"

section \<open>Message numbers\<close>

definition msgno_gen :: "int \<Rightarrow> nat" where
  "msgno_gen start = nat (max 1 start) mod 100000"

definition next_msgno :: "nat \<Rightarrow> string \<times> nat" where
  "next_msgno v = (show_nat v, v mod 99999 + 1)"

section \<open>APRS-IS\<close>

fun xor_pairs :: "nat \<Rightarrow> string \<Rightarrow> nat" where
  "xor_pairs code [] = code"
| "xor_pairs code [a] = code XOR push_bit 8 (ord a)"
| "xor_pairs code (a # b # s) = xor_pairs (code XOR push_bit 8 (ord a) XOR ord b) s"

definition passcode :: "string \<Rightarrow> nat" where
  "passcode callsign = xor_pairs 0x73E2 (hd (split_at CHR ''-'' (normalize_call callsign))) AND 0x7FFF"

definition aprsis_login :: "string \<Rightarrow> string \<Rightarrow> string \<Rightarrow> string option \<Rightarrow> string" where
  "aprsis_login callsign appname version filt =
     (let line = ''user '' @ normalize_call callsign @ '' pass '' @ show_nat (passcode callsign)
        @ '' vers '' @ appname @ '' '' @ version in
      case filt of None \<Rightarrow> line | Some f \<Rightarrow> if f = [] then line else line @ '' filter '' @ f)"

definition tnc2_line :: "string \<Rightarrow> string \<Rightarrow> string \<Rightarrow> string list \<Rightarrow> string" where
  "tnc2_line source tocall info path =
     foldl (\<lambda>hdr p. hdr @ '','' @ p) (normalize_call source @ ''>'' @ normalize_call tocall) path @ '':'' @ info"

record tnc2 =
  t_source :: string
  t_dest :: string
  t_path :: "string list"
  t_info :: string

text \<open>\<open>[^>]+ > [^,:]+ (,[^:]+)* : .*\<close>: the path, when there is one, runs from the first comma to the
first colon and is not empty.\<close>

definition rstrip_crlf :: "string \<Rightarrow> string" where
  "rstrip_crlf s = rev (dropWhile (\<lambda>c. c = CR \<or> c = LF) (rev s))"

definition tnc2_re :: "string \<Rightarrow> (string \<times> string \<times> string \<times> string) option" where
  "tnc2_re s = (case partition_at CHR ''>'' s of (src, gt, r) \<Rightarrow>
     (let dest = takeWhile (\<lambda>c. c \<noteq> CHR '','' \<and> c \<noteq> CHR '':'') r in
      case partition_at CHR '':'' (drop (length dest) r) of (path, colon, info) \<Rightarrow>
        if gt \<and> colon \<and> src \<noteq> [] \<and> dest \<noteq> [] \<and> length path \<noteq> 1 then Some (src, dest, path, info) else None))"

definition parse_tnc2 :: "string \<Rightarrow> tnc2 option" where
  "parse_tnc2 line =
     (if line = [] \<or> startswith ''#'' line then None
      else (case tnc2_re (rstrip_crlf line) of None \<Rightarrow> None
        | Some (src, dest, path, info) \<Rightarrow>
            Some \<lparr>t_source = upper (strip src), t_dest = upper (strip dest),
                  t_path = filter (\<lambda>p. p \<noteq> []) (split_at CHR '','' path), t_info = info\<rparr>))"

section \<open>Transports\<close>

abbreviation UI :: byte where "UI \<equiv> 0x03"

text \<open>\<^verbatim>\<open>decode("ascii", "replace")\<close>: the replacement character U+FFFD is stood for by \<open>CHR 0xFF\<close>, which
no other byte decodes to.\<close>

definition ascii_decode :: "bytes \<Rightarrow> string" where
  "ascii_decode bs = map (\<lambda>b. if b < 0x80 then chr (unat b) else CHR 0xFF) bs"

definition rf_wire :: "string \<Rightarrow> string list \<Rightarrow> string \<Rightarrow> bytes result" where
  "rf_wire mycall digipath info =
     rbind (make_frame (normalize_call TOCALL) (normalize_call mycall) UI (ascii_replace info) PID_NO_L3 False digipath)
       (\<lambda>frame. Inr (kiss_encode frame 0))"

fun ui_infos :: "bytes list \<Rightarrow> (string \<times> string) list result" where
  "ui_infos [] = Inr []"
| "ui_infos (kf # kfs) =
     (case split_frame kf of
        Inl (ValueError _) \<Rightarrow> ui_infos kfs
      | Inl e \<Rightarrow> Inl e
      | Inr (_, src, _, ctrl, _, payload) \<Rightarrow>
          if ctrl AND 0xEF \<noteq> UI then ui_infos kfs
          else rbind (ui_infos kfs) (\<lambda>out. Inr ((src, ascii_decode payload) # out)))"

definition rf_feed :: "kiss_decoder \<Rightarrow> bytes \<Rightarrow> kiss_decoder \<times> (string \<times> string) list result" where
  "rf_feed dec data = (case kiss_feed dec data of (dec, kfs) \<Rightarrow> (dec, ui_infos kfs))"

definition is_filter :: "string \<Rightarrow> string option \<Rightarrow> string" where
  "is_filter mycall filt = (case filt of Some (c # f) \<Rightarrow> c # f
     | _ \<Rightarrow> ''g/'' @ hd (split_at CHR ''-'' (normalize_call mycall)) @ ''*'')"

definition is_login :: "string \<Rightarrow> string \<Rightarrow> string option \<Rightarrow> bytes result" where
  "is_login mycall version filt =
     encode_ascii (aprsis_login (normalize_call mycall) ''KP4PRA'' version (Some (is_filter mycall filt)) @ [CR, LF])"

definition is_wire :: "string \<Rightarrow> string \<Rightarrow> bytes" where
  "is_wire mycall info =
     ascii_replace (tnc2_line (normalize_call mycall) (normalize_call TOCALL) info [''TCPIP*''] @ [CR, LF])"

definition parse_line :: "string \<Rightarrow> (string \<times> string) option" where
  "parse_line line = map_option (\<lambda>d. (t_source d, t_info d)) (parse_tnc2 line)"

text \<open>What the receive loop makes of one line of the feed.\<close>

definition is_read :: "bytes \<Rightarrow> (string \<times> string) option" where
  "is_read raw = parse_line (rstrip_crlf (ascii_decode raw))"

section \<open>What the parser gives back\<close>

lemma partition_at_parts: "partition_at c s = (a, f, b) \<Longrightarrow> s = (if f then a @ c # b else a)"
  by (induction s arbitrary: a) (auto split: if_splits prod.splits)

lemma call_char_plain: "call_char c \<Longrightarrow> \<not> is_space c \<and> \<not> is_lower c \<and> ord c < 128 \<and> c \<noteq> CHR '':'' \<and> c \<noteq> CHR ''>'' \<and> c \<noteq> CHR '',''"
  using base_char [of c] by (auto simp: call_char_def is_upper_def is_digit_def ord_def)

lemma call_re_plain:
  assumes "call_re s" "c \<in> set s"
  shows "\<not> is_space c \<and> \<not> is_lower c \<and> ord c < 128 \<and> c \<noteq> CHR '':'' \<and> c \<noteq> CHR ''>'' \<and> c \<noteq> CHR '',''"
proof -
  obtain base f ssid where p: "partition_at CHR ''-'' s = (base, f, ssid)" by (cases "partition_at CHR ''-'' s")
  with partition_at_parts [OF p] assms have "call_char c \<or> c = CHR ''-''"
    by (auto simp: call_re_def list_all_iff split: if_splits)
  then show ?thesis using call_char_plain dash_plain by (auto simp: ord_def)
qed

lemma call_re_nonempty: "call_re s \<Longrightarrow> s \<noteq> []"
  by (auto simp: call_re_def)

lemma valid_call_facts:
  assumes "valid_call a"
  shows "normalize_call a \<noteq> []" "length (normalize_call a) \<le> 9"
    "list_all (\<lambda>c. \<not> is_space c) (normalize_call a)" "upper (normalize_call a) = normalize_call a"
    "strip (normalize_call a) = normalize_call a"
proof -
  have v: "call_re (normalize_call a)" "length (normalize_call a) \<le> 9"
    using assms by (simp_all add: valid_call_def Let_def)
  then show "normalize_call a \<noteq> []" "length (normalize_call a) \<le> 9" by (auto dest: call_re_nonempty)
  show s: "list_all (\<lambda>c. \<not> is_space c) (normalize_call a)" using call_re_plain [OF v(1)] by (auto simp: list_all_iff)
  show "upper (normalize_call a) = normalize_call a"
    using call_re_plain [OF v(1)] by (intro upper_id) (auto simp: list_all_iff)
  show "strip (normalize_call a) = normalize_call a" by (rule strip_id_alnum [OF s])
qed

lemma station_call:
  assumes "call_ok st"
  shows "normalize_call (call_str st) = call_str st" "valid_call (call_str st)"
proof -
  obtain b n where st: "st = (b, n)" by (cases st)
  show n: "normalize_call (call_str st) = call_str st" using call_str_plain [OF assms] by (simp add: normalize_call_def)
  have l: "length (show_nat n) \<le> 2" if "n < 16" using length_show_nat_le [of n 1] that by simp
  have d: "list_all call_char (show_nat n)" using show_nat_digits [of n] by (auto simp: list_all_iff call_char_def)
  have b: "CHR ''-'' \<notin> set b" "list_all call_char b" using assms base_facts [of b] by (auto simp: st call_char_def [abs_def])
  have "partition_at CHR ''-'' (call_str st) = (b, n \<noteq> 0, if n = 0 then [] else show_nat n)"
    using b(1) by (simp add: st partition_at_absent partition_at_append)
  then have "call_re (call_str st)" using assms b l d by (cases b) (auto simp: call_re_def st Suc_le_eq)
  moreover have "length (call_str st) \<le> 9" using assms l by (auto simp: st)
  ultimately show "valid_call (call_str st)" by (simp add: valid_call_def n)
qed

text \<open>The layout of a field: the parser finds the addressee and the rest.\<close>

lemma parse_field:
  assumes "valid_call a"
  shows "parse_message ('':'' @ format_addressee a @ '':'' @ rest) =
    (let out = no_message\<lparr>p_addressee := normalize_call a\<rparr> in
     case reply_no ''ack'' rest of
       Some n \<Rightarrow> out\<lparr>p_kind := Some KAck, p_msgno := Some n\<rparr>
     | None \<Rightarrow>
    (case reply_no ''rej'' rest of
       Some n \<Rightarrow> out\<lparr>p_kind := Some KReject, p_msgno := Some n\<rparr>
     | None \<Rightarrow>
    (case rpartition_at CHR ''{'' rest of (body, found, n) \<Rightarrow>
       if found \<and> 1 \<le> length (strip n) \<and> length (strip n) \<le> 5 \<and> list_all is_alnum (strip n)
       then out\<lparr>p_kind := Some KMessage, p_text := body, p_msgno := Some (strip n)\<rparr>
       else out\<lparr>p_kind := Some KMessage, p_text := rest\<rparr>)))"
proof -
  let ?f = "format_addressee a"
  have l: "length ?f = 9" using valid_call_facts(2) [OF assms] by (simp add: format_addressee_def ljust_def)
  have "strip ?f = normalize_call a"
    using valid_call_facts [OF assms] by (simp add: format_addressee_def strip_ljust)
  then have "upper (strip ?f) = normalize_call a" using valid_call_facts(4) [OF assms] by simp
  moreover have "drop 11 ('':'' @ ?f @ '':'' @ rest) = rest" "take 9 (drop 1 ('':'' @ ?f @ '':'' @ rest)) = ?f"
    "('':'' @ ?f @ '':'' @ rest) ! 10 = CHR '':''" "10 < length ('':'' @ ?f @ '':'' @ rest)"
    "startswith '':'' ('':'' @ ?f @ '':'' @ rest)"
    using l by (simp_all add: nth_append nth_Cons' startswith_def)
  ultimately show ?thesis unfolding parse_message_def by (simp only: Let_def simp_thms if_True)
qed

lemma sanitize_plain: "CHR ''{'' \<notin> set (sanitize_aprs t)"
  using set_replace1 [of "CHR ''{''" "[]"] by (auto simp: sanitize_aprs_def Let_def dest: in_set_takeD)

lemma reply_no_chars:
  assumes "reply_no tag s = Some n" "c \<in> set s"
  shows "c \<in> set tag \<or> is_alnum c \<or> is_space c \<or> c = CHR ''}''"
proof -
  define r where "r = drop (length tag) s"
  have s: "s = tag @ r" using assms(1) by (auto simp: reply_no_def startswith_iff r_def split: if_splits)
  have brace: "set d \<subseteq> {c. is_space c \<or> c = CHR ''}''}"
    if "list_all is_space (if startswith ''}'' d then tl d else d)" for d
    using that by (cases d) (auto simp: startswith_def list_all_iff split: if_splits)
  have "list_all is_space (if startswith ''}'' (dropWhile is_alnum r) then tl (dropWhile is_alnum r) else dropWhile is_alnum r)"
    using assms(1) by (simp add: reply_no_def Let_def r_def split: if_splits)
  then have "set (dropWhile is_alnum r) \<subseteq> {c. is_space c \<or> c = CHR ''}''}" by (rule brace)
  moreover have "set (takeWhile is_alnum r) \<subseteq> {c. is_alnum c}" by (auto dest: set_takeWhileD)
  moreover have "set r = set (takeWhile is_alnum r) \<union> set (dropWhile is_alnum r)"
    by (metis set_append takeWhile_dropWhile_id)
  ultimately show ?thesis using assms(2) s by auto
qed

lemma brace_class: "\<not> is_alnum CHR ''{'' \<and> \<not> is_space CHR ''{''"
  by (simp add: is_alnum_def is_digit_def is_upper_def is_lower_def is_space_def ord_def)

definition msgno_ok :: "string \<Rightarrow> bool" where
  "msgno_ok n \<longleftrightarrow> 1 \<le> length n \<and> length n \<le> 5 \<and> list_all is_alnum n"

lemma reply_no_back:
  assumes "msgno_ok n"
  shows "reply_no tag (tag @ n) = Some n"
proof -
  have w: "takeWhile is_alnum n = n" "dropWhile is_alnum n = []"
    using assms by (auto simp: msgno_ok_def list_all_iff)
  show ?thesis using assms by (simp add: reply_no_def Let_def msgno_ok_def startswith_def w)
qed

lemma msgno_strip: "msgno_ok n \<Longrightarrow> strip n = n \<and> take 5 n = n \<and> CHR ''{'' \<notin> set n"
  using strip_id_alnum [of n] alnum_not_space brace_class by (auto simp: msgno_ok_def list_all_iff)

lemma parse_numbered:
  assumes "valid_call a" "msgno_ok n"
  shows "parse_message (format_message a text (Some n)) =
    \<lparr>p_kind = Some KMessage, p_addressee = normalize_call a, p_text = sanitize_aprs text, p_msgno = Some n\<rparr>"
proof -
  let ?rest = "sanitize_aprs text @ ''{'' @ n"
  have m: "strip n = n" "take 5 n = n" "CHR ''{'' \<notin> set n" using msgno_strip [OF assms(2)] by simp_all
  have "n \<noteq> []" using assms(2) by (auto simp: msgno_ok_def)
  then have f: "format_message a text (Some n) = '':'' @ format_addressee a @ '':'' @ ?rest"
    by (simp add: format_message_def Let_def m(2))
  have "reply_no tag ?rest = None" if "CHR ''{'' \<notin> set tag" for tag
    using reply_no_chars [of tag ?rest _ "CHR ''{''"] that brace_class by (cases "reply_no tag ?rest") auto
  then have none: "reply_no ''ack'' ?rest = None" "reply_no ''rej'' ?rest = None" by simp_all
  have rp: "rpartition_at CHR ''{'' ?rest = (sanitize_aprs text, True, n)"
    using rpartition_at_append [OF m(3), of "sanitize_aprs text"] by simp
  show ?thesis unfolding f parse_field [OF assms(1)] none rp option.case Let_def
    using assms(2) by (simp add: m(1) msgno_ok_def no_message_def)
qed

lemma parse_replies:
  assumes "valid_call a" "msgno_ok n"
  shows "parse_message (format_ack a n) =
      \<lparr>p_kind = Some KAck, p_addressee = normalize_call a, p_text = [], p_msgno = Some n\<rparr>"
    "parse_message (format_reject a n) =
      \<lparr>p_kind = Some KReject, p_addressee = normalize_call a, p_text = [], p_msgno = Some n\<rparr>"
proof -
  have t: "take 5 n = n" using msgno_strip [OF assms(2)] by simp
  have f: "format_ack a n = '':'' @ format_addressee a @ '':'' @ (''ack'' @ n)"
    "format_reject a n = '':'' @ format_addressee a @ '':'' @ (''rej'' @ n)"
    by (simp_all add: format_ack_def format_reject_def t)
  show "parse_message (format_ack a n) =
      \<lparr>p_kind = Some KAck, p_addressee = normalize_call a, p_text = [], p_msgno = Some n\<rparr>"
    unfolding f parse_field [OF assms(1)] reply_no_back [OF assms(2)] by (simp add: no_message_def)
  have "reply_no ''ack'' (''rej'' @ n) = None" by (simp add: reply_no_def startswith_def)
  then show "parse_message (format_reject a n) =
      \<lparr>p_kind = Some KReject, p_addressee = normalize_call a, p_text = [], p_msgno = Some n\<rparr>"
    unfolding f parse_field [OF assms(1)] reply_no_back [OF assms(2)] by (simp add: no_message_def)
qed

section \<open>What arrives on the other side\<close>

definition ascii_text :: "string \<Rightarrow> bool" where
  "ascii_text s \<longleftrightarrow> list_all (\<lambda>c. ord c < 128) s"

lemma ascii_text_append [simp]: "ascii_text (s @ t) \<longleftrightarrow> ascii_text s \<and> ascii_text t"
  by (simp add: ascii_text_def)

lemma ascii_back: "ascii_text s \<Longrightarrow> ascii_decode (ascii_replace s) = s"
proof (induction s)
  case (Cons c s)
  then have c: "ord c < 128" "ascii_text s" by (simp_all add: ascii_text_def)
  then have "unat (word_of_nat (ord c) :: byte) = ord c" by (simp add: unsigned_of_nat take_bit_nat_eq_self)
  moreover have "(word_of_nat (ord c) :: byte) < 0x80"
    using c(1) calculation by (simp add: word_less_nat_alt)
  ultimately show ?case using Cons.IH c by (simp add: ascii_decode_def ascii_replace_def)
qed (simp add: ascii_decode_def ascii_replace_def)

lemma TOCALL_call: "normalize_call TOCALL = call_str (''APKPPR'', 0)" "call_ok (''APKPPR'', 0)"
  by (simp_all add: normalize_call_def TOCALL_def py_eval char_class_defs upper_def strip_def rstrip_def lstrip_def)

lemma rf_delivers:
  assumes "call_ok st" "list_all call_ok ds" "length ds \<le> 8" "ascii_text info"
  shows "\<exists>w. rf_wire (call_str st) (map call_str ds) info = Inr w
    \<and> rf_feed kiss_init w = (kiss_init, Inr [(call_str st, info)])"
proof -
  have u: "(0x03 :: byte) AND 0xEF = 0x03" by simp
  have "rbind (make_frame (call_str (''APKPPR'', 0)) (call_str st) UI (ascii_replace info) PID_NO_L3 False
      (map call_str ds)) split_frame
    = Inr (call_str (''APKPPR'', 0), call_str st, map call_str ds, UI, PID_NO_L3, ascii_replace info)"
    using assms by (intro make_split_frame TOCALL_call(2)) auto
  then obtain f where f: "make_frame (call_str (''APKPPR'', 0)) (call_str st) UI (ascii_replace info) PID_NO_L3
      False (map call_str ds) = Inr f"
    "split_frame f = Inr (call_str (''APKPPR'', 0), call_str st, map call_str ds, UI, PID_NO_L3, ascii_replace info)"
    unfolding rbind_eq_Inr by blast
  have "rf_wire (call_str st) (map call_str ds) info = Inr (kiss_encode f 0)"
    unfolding rf_wire_def TOCALL_call(1) station_call(1) [OF assms(1)] f(1) by simp
  moreover have "kiss_feed kiss_init (kiss_encode f 0) = (kiss_init, [f])"
    by (rule kissf.feed_frame) simp
  ultimately show ?thesis by (simp add: rf_feed_def f(2) u ascii_back [OF assms(4)])
qed

lemma rstrip_crlf_clean: "(s = [] \<or> last s \<noteq> CR \<and> last s \<noteq> LF) \<Longrightarrow> rstrip_crlf s = s"
  by (cases s rule: rev_cases) (simp_all add: rstrip_crlf_def)

lemma rstrip_crlf_eol: "rstrip_crlf (s @ [CR, LF]) = rstrip_crlf s"
  by (simp add: rstrip_crlf_def)

lemma is_delivers:
  assumes st: "call_ok st" and a: "ascii_text info" and e: "info = [] \<or> last info \<noteq> CR \<and> last info \<noteq> LF"
  shows "is_read (is_wire (call_str st) info) = Some (call_str st, info)"
proof -
  let ?line = "call_str st @ ''>APKPPR,TCPIP*:'' @ info"
  have n: "normalize_call (call_str st) = call_str st" by (rule station_call(1) [OF st])
  have re: "call_re (call_str st)" using station_call(2) [OF st] unfolding valid_call_def n by (simp add: Let_def)
  have toc: "normalize_call (normalize_call TOCALL) = ''APKPPR''"
    using station_call(1) [OF TOCALL_call(2)] by (simp add: TOCALL_call(1))
  have line: "tnc2_line (normalize_call (call_str st)) (normalize_call TOCALL) info [''TCPIP*''] = ?line"
    by (simp add: tnc2_line_def n toc)
  have "ascii_text (call_str st)" using call_re_plain [OF re] by (auto simp: ascii_text_def list_all_iff)
  then have "ascii_text (?line @ [CR, LF])" using a by (simp add: ascii_text_def ord_def)
  then have "ascii_decode (is_wire (call_str st) info) = ?line @ [CR, LF]"
    unfolding is_wire_def line by (rule ascii_back)
  moreover have clean: "rstrip_crlf ?line = ?line" using e by (intro rstrip_crlf_clean) auto
  ultimately have raw: "rstrip_crlf (ascii_decode (is_wire (call_str st) info)) = ?line"
    by (simp only: rstrip_crlf_eol)
  have gt: "partition_at CHR ''>'' ?line = (call_str st, True, ''APKPPR,TCPIP*:'' @ info)"
    using partition_at_append [of "CHR ''>''" "call_str st" "''APKPPR,TCPIP*:'' @ info"] call_re_plain [OF re]
    by auto
  have re2: "tnc2_re ?line = Some (call_str st, ''APKPPR'', '',TCPIP*'', info)"
    using call_re_nonempty [OF re] unfolding tnc2_re_def gt by simp
  have "hd (call_str st) \<noteq> CHR ''#''"
  proof -
    have "hd (call_str st) = hd (fst st)" "call_char (hd (fst st))"
      using st by (cases st; cases "fst st"; auto simp: call_char_def)+
    then show ?thesis by (auto simp: call_char_def is_upper_def is_digit_def ord_def)
  qed
  then have "\<not> (?line = [] \<or> startswith ''#'' ?line)"
    using call_re_nonempty [OF re] by (cases "call_str st") (simp_all add: startswith_def)
  moreover have "upper (strip (call_str st)) = call_str st" using call_str_plain [OF st] by simp
  ultimately show ?thesis
    unfolding is_read_def raw parse_line_def parse_tnc2_def clean re2 by simp
qed

lemma ascii_format_message:
  assumes "valid_call a" "msgno_ok n" "ascii_text text"
  shows "ascii_text (format_message a text (Some n))" "last (format_message a text (Some n)) = last n" "n \<noteq> []"
proof -
  show "n \<noteq> []" using assms(2) by (auto simp: msgno_ok_def)
  have subr: "set (replace1 c r s) \<subseteq> set s \<union> set r" for c r and s :: string by (auto simp: replace1_def split: if_splits)
  have shrink: "set (replace1 c [] s) \<subseteq> set s" for c and s :: string using subr [of c "[]" s] by simp
  have crlf: "set (replace_crlf s) \<subseteq> set s \<union> {CHR '' ''}" for s by (induction s rule: replace_crlf.induct) auto
  have "set (replace1 LF '' '' (replace1 CR '' '' (replace_crlf text))) \<subseteq> set text \<union> {CHR '' ''}" (is "set ?t \<subseteq> _")
    using subr [of LF "'' ''" "replace1 CR '' '' (replace_crlf text)"] subr [of CR "'' ''" "replace_crlf text"] crlf [of "text"]
    by auto
  moreover have "set (fold (\<lambda>c. replace1 c []) cs s) \<subseteq> set s" for cs and s :: string
  proof (induction cs arbitrary: s)
    case (Cons c cs)
    show ?case using subset_trans [OF Cons.IH [of "replace1 c [] s"] shrink [of c s]] by simp
  qed simp
  moreover have "set (take 67 s) \<subseteq> set s" for s :: string by (rule set_take_subset)
  ultimately have "set (sanitize_aprs text) \<subseteq> set text \<union> {CHR '' ''}"
    unfolding sanitize_aprs_def Let_def by (meson subset_trans)
  then have t: "ascii_text (sanitize_aprs text)" using assms(3) by (auto simp: ascii_text_def list_all_iff ord_def)
  have c: "call_re (normalize_call a)" using assms(1) by (simp add: valid_call_def Let_def)
  have "ascii_text (normalize_call a)" using call_re_plain [OF c] by (auto simp: ascii_text_def list_all_iff)
  then have f: "ascii_text (format_addressee a)"
    by (auto simp: format_addressee_def ljust_def ascii_text_def list_all_iff ord_def dest: in_set_takeD)
  have n: "ascii_text n" using assms(2)
    by (auto simp: msgno_ok_def ascii_text_def list_all_iff is_alnum_def is_digit_def is_upper_def is_lower_def)
  have m: "format_message a text (Some n) = '':'' @ format_addressee a @ '':'' @ sanitize_aprs text @ ''{'' @ n"
    using msgno_strip [OF assms(2)] \<open>n \<noteq> []\<close> by (simp add: format_message_def Let_def)
  show "ascii_text (format_message a text (Some n))" unfolding m using t f n by (simp add: ascii_text_def ord_def)
  show "last (format_message a text (Some n)) = last n" unfolding m using \<open>n \<noteq> []\<close> by simp
qed

text \<open>The numbers a generator hands out.\<close>

definition nth_msgno :: "nat \<Rightarrow> nat \<Rightarrow> string" where
  "nth_msgno v i = fst (next_msgno (((snd \<circ> next_msgno) ^^ i) v))"

lemma nth_msgno_value:
  assumes "1 \<le> v" "v \<le> 99999"
  shows "((snd \<circ> next_msgno) ^^ i) v = (v - 1 + i) mod 99999 + 1"
proof (induction i)
  case 0
  show ?case using assms by simp
next
  case (Suc i)
  have "((snd \<circ> next_msgno) ^^ Suc i) v = snd (next_msgno (((snd \<circ> next_msgno) ^^ i) v))" by simp
  also have "\<dots> = ((v - 1 + i) mod 99999 + 1) mod 99999 + 1" unfolding Suc by (simp add: next_msgno_def)
  also have "((v - 1 + i) mod 99999 + 1) mod 99999 = (v - 1 + Suc i) mod 99999" by (simp add: mod_Suc_eq)
  finally show ?case .
qed

lemma near_mods:
  assumes "(a :: nat) mod n = b mod n" "a < b" shows "a + n \<le> b"
proof -
  have "n dvd b - a" using mod_eq_dvd_iff_nat [of a b n] assms by simp
  then have "n \<le> b - a" using assms(2) by (intro dvd_imp_le) simp_all
  then show ?thesis using assms(2) by simp
qed

section \<open>Properties\<close>

text \<open>C15. An APRS text message with a message number arrives as it was sent, on both transports: the KISS
bytes of the radio link decode to one UI frame, and the APRS-IS line parses, with the sender's callsign
and the same information field, and the parser reads off the addressee, the cleaned text and the number.\<close>

theorem aprs_message_delivered:
  assumes "call_ok st" "list_all call_ok ds" "length ds \<le> 8" "valid_call peer" "msgno_ok n" "ascii_text text"
  shows "let info = format_message peer text (Some n) in
    (\<exists>w. rf_wire (call_str st) (map call_str ds) info = Inr w
       \<and> rf_feed kiss_init w = (kiss_init, Inr [(call_str st, info)]))
    \<and> is_read (is_wire (call_str st) info) = Some (call_str st, info)
    \<and> parse_message info = \<lparr>p_kind = Some KMessage, p_addressee = normalize_call peer,
        p_text = sanitize_aprs text, p_msgno = Some n\<rparr>"
proof -
  let ?info = "format_message peer text (Some n)"
  have a: "ascii_text ?info" "last ?info = last n" "n \<noteq> []" using ascii_format_message [OF assms(4,5,6)] by simp_all
  then have "is_alnum (last ?info)" using assms(5) by (auto simp: msgno_ok_def list_all_iff)
  then have e: "last ?info \<noteq> CR \<and> last ?info \<noteq> LF"
    by (auto simp: is_alnum_def is_digit_def is_upper_def is_lower_def ord_def)
  from rf_delivers [OF assms(1-3) a(1)] is_delivers [OF assms(1) a(1) disjI2 [OF e]] parse_numbered [OF assms(4,5)]
  show ?thesis unfolding Let_def by blast
qed

theorem aprs_message_delivered_witness:
  "is_read (is_wire ''KP4PRA-7'' (format_message ''kp3av'' ''hola | 73'' (Some ''12'')))
     = Some (''KP4PRA-7'', '':KP3AV    :hola  73{12'')"
proof -
  have "format_message ''kp3av'' ''hola | 73'' (Some ''12'') = '':KP3AV    :hola  73{12''" by code_simp
  then show ?thesis
    using aprs_message_delivered [of "(''KP4PRA'', 7)" "[(''WIDE1'', 1)]" "''kp3av''" "''12''" "''hola | 73''"]
    by (simp add: Let_def py_eval char_class_defs msgno_ok_def ascii_text_def valid_call_def call_re_def
        normalize_call_def call_char_def strip_def lstrip_def rstrip_def)
qed

text \<open>Message numbers stay usable and fresh: a generator between 1 and 99999 hands out numbers of one to
five characters, and no number comes back within 99999 calls.\<close>

theorem message_numbers_fresh:
  assumes "1 \<le> v" "v \<le> 99999" "i < j" "j < i + 99999"
  shows "nth_msgno v i \<noteq> nth_msgno v j \<and> msgno_ok (nth_msgno v i)"
proof -
  let ?a = "(v - 1 + i) mod 99999 + 1" and ?b = "(v - 1 + j) mod 99999 + 1"
  have n: "nth_msgno v i = show_nat ?a" "nth_msgno v j = show_nat ?b"
    by (simp_all add: nth_msgno_def nth_msgno_value [OF assms(1,2)] next_msgno_def)
  have "?a \<noteq> ?b" using near_mods [of "v - 1 + i" 99999 "v - 1 + j"] assms(3,4) by auto
  then have "nth_msgno v i \<noteq> nth_msgno v j" unfolding n by (metis dec_nat_show_nat option.inject)
  moreover have "?a < 10 ^ Suc 4" by (simp add: less_Suc_eq_le)
  from length_show_nat_le [OF this] have "length (nth_msgno v i) \<le> 5" by (simp add: n)
  moreover have "list_all is_alnum (nth_msgno v i)" "nth_msgno v i \<noteq> []"
    using show_nat_digits [of ?a] by (auto simp: n list_all_iff is_alnum_def)
  ultimately show ?thesis by (simp add: msgno_ok_def Suc_le_eq)
qed

theorem message_numbers_fresh_witness: "nth_msgno 99998 0 \<noteq> nth_msgno 99998 2 \<and> nth_msgno 99998 2 = ''1''"
proof -
  have "nth_msgno 99998 2 = show_nat 1" by (simp add: nth_msgno_def next_msgno_def numeral_2_eq_2)
  moreover have "show_nat 1 = ''1''" by code_simp
  ultimately show ?thesis using message_numbers_fresh [of 99998 0 2] by simp
qed

end
