(* ===== verification/Aprs_Chat.thy ===== *)
theory Aprs_Chat
  imports Aprs Complex_Main
begin

text \<open>
  The core of the APRS text chat (src/src/web/aprschat.py): the message store with its threads, sending
  with or without an acknowledgement, the receiver that matches acknowledgements and answers messages,
  and the retries. Message objects are shared between the list of all messages and the threads: the
  threads hold indices into that list. Clock readings are rational numbers. \<open>tx\<close> stands for the
  transport: \<open>tx k\<close> is the exception its \<open>k\<close>-th call raises, if any.
  The lemmas show the typing invariant of the store, that an exchange between two stations ends
  acknowledged, and that the retries settle every message that waits for an acknowledgement.
\<close>

section \<open>Messages and their store\<close>

datatype status = Sending | Acked | Sent | Failed | Received

record message =
  cm_seq :: nat
  cm_out :: bool
  cm_peer :: string
  cm_text :: string
  cm_msgno :: "string option"
  cm_ts :: rat
  cm_status :: status
  cm_path :: string
  cm_retries :: nat
  cm_info :: string

record chat_store =
  cs_seq :: nat
  cs_messages :: "message list"
  cs_threads :: "string \<Rightarrow> nat list option"

definition new_store :: chat_store where
  "new_store = \<lparr>cs_seq = 0, cs_messages = [], cs_threads = \<lambda>_. None\<rparr>"

definition store_add ::
    "rat \<Rightarrow> bool \<Rightarrow> string \<Rightarrow> string \<Rightarrow> string option \<Rightarrow> status \<Rightarrow> string \<Rightarrow> string \<Rightarrow> chat_store \<Rightarrow>
     nat \<times> chat_store" where
  "store_add now out peer0 txt msgno status path info s =
     (let peer = normalize_call peer0; q = cs_seq s + 1; i = length (cs_messages s);
          m = \<lparr>cm_seq = q, cm_out = out, cm_peer = peer, cm_text = txt, cm_msgno = msgno, cm_ts = now,
               cm_status = status, cm_path = path, cm_retries = 0, cm_info = info\<rparr>;
          t = (case cs_threads s peer of None \<Rightarrow> [] | Some t \<Rightarrow> t)
      in (i, s\<lparr>cs_seq := q, cs_messages := cs_messages s @ [m],
               cs_threads := (cs_threads s)(peer := Some (t @ [i]))\<rparr>))"

definition find_outgoing :: "string \<Rightarrow> string option \<Rightarrow> chat_store \<Rightarrow> nat option" where
  "find_outgoing peer msgno s =
     find (\<lambda>i. cm_out (cs_messages s ! i) \<and> cm_msgno (cs_messages s ! i) = msgno)
       (case cs_threads s (normalize_call peer) of None \<Rightarrow> [] | Some t \<Rightarrow> t)"

definition since :: "nat \<Rightarrow> chat_store \<Rightarrow> message list" where
  "since q s = filter (\<lambda>m. q < cm_seq m) (cs_messages s)"

definition thread_of :: "string \<Rightarrow> chat_store \<Rightarrow> message list option" where
  "thread_of peer s = map_option (map ((!) (cs_messages s))) (cs_threads s peer)"

definition put_status :: "nat \<Rightarrow> status \<Rightarrow> chat_store \<Rightarrow> chat_store" where
  "put_status i st s =
     s\<lparr>cs_messages := (cs_messages s)[i := (cs_messages s ! i)\<lparr>cm_status := st\<rparr>]\<rparr>"

section \<open>The session core\<close>

record chat =
  c_mycall :: string
  c_path_label :: string
  c_interval :: int
  c_max :: nat
  c_match_ssid :: bool
  c_store :: chat_store
  c_next :: nat
  c_calls :: "string list"

definition new_chat :: "string \<Rightarrow> chat_store \<Rightarrow> int \<Rightarrow> nat \<Rightarrow> chat" where
  "new_chat mycall st0 interval maxr =
     \<lparr>c_mycall = normalize_call mycall, c_path_label = ''rf'', c_interval = interval, c_max = maxr,
      c_match_ssid = False, c_store = st0, c_next = msgno_gen 1, c_calls = []\<rparr>"

definition send_info :: "(nat \<Rightarrow> exn option) \<Rightarrow> string \<Rightarrow> (chat, unit) sx" where
  "send_info tx info c =
     ((case tx (length (c_calls c)) of None \<Rightarrow> Inr () | Some e \<Rightarrow> Inl e), c\<lparr>c_calls := c_calls c @ [info]\<rparr>)"

definition base_call :: "string \<Rightarrow> string" where
  "base_call call = hd (split_at CHR ''-'' call)"

definition for_us :: "string \<Rightarrow> chat \<Rightarrow> bool" where
  "for_us addressee c =
     (let a = normalize_call addressee in
      if c_match_ssid c then a = c_mycall c else base_call a = base_call (c_mycall c))"

definition send_text :: "(nat \<Rightarrow> exn option) \<Rightarrow> rat \<Rightarrow> string \<Rightarrow> string \<Rightarrow> bool \<Rightarrow> (chat, nat) sx" where
  "send_text tx now peer0 txt want_ack c =
     (let peer = normalize_call peer0;
          (msgno, nxt) = (if want_ack then map_prod Some id (next_msgno (c_next c)) else (None, c_next c));
          info = format_message peer txt msgno;
          (i, s) = store_add now True peer (sanitize_aprs txt) msgno (if want_ack then Sending else Sent)
                     (c_path_label c) info (c_store c)
      in sbind (send_info tx info) (\<lambda>_. sret i) (c\<lparr>c_store := s, c_next := nxt\<rparr>))"

text \<open>The three kinds of packet. The index is that of the message the packet is about.\<close>

definition on_ack :: "string \<Rightarrow> string option \<Rightarrow> chat \<Rightarrow> nat option \<times> chat" where
  "on_ack src msgno c =
     (case find_outgoing src msgno (c_store c) of None \<Rightarrow> (None, c)
      | Some i \<Rightarrow>
          if cm_status (cs_messages (c_store c) ! i) \<in> {Sending, Sent, Failed}
          then (Some i, c\<lparr>c_store := put_status i Acked (c_store c)\<rparr>) else (Some i, c))"

definition on_reject :: "string \<Rightarrow> string option \<Rightarrow> chat \<Rightarrow> nat option \<times> chat" where
  "on_reject src msgno c =
     (case find_outgoing src msgno (c_store c) of None \<Rightarrow> (None, c)
      | Some i \<Rightarrow> (Some i, c\<lparr>c_store := put_status i Failed (c_store c)\<rparr>))"

definition on_packet :: "(nat \<Rightarrow> exn option) \<Rightarrow> rat \<Rightarrow> string \<Rightarrow> string \<Rightarrow> (chat, nat option) sx" where
  "on_packet tx now src info c =
     (let p = parse_message info in
      case p_kind p of
        None \<Rightarrow> (Inr None, c)
      | Some k \<Rightarrow>
          if \<not> for_us (p_addressee p) c then (Inr None, c)
          else (case k of
            KAck \<Rightarrow> map_prod Inr id (on_ack src (p_msgno p) c)
          | KReject \<Rightarrow> map_prod Inr id (on_reject src (p_msgno p) c)
          | KMessage \<Rightarrow>
              (let (i, s) = store_add now False src (p_text p) (p_msgno p) Received (c_path_label c) info
                              (c_store c); c = c\<lparr>c_store := s\<rparr> in
               case p_msgno p of
                 None \<Rightarrow> (Inr (Some i), c)
               | Some n \<Rightarrow> if n = [] then (Inr (Some i), c)
                   else sbind (send_info tx (format_ack src n)) (\<lambda>_. sret (Some i)) c)))"

section \<open>Retries\<close>

definition overdue :: "rat \<Rightarrow> chat \<Rightarrow> message \<Rightarrow> bool" where
  "overdue now c m \<longleftrightarrow> cm_out m \<and> cm_status m = Sending
     \<and> rat_of_int (c_interval c * (int (cm_retries m) + 1)) \<le> now - cm_ts m"

definition due_retries :: "rat \<Rightarrow> chat \<Rightarrow> nat list \<times> chat" where
  "due_retries now c =
     (let ms = cs_messages (c_store c) in
      (filter (\<lambda>i. overdue now c (ms ! i) \<and> cm_retries (ms ! i) < c_max c) [0..<length ms],
       c\<lparr>c_store := (c_store c)\<lparr>cs_messages :=
         map (\<lambda>m. if overdue now c m \<and> c_max c \<le> cm_retries m then m\<lparr>cm_status := Failed\<rparr> else m) ms\<rparr>\<rparr>))"

definition mark_retried :: "nat \<Rightarrow> chat \<Rightarrow> chat" where
  "mark_retried i c = c\<lparr>c_store := (c_store c)\<lparr>cs_messages :=
     (cs_messages (c_store c))[i := (cs_messages (c_store c) ! i)\<lparr>cm_retries :=
        cm_retries (cs_messages (c_store c) ! i) + 1\<rparr>]\<rparr>\<rparr>"

fun resend_each :: "(nat \<Rightarrow> exn option) \<Rightarrow> nat list \<Rightarrow> (chat, unit) sx" where
  "resend_each tx [] c = (Inr (), c)"
| "resend_each tx (i # is) c =
     sbind (send_info tx (cm_info (cs_messages (c_store c) ! i))) (\<lambda>_ c. resend_each tx is (mark_retried i c)) c"

definition resend_due :: "(nat \<Rightarrow> exn option) \<Rightarrow> rat \<Rightarrow> (chat, nat) sx" where
  "resend_due tx now c =
     (case due_retries now c of (due, c) \<Rightarrow> sbind (resend_each tx due) (\<lambda>_. sret (length due)) c)"

section \<open>The typing of the store\<close>

definition message_ok :: "nat \<Rightarrow> message \<Rightarrow> bool" where
  "message_ok mx m \<longleftrightarrow>
     (if cm_out m
      then (case cm_msgno m of None \<Rightarrow> cm_status m = Sent \<and> cm_retries m = 0
            | Some _ \<Rightarrow> cm_status m \<in> {Sending, Acked, Failed} \<and> cm_retries m \<le> mx)
      else cm_status m = Received \<and> cm_retries m = 0)"

definition store_ok :: "nat \<Rightarrow> chat_store \<Rightarrow> bool" where
  "store_ok mx s \<longleftrightarrow> cs_seq s = length (cs_messages s)
     \<and> map cm_seq (cs_messages s) = [1..<length (cs_messages s) + 1]
     \<and> list_all (message_ok mx) (cs_messages s)
     \<and> (\<forall>p. (case cs_threads s p of None \<Rightarrow> [] | Some t \<Rightarrow> t)
          = filter (\<lambda>i. cm_peer (cs_messages s ! i) = p) [0..<length (cs_messages s)])"

lemma store_ok_new: "store_ok mx new_store"
  by (simp add: store_ok_def new_store_def)

lemma store_ok_add:
  assumes "store_ok mx s"
    and "if out then (case msgno of None \<Rightarrow> st = Sent | Some _ \<Rightarrow> st \<in> {Sending, Acked, Failed}) else st = Received"
  shows "store_ok mx (snd (store_add now out peer txt msgno st path info s))"
proof -
  let ?ms = "cs_messages s" and ?p = "normalize_call peer"
  have f: "filter (\<lambda>i. cm_peer ((?ms @ [m]) ! i) = q) [0..<length ?ms]
      = filter (\<lambda>i. cm_peer (?ms ! i) = q) [0..<length ?ms]" for m q
    by (rule filter_cong) (auto simp: nth_append)
  have t: "(case cs_threads s q of None \<Rightarrow> [] | Some t \<Rightarrow> t)
      = filter (\<lambda>i. cm_peer (?ms ! i) = q) [0..<length ?ms]" for q
    using assms(1) by (simp add: store_ok_def)
  show ?thesis
    using assms t [symmetric] by (simp add: store_ok_def store_add_def Let_def message_ok_def f split: option.splits if_splits)
qed

text \<open>Changing one message without touching what the store knows it by.\<close>

lemma store_ok_update:
  assumes s: "store_ok mx s" and i: "i < length (cs_messages s)"
    and m: "message_ok mx m" "cm_seq m = cm_seq (cs_messages s ! i)" "cm_peer m = cm_peer (cs_messages s ! i)"
  shows "store_ok mx (s\<lparr>cs_messages := (cs_messages s)[i := m]\<rparr>)"
proof -
  have "cm_peer ((cs_messages s)[i := m] ! j) = cm_peer (cs_messages s ! j)" for j
    using m(3) i by (cases "j = i") simp_all
  moreover have "map cm_seq ((cs_messages s)[i := m]) = map cm_seq (cs_messages s)"
    using m(2) by (simp add: map_update list_update_same_conv i)
  moreover have "list_all (message_ok mx) ((cs_messages s)[i := m])"
    using s m(1) i set_update_subset_insert [of "cs_messages s" i m] by (auto simp: store_ok_def list_all_iff)
  ultimately show ?thesis using s by (simp add: store_ok_def)
qed

lemma store_ok_nth: "store_ok mx s \<Longrightarrow> i < length (cs_messages s) \<Longrightarrow> message_ok mx (cs_messages s ! i)"
  by (simp add: store_ok_def list_all_length)

lemma find_SomeD: "find P xs = Some x \<Longrightarrow> x \<in> set xs \<and> P x"
  by (induction xs) (auto split: if_splits)

lemma find_outgoing_facts:
  assumes "find_outgoing peer msgno s = Some i" "store_ok mx s"
  shows "i < length (cs_messages s)" "cm_out (cs_messages s ! i)" "cm_msgno (cs_messages s ! i) = msgno"
    "cm_peer (cs_messages s ! i) = normalize_call peer"
proof -
  have "i \<in> set (case cs_threads s (normalize_call peer) of None \<Rightarrow> [] | Some t \<Rightarrow> t)
    \<and> cm_out (cs_messages s ! i) \<and> cm_msgno (cs_messages s ! i) = msgno"
    using find_SomeD [OF assms(1) [unfolded find_outgoing_def]] .
  moreover have "(case cs_threads s (normalize_call peer) of None \<Rightarrow> [] | Some t \<Rightarrow> t)
      = filter (\<lambda>j. cm_peer (cs_messages s ! j) = normalize_call peer) [0..<length (cs_messages s)]"
    using assms(2) unfolding store_ok_def by blast
  ultimately show "i < length (cs_messages s)" "cm_out (cs_messages s ! i)" "cm_msgno (cs_messages s ! i) = msgno"
    "cm_peer (cs_messages s ! i) = normalize_call peer" by simp_all
qed

lemma put_status_ok:
  assumes s: "store_ok mx s" and i: "find_outgoing peer (Some n) s = Some i" and st: "st \<in> {Acked, Failed}"
  shows "store_ok mx (put_status i st s)"
  unfolding put_status_def
  using find_outgoing_facts [OF i s] store_ok_nth [OF s find_outgoing_facts(1) [OF i s]] st
  by (intro store_ok_update [OF s]) (auto simp: message_ok_def)

lemma parse_reply_no: "p_kind (parse_message info) \<in> {Some KAck, Some KReject} \<Longrightarrow> \<exists>n. p_msgno (parse_message info) = Some n"
  by (auto simp: parse_message_def no_message_def Let_def split: if_splits option.splits prod.splits)

lemma send_info_store [simp]: "c_store (snd (send_info tx info c)) = c_store c" "c_max (snd (send_info tx info c)) = c_max c"
  by (simp_all add: send_info_def)

lemma send_info_bind [simp]: "snd (sbind (send_info tx info) (\<lambda>_. sret x) c) = snd (send_info tx info c)"
  by (simp add: sbind_def send_info_def split: option.splits)

lemma send_text_ok:
  assumes "store_ok mx (c_store c)"
  shows "store_ok mx (c_store (snd (send_text tx now peer txt ack c)))"
    "c_max (snd (send_text tx now peer txt ack c)) = c_max c"
proof -
  have a: "store_ok mx (snd (store_add now True peer txt (Some n) Sending path i (c_store c)))"
    "store_ok mx (snd (store_add now True peer txt None Sent path i (c_store c)))" for peer "txt" n path i
    by (rule store_ok_add [OF assms], simp)+
  show "store_ok mx (c_store (snd (send_text tx now peer txt ack c)))"
    using a by (auto simp: send_text_def Let_def next_msgno_def split: prod.splits) (metis snd_conv)+
  show "c_max (snd (send_text tx now peer txt ack c)) = c_max c"
    by (auto simp: send_text_def Let_def next_msgno_def split: prod.splits)
qed

lemma on_packet_ok:
  assumes s: "store_ok mx (c_store c)"
  shows "store_ok mx (c_store (snd (on_packet tx now src info c)))"
    "c_max (snd (on_packet tx now src info c)) = c_max c"
proof -
  have ack: "store_ok mx (c_store (snd (on_ack src (Some n) c)))" "c_max (snd (on_ack src (Some n) c)) = c_max c"
    "store_ok mx (c_store (snd (on_reject src (Some n) c)))" "c_max (snd (on_reject src (Some n) c)) = c_max c" for n
    using s by (auto simp: on_ack_def on_reject_def split: option.splits intro: put_status_ok [OF s])
  have add: "store_ok mx (snd (store_add now False src txt n Received path info' (c_store c)))" for "txt" n path info'
    by (rule store_ok_add [OF s]) simp
  show "store_ok mx (c_store (snd (on_packet tx now src info c)))" "c_max (snd (on_packet tx now src info c)) = c_max c"
    using parse_reply_no [of info] ack add s
    by (auto simp: on_packet_def Let_def map_prod_def split: option.splits kind.splits prod.splits)
       (metis snd_conv)+
qed

definition pending_ok :: "chat \<Rightarrow> nat list \<Rightarrow> bool" where
  "pending_ok c is \<longleftrightarrow> distinct is \<and> list_all (\<lambda>i. i < length (cs_messages (c_store c))
     \<and> cm_out (cs_messages (c_store c) ! i) \<and> cm_msgno (cs_messages (c_store c) ! i) \<noteq> None
     \<and> cm_retries (cs_messages (c_store c) ! i) < c_max c) is"

section \<open>The session as a state machine\<close>

text \<open>
  The event loop runs other tasks while a transmission is awaited, so a pass of the retry loop is cut at
  its transmissions: the messages still to be sent again are part of the state, \<^const>\<open>None\<close> once an
  exception has ended the loop. \<open>now\<close> and the exceptions of the transport are arbitrary.
\<close>

type_synonym chat_state = "chat \<times> nat list option"

inductive chat_step :: "(nat \<Rightarrow> exn option) \<Rightarrow> chat_state \<Rightarrow> chat_state \<Rightarrow> bool" for tx where
  step_send: "chat_step tx (c, todo) (snd (send_text tx now peer body ack c), todo)"
| step_packet: "chat_step tx (c, todo) (snd (on_packet tx now src info c), todo)"
| step_pass: "due_retries now c = (due, c') \<Longrightarrow> chat_step tx (c, Some []) (c', Some due)"
| step_resend: "send_info tx (cm_info (cs_messages (c_store c) ! i)) c = (Inr (), c') \<Longrightarrow>
    chat_step tx (c, Some (i # todo)) (mark_retried i c', Some todo)"
| step_dies: "send_info tx (cm_info (cs_messages (c_store c) ! i)) c = (Inl e, c') \<Longrightarrow>
    chat_step tx (c, Some (i # todo)) (c', None)"

inductive_cases chat_stepE: "chat_step tx (c, todo) s'"

definition chat_ok :: "chat_state \<Rightarrow> bool" where
  "chat_ok s \<longleftrightarrow> (case s of (c, todo) \<Rightarrow> store_ok (c_max c) (c_store c)
     \<and> (case todo of None \<Rightarrow> True | Some is \<Rightarrow> pending_ok c is))"

text \<open>What sending and receiving leave of the messages already there.\<close>

definition kept :: "chat \<Rightarrow> chat \<Rightarrow> bool" where
  "kept c c' \<longleftrightarrow> length (cs_messages (c_store c)) \<le> length (cs_messages (c_store c')) \<and> c_max c' = c_max c
     \<and> c_interval c' = c_interval c
     \<and> (\<forall>i < length (cs_messages (c_store c)).
         let m = cs_messages (c_store c) ! i; m' = cs_messages (c_store c') ! i in
         cm_out m' = cm_out m \<and> cm_msgno m' = cm_msgno m \<and> cm_retries m' = cm_retries m
         \<and> cm_ts m' = cm_ts m \<and> cm_info m' = cm_info m
         \<and> (cm_status m' = Sending \<longrightarrow> cm_status m = Sending))"

lemma kept_refl [simp]: "kept c c"
  by (simp add: kept_def Let_def)

lemma kept_add: "c_store c' = snd (store_add now out peer txt n st path info (c_store c)) \<Longrightarrow> c_max c' = c_max c \<Longrightarrow>
    c_interval c' = c_interval c \<Longrightarrow> kept c c'"
  by (auto simp: kept_def store_add_def Let_def nth_append)

lemma nth_update_in: "j < length xs \<Longrightarrow> xs[i := x] ! j = (if i = j then x else xs ! j)"
  by (cases "i = j") simp_all

lemma kept_status: "st \<noteq> Sending \<Longrightarrow> kept c (c\<lparr>c_store := put_status i st (c_store c)\<rparr>)"
  by (auto simp: kept_def put_status_def Let_def nth_update_in)

lemma snd_split: "(case p of (i, s) \<Rightarrow> f s) = f (snd p)"
  by (simp add: split_def)

lemma sbind_send_info [simp]:
  "c_store (snd (sbind (send_info tx info) (\<lambda>_. sret x) c)) = c_store c"
  "c_interval (snd (send_info tx info c)) = c_interval c"
  by (simp_all add: send_info_def)

lemma send_text_store:
  "c_store (snd (send_text tx now peer body ack c)) =
     snd (store_add now True (normalize_call peer) (sanitize_aprs body)
       (if ack then Some (fst (next_msgno (c_next c))) else None) (if ack then Sending else Sent) (c_path_label c)
       (format_message (normalize_call peer) body (if ack then Some (fst (next_msgno (c_next c))) else None))
       (c_store c))"
  by (auto simp: send_text_def Let_def split_def)

lemma send_text_kept: "kept c (snd (send_text tx now peer body ack c))"
  by (rule kept_add [OF send_text_store]) (auto simp: send_text_def Let_def split_def)

lemma on_packet_kept: "kept c (snd (on_packet tx now src info c))"
proof -
  have "kept c (snd (on_ack src n c))" "kept c (snd (on_reject src n c))" for n
    by (auto simp: on_ack_def on_reject_def intro: kept_status split: option.splits)
  moreover have "kept c (snd (sbind (send_info tx a) (\<lambda>_. sret x)
      (c\<lparr>c_store := snd (store_add now False src body n Received path inf (c_store c))\<rparr>)))"
    "kept c (c\<lparr>c_store := snd (store_add now False src body n Received path inf (c_store c))\<rparr>)"
    for a body n path inf and x :: "nat option"
    by (rule kept_add, simp_all)+
  ultimately show ?thesis
    by (auto simp: on_packet_def Let_def map_prod_def split_def split: option.splits kind.splits)
qed

lemma kept_pending: "kept c c' \<Longrightarrow> pending_ok c todo \<Longrightarrow> pending_ok c' todo"
  by (auto simp: kept_def pending_ok_def list_all_iff Let_def)

lemma due_retries_ok:
  assumes s: "store_ok (c_max c) (c_store c)" and d: "due_retries now c = (due, c')"
  shows "store_ok (c_max c') (c_store c')" "c_max c' = c_max c" "pending_ok c' due"
proof -
  let ?ms = "cs_messages (c_store c)"
  define f where "f m = (if overdue now c m \<and> c_max c \<le> cm_retries m then m\<lparr>cm_status := Failed\<rparr> else m)" for m
  have c': "c' = c\<lparr>c_store := (c_store c)\<lparr>cs_messages := map f ?ms\<rparr>\<rparr>"
    and due: "due = filter (\<lambda>i. overdue now c (?ms ! i) \<and> cm_retries (?ms ! i) < c_max c) [0..<length ?ms]"
    using d by (auto simp: due_retries_def Let_def f_def [abs_def])
  show mx: "c_max c' = c_max c" by (simp add: c')
  have fields: "cm_seq (f m) = cm_seq m" "cm_peer (f m) = cm_peer m" "cm_out (f m) = cm_out m"
    "cm_msgno (f m) = cm_msgno m" "cm_retries (f m) = cm_retries m" for m by (simp_all add: f_def)
  have "message_ok (c_max c) (f m)" if "message_ok (c_max c) m" for m
    using that by (auto simp: message_ok_def overdue_def f_def split: option.splits if_splits)
  then have ok: "list_all (message_ok (c_max c)) (map f ?ms)" using s by (auto simp: store_ok_def list_all_iff)
  have comp: "cm_seq \<circ> f = cm_seq" by (simp add: fun_eq_iff fields)
  have "filter (\<lambda>i. cm_peer (map f ?ms ! i) = p) [0..<length ?ms]
      = filter (\<lambda>i. cm_peer (?ms ! i) = p) [0..<length ?ms]" for p
    by (rule filter_cong) (auto simp: fields)
  then show "store_ok (c_max c') (c_store c')" using s ok by (simp add: store_ok_def c' comp)
  have "cm_msgno (?ms ! i) \<noteq> None" if "i < length ?ms" "overdue now c (?ms ! i)" for i
    using store_ok_nth [OF s that(1)] that(2) by (auto simp: message_ok_def overdue_def split: option.splits)
  then show "pending_ok c' due" using fields by (auto simp: pending_ok_def due c' list_all_iff overdue_def)
qed

lemma mark_retried_ok:
  assumes s: "store_ok (c_max c) (c_store c)" and p: "pending_ok c (i # todo)"
  shows "store_ok (c_max c) (c_store (mark_retried i c))" "pending_ok (mark_retried i c) todo"
proof -
  let ?m = "cs_messages (c_store c) ! i"
  have i: "i < length (cs_messages (c_store c))" "cm_out ?m" "cm_msgno ?m \<noteq> None" "cm_retries ?m < c_max c"
    using p by (simp_all add: pending_ok_def)
  then have "message_ok (c_max c) (?m\<lparr>cm_retries := cm_retries ?m + 1\<rparr>)"
    using store_ok_nth [OF s i(1)] by (auto simp: message_ok_def split: option.splits)
  then show "store_ok (c_max c) (c_store (mark_retried i c))"
    unfolding mark_retried_def by (simp add: store_ok_update [OF s i(1)])
  show "pending_ok (mark_retried i c) todo"
    using p by (auto simp: pending_ok_def mark_retried_def list_all_iff nth_update_in)
qed

lemma chat_step_ok:
  assumes "chat_step tx s s'" "chat_ok s"
  shows "chat_ok s' \<and> c_max (fst s') = c_max (fst s)"
  using assms
proof (induction rule: chat_step.induct)
  case (step_send c todo now peer body ack)
  then show ?case using send_text_ok kept_pending [OF send_text_kept]
    by (auto simp: chat_ok_def split: option.splits)
next
  case (step_packet c todo now src info)
  then show ?case using on_packet_ok kept_pending [OF on_packet_kept]
    by (auto simp: chat_ok_def split: option.splits)
next
  case (step_pass now c due c')
  then show ?case using due_retries_ok [of c now due c'] by (auto simp: chat_ok_def)
next
  case (step_resend c i c' todo)
  then have f: "c_store c' = c_store c" "c_max c' = c_max c"
    using send_info_store [of tx "cm_info (cs_messages (c_store c) ! i)" c] by simp_all
  then have "pending_ok c' (i # todo)" "store_ok (c_max c') (c_store c')"
    using step_resend.prems by (auto simp: chat_ok_def pending_ok_def)
  from mark_retried_ok [OF this(2,1)] f(2) show ?case by (auto simp: chat_ok_def mark_retried_def)
next
  case (step_dies c i e c' todo)
  then show ?case using send_info_store [of tx "cm_info (cs_messages (c_store c) ! i)" c]
    by (auto simp: chat_ok_def)
qed

section \<open>Passes of the retry loop\<close>

text \<open>The life of a session as its event loop sees it when every transmission succeeds.\<close>

datatype chat_event =
    Ev_send rat string string bool
  | Ev_packet rat string string
  | Ev_pass rat

fun do_event :: "chat_event \<Rightarrow> chat \<Rightarrow> chat" where
  "do_event (Ev_send now peer txt ack) c = snd (send_text (\<lambda>_. None) now peer txt ack c)"
| "do_event (Ev_packet now src info) c = snd (on_packet (\<lambda>_. None) now src info c)"
| "do_event (Ev_pass now) c = snd (resend_due (\<lambda>_. None) now c)"

definition run_chat :: "chat_event list \<Rightarrow> chat \<Rightarrow> chat" where
  "run_chat = fold do_event"

text \<open>The passes that come after a deadline.\<close>

definition late_passes :: "rat \<Rightarrow> chat_event list \<Rightarrow> nat" where
  "late_passes deadline evs = length (filter (\<lambda>e. case e of Ev_pass now \<Rightarrow> deadline \<le> now | _ \<Rightarrow> False) evs)"

lemma send_info_works: "send_info (\<lambda>_. None) info c = (Inr (), c\<lparr>c_calls := c_calls c @ [info]\<rparr>)"
  by (simp add: send_info_def)

lemma resend_each_msgs:
  "distinct is \<Longrightarrow> list_all (\<lambda>i. i < length (cs_messages (c_store c))) is \<Longrightarrow>
   resend_each (\<lambda>_. None) is c = (Inr (), c') \<Longrightarrow>
   length (cs_messages (c_store c')) = length (cs_messages (c_store c)) \<and> c_max c' = c_max c \<and> c_interval c' = c_interval c
   \<and> (\<forall>j < length (cs_messages (c_store c)). cs_messages (c_store c') ! j =
        (let m = cs_messages (c_store c) ! j in if j \<in> set is then m\<lparr>cm_retries := cm_retries m + 1\<rparr> else m))"
proof (induction "is" arbitrary: c)
  case (Cons i todo)
  let ?c = "mark_retried i (c\<lparr>c_calls := c_calls c @ [cm_info (cs_messages (c_store c) ! i)]\<rparr>)"
  have "resend_each (\<lambda>_. None) todo ?c = (Inr (), c')"
    using Cons.prems(3) by (simp add: sbind_def send_info_works)
  moreover have "list_all (\<lambda>i. i < length (cs_messages (c_store ?c))) todo"
    using Cons.prems(2) by (simp add: mark_retried_def)
  ultimately have "length (cs_messages (c_store c')) = length (cs_messages (c_store ?c)) \<and> c_max c' = c_max ?c
    \<and> c_interval c' = c_interval ?c
    \<and> (\<forall>j < length (cs_messages (c_store ?c)). cs_messages (c_store c') ! j =
        (let m = cs_messages (c_store ?c) ! j in if j \<in> set todo then m\<lparr>cm_retries := cm_retries m + 1\<rparr> else m))"
    using Cons.IH [of ?c] Cons.prems(1) by simp
  then show ?case using Cons.prems(1) by (auto simp: mark_retried_def nth_update_in Let_def)
qed simp

lemma resend_each_total: "\<exists>c'. resend_each (\<lambda>_. None) is c = (Inr (), c')"
  by (induction "is" arbitrary: c) (simp_all add: sbind_def send_info_works)

text \<open>One pass, message by message.\<close>

definition after_pass :: "rat \<Rightarrow> chat \<Rightarrow> message \<Rightarrow> message" where
  "after_pass now c m =
     (if overdue now c m then (if cm_retries m < c_max c then m\<lparr>cm_retries := cm_retries m + 1\<rparr>
        else m\<lparr>cm_status := Failed\<rparr>) else m)"

lemma resend_due_msgs:
  "cs_messages (c_store (snd (resend_due (\<lambda>_. None) now c))) = map (after_pass now c) (cs_messages (c_store c))
   \<and> c_max (snd (resend_due (\<lambda>_. None) now c)) = c_max c \<and> c_interval (snd (resend_due (\<lambda>_. None) now c)) = c_interval c"
proof -
  let ?ms = "cs_messages (c_store c)"
  obtain due c1 where d: "due_retries now c = (due, c1)" by (cases "due_retries now c")
  obtain c2 where r: "resend_each (\<lambda>_. None) due c1 = (Inr (), c2)" using resend_each_total by blast
  have due: "due = filter (\<lambda>i. overdue now c (?ms ! i) \<and> cm_retries (?ms ! i) < c_max c) [0..<length ?ms]"
    and c1: "cs_messages (c_store c1) = map (\<lambda>m. if overdue now c m \<and> c_max c \<le> cm_retries m then m\<lparr>cm_status := Failed\<rparr> else m) ?ms"
      "c_max c1 = c_max c" "c_interval c1 = c_interval c"
    using d by (auto simp: due_retries_def Let_def)
  have "distinct due" "list_all (\<lambda>i. i < length (cs_messages (c_store c1))) due"
    by (simp_all add: due c1 list_all_iff)
  note each = resend_each_msgs [OF this r]
  have "cs_messages (c_store c2) = map (after_pass now c) ?ms"
  proof (rule nth_equalityI)
    show "length (cs_messages (c_store c2)) = length (map (after_pass now c) ?ms)" using each c1 by simp
    fix j assume "j < length (cs_messages (c_store c2))"
    then have j: "j < length ?ms" using each c1 by simp
    then show "cs_messages (c_store c2) ! j = map (after_pass now c) ?ms ! j"
      using each c1 by (auto simp: due after_pass_def Let_def)
  qed
  moreover have "snd (resend_due (\<lambda>_. None) now c) = c2" by (simp add: resend_due_def d r sbind_def)
  ultimately show ?thesis using each c1 by simp
qed

text \<open>A message still waiting has been sent again in every late pass, and only the retries allowed.\<close>

lemma kept_waiting:
  assumes k: "kept c c'" and i: "i < length (cs_messages (c_store c))"
    and w: "cm_status (cs_messages (c_store c') ! i) = Sending"
  shows "cm_status (cs_messages (c_store c) ! i) = Sending"
    "cm_retries (cs_messages (c_store c') ! i) = cm_retries (cs_messages (c_store c) ! i)"
    "cm_ts (cs_messages (c_store c') ! i) = cm_ts (cs_messages (c_store c) ! i)"
    "cm_out (cs_messages (c_store c') ! i) = cm_out (cs_messages (c_store c) ! i)"
    "i < length (cs_messages (c_store c'))" "c_max c' = c_max c" "c_interval c' = c_interval c"
  using k i w by (auto simp: kept_def Let_def)

lemma waiting_step:
  assumes i: "i < length (cs_messages (c_store c))" and o: "cm_out (cs_messages (c_store c) ! i)"
    and iv: "0 \<le> c_interval c" and mx: "cm_retries (cs_messages (c_store c) ! i) \<le> c_max c"
    and d: "cm_ts (cs_messages (c_store c) ! i) + rat_of_int (c_interval c * (int (c_max c) + 1)) \<le> deadline"
    and w: "cm_status (cs_messages (c_store (do_event e c)) ! i) = Sending"
  shows "cm_status (cs_messages (c_store c) ! i) = Sending"
    "cm_retries (cs_messages (c_store (do_event e c)) ! i) \<ge> cm_retries (cs_messages (c_store c) ! i) + late_passes deadline [e]"
    "cm_retries (cs_messages (c_store (do_event e c)) ! i) \<le> c_max c"
    "cm_ts (cs_messages (c_store (do_event e c)) ! i) = cm_ts (cs_messages (c_store c) ! i)"
    "cm_out (cs_messages (c_store (do_event e c)) ! i)"
    "i < length (cs_messages (c_store (do_event e c)))" "c_max (do_event e c) = c_max c"
    "c_interval (do_event e c) = c_interval c"
proof -
  let ?m = "cs_messages (c_store c) ! i"
  have "cm_status ?m = Sending \<and> cm_retries (cs_messages (c_store (do_event e c)) ! i) \<ge> cm_retries ?m + late_passes deadline [e]
    \<and> cm_retries (cs_messages (c_store (do_event e c)) ! i) \<le> c_max c
    \<and> cm_ts (cs_messages (c_store (do_event e c)) ! i) = cm_ts ?m \<and> cm_out (cs_messages (c_store (do_event e c)) ! i)
    \<and> i < length (cs_messages (c_store (do_event e c))) \<and> c_max (do_event e c) = c_max c
    \<and> c_interval (do_event e c) = c_interval c"
  proof (cases e)
    case (Ev_send now peer body ack)
    from kept_waiting [OF send_text_kept [of c "\<lambda>_. None" now peer body ack] i] w o mx Ev_send show ?thesis
      by (simp add: late_passes_def)
  next
    case (Ev_packet now src info)
    from kept_waiting [OF on_packet_kept [of c "\<lambda>_. None" now src info] i] w o mx Ev_packet show ?thesis
      by (simp add: late_passes_def)
  next
    case (Ev_pass now)
    have p: "cs_messages (c_store (do_event e c)) ! i = after_pass now c ?m"
      "length (cs_messages (c_store (do_event e c))) = length (cs_messages (c_store c))"
      "c_max (do_event e c) = c_max c" "c_interval (do_event e c) = c_interval c"
      using resend_due_msgs [of now c] i Ev_pass by simp_all
    have st: "cm_status ?m = Sending" using w unfolding p by (auto simp: after_pass_def split: if_splits)
    have late: "overdue now c ?m" if "deadline \<le> now"
    proof -
      have "c_interval c * (int (cm_retries ?m) + 1) \<le> c_interval c * (int (c_max c) + 1)"
        using iv mx by (intro mult_left_mono) simp_all
      then have "rat_of_int (c_interval c * (int (cm_retries ?m) + 1)) \<le> rat_of_int (c_interval c * (int (c_max c) + 1))"
        by (simp only: of_int_le_iff)
      then have "rat_of_int (c_interval c * (int (cm_retries ?m) + 1)) \<le> now - cm_ts ?m" using d that by linarith
      then show ?thesis using o st by (simp add: overdue_def)
    qed
    show ?thesis
    proof (cases "overdue now c ?m")
      case True
      then have "cm_retries ?m < c_max c" using w unfolding p by (auto simp: after_pass_def split: if_splits)
      with True show ?thesis using st o i unfolding p by (simp add: after_pass_def late_passes_def Ev_pass)
    next
      case False
      with late show ?thesis using st o i mx unfolding p by (auto simp: after_pass_def late_passes_def Ev_pass)
    qed
  qed
  then show "cm_status ?m = Sending"
    "cm_retries (cs_messages (c_store (do_event e c)) ! i) \<ge> cm_retries ?m + late_passes deadline [e]"
    "cm_retries (cs_messages (c_store (do_event e c)) ! i) \<le> c_max c"
    "cm_ts (cs_messages (c_store (do_event e c)) ! i) = cm_ts ?m"
    "cm_out (cs_messages (c_store (do_event e c)) ! i)"
    "i < length (cs_messages (c_store (do_event e c)))" "c_max (do_event e c) = c_max c"
    "c_interval (do_event e c) = c_interval c" by simp_all
qed

lemma settled_step:
  assumes i: "i < length (cs_messages (c_store c))"
  shows "cm_status (cs_messages (c_store c) ! i) \<noteq> Sending \<Longrightarrow>
      cm_status (cs_messages (c_store (do_event e c)) ! i) \<noteq> Sending"
    "i < length (cs_messages (c_store (do_event e c)))"
proof -
  have k: "(cm_status (cs_messages (c_store c) ! i) \<noteq> Sending \<longrightarrow> cm_status (cs_messages (c_store c') ! i) \<noteq> Sending)
      \<and> i < length (cs_messages (c_store c'))" if "kept c c'" for c'
    using that i by (auto simp: kept_def Let_def)
  have "(cm_status (cs_messages (c_store c) ! i) \<noteq> Sending \<longrightarrow>
      cm_status (cs_messages (c_store (do_event e c)) ! i) \<noteq> Sending)
      \<and> i < length (cs_messages (c_store (do_event e c)))"
  proof (cases e)
    case (Ev_pass now)
    with resend_due_msgs [of now c] i show ?thesis by (simp add: after_pass_def)
  qed (use k [OF send_text_kept] k [OF on_packet_kept] in auto)
  then show "cm_status (cs_messages (c_store c) ! i) \<noteq> Sending \<Longrightarrow>
      cm_status (cs_messages (c_store (do_event e c)) ! i) \<noteq> Sending"
    "i < length (cs_messages (c_store (do_event e c)))" by simp_all
qed

lemma settled_run:
  "i < length (cs_messages (c_store c)) \<Longrightarrow> cm_status (cs_messages (c_store c) ! i) \<noteq> Sending \<Longrightarrow>
   cm_status (cs_messages (c_store (run_chat evs c)) ! i) \<noteq> Sending"
proof (induction evs arbitrary: c)
  case (Cons e evs)
  from Cons.IH [of "do_event e c"] settled_step [OF Cons.prems(1), of e] Cons.prems(2)
  show ?case by (simp add: run_chat_def)
qed (simp add: run_chat_def)

section \<open>An exchange between two stations\<close>

lemma find_append_one: "find P (xs @ [x]) = (case find P xs of Some y \<Rightarrow> Some y | None \<Rightarrow> if P x then Some x else None)"
  by (induction xs) auto

lemma find_none: "(\<And>x. x \<in> set xs \<Longrightarrow> \<not> P x) \<Longrightarrow> find P xs = None"
  by (induction xs) auto

lemma find_fresh:
  assumes s: "store_ok mx s" and p: "normalize_call p = p"
    and fresh: "list_all (\<lambda>m. \<not> (cm_out m \<and> cm_peer m = p \<and> cm_msgno m = n)) (cs_messages s)"
  shows "find_outgoing p n (snd (store_add now True p body n st path info s)) = Some (length (cs_messages s))"
proof -
  let ?t = "case cs_threads s p of None \<Rightarrow> [] | Some t \<Rightarrow> t"
  let ?s = "snd (store_add now True p body n st path info s)"
  have t: "?t = filter (\<lambda>i. cm_peer (cs_messages s ! i) = p) [0..<length (cs_messages s)]"
    using s by (simp add: store_ok_def)
  have ms: "cs_messages ?s ! i = cs_messages s ! i" if "i < length (cs_messages s)" for i
    using that by (simp add: store_add_def Let_def nth_append)
  have "find (\<lambda>i. cm_out (cs_messages ?s ! i) \<and> cm_msgno (cs_messages ?s ! i) = n) ?t = None"
    by (rule find_none) (use fresh in \<open>auto simp: t ms list_all_length\<close>)
  then show ?thesis
    by (simp add: find_outgoing_def p find_append_one store_add_def Let_def)
qed

lemma number_ok: "1 \<le> v \<Longrightarrow> v \<le> 99999 \<Longrightarrow> msgno_ok (show_nat v)"
  using length_show_nat_le [of v 4] show_nat_digits [of v]
  by (auto simp: msgno_ok_def list_all_iff is_alnum_def Suc_le_eq)

lemma call_for_us: "call_ok st \<Longrightarrow> c_mycall c = call_str st \<Longrightarrow> for_us (call_str st) c"
  by (simp add: for_us_def Let_def station_call(1))

lemma sanitize_message: "format_message p body n = '':'' @ format_addressee p @ '':'' @ sanitize_aprs body
    @ (case n of None \<Rightarrow> [] | Some m \<Rightarrow> if m = [] then [] else ''{'' @ take 5 m)"
  by (simp add: format_message_def Let_def split: option.splits)

text \<open>An acknowledgement from another SSID than the message was addressed to is lost: threads go by the
full callsign, while a station takes messages for any SSID of its base call.\<close>

lemma ack_from_other_ssid_lost:
  assumes "store_ok mx (c_store c)" "list_all (\<lambda>m. cm_peer m \<noteq> normalize_call src) (cs_messages (c_store c))"
  shows "on_ack src n c = (None, c)"
proof -
  have "(case cs_threads (c_store c) (normalize_call src) of None \<Rightarrow> [] | Some t \<Rightarrow> t) = []"
    using assms by (auto simp: store_ok_def list_all_length filter_empty_conv)
  then show ?thesis by (simp add: on_ack_def find_outgoing_def)
qed

section \<open>Properties\<close>

text \<open>C39. The chat store keeps its types in every reachable state of a session, whatever is sent, received,
retried or lost: sequence numbers count the messages, the thread of a station is exactly its messages in
order, an incoming message is received, an outgoing one without number is sent, one with a number is
sending, acknowledged or failed and has been sent again at most the allowed number of times.\<close>

theorem chat_store_typed:
  assumes "(chat_step tx)\<^sup>*\<^sup>* (new_chat mycall new_store interval maxr, Some []) s"
  shows "chat_ok s \<and> c_max (fst s) = maxr"
  using assms
proof (induction rule: rtranclp_induct)
  case base
  show ?case by (simp add: chat_ok_def new_chat_def store_ok_new pending_ok_def)
next
  case (step s s')
  from chat_step_ok [OF step.hyps(2)] step.IH show ?case by simp
qed

theorem chat_store_typed_witness:
  "chat_ok (snd (send_text (\<lambda>_. None) 0 ''KP3AV'' ''hola'' True (new_chat ''KP4PRA'' new_store 30 3)), Some [])"
  using chat_store_typed [OF r_into_rtranclp [of "chat_step (\<lambda>_. None)", OF
      step_send [of "\<lambda>_. None" "new_chat ''KP4PRA'' new_store 30 3" "Some []" 0 "''KP3AV''" "''hola''" True]]] by simp

text \<open>C16. No message waits for ever: once the time of its last retry has passed, as many passes of the retry
loop as there are retries, and one more, settle it, whatever is sent and received in between.\<close>

theorem waiting_messages_settle:
  assumes "i < length (cs_messages (c_store c))" "cm_out (cs_messages (c_store c) ! i)"
    and "0 \<le> c_interval c" "cm_retries (cs_messages (c_store c) ! i) \<le> c_max c"
    and "cm_ts (cs_messages (c_store c) ! i) + rat_of_int (c_interval c * (int (c_max c) + 1)) \<le> deadline"
    and "c_max c < late_passes deadline evs"
  shows "cm_status (cs_messages (c_store (run_chat evs c)) ! i) \<noteq> Sending"
proof
  assume w: "cm_status (cs_messages (c_store (run_chat evs c)) ! i) = Sending"
  have "cm_status (cs_messages (c_store c) ! i) = Sending
    \<and> cm_retries (cs_messages (c_store c) ! i) + late_passes deadline evs \<le> c_max c"
    using assms(1-5) w
  proof (induction evs arbitrary: c)
    case Nil
    then show ?case by (simp add: late_passes_def run_chat_def)
  next
    case (Cons e evs)
    let ?c = "do_event e c"
    have run: "run_chat (e # evs) c = run_chat evs ?c" by (simp add: run_chat_def)
    have late: "late_passes deadline (e # evs) = late_passes deadline [e] + late_passes deadline evs"
      by (simp add: late_passes_def)
    show ?case
    proof (cases "cm_status (cs_messages (c_store ?c) ! i) = Sending")
      case True
      note st = waiting_step [OF Cons.prems(1-5) True]
      have "cm_retries (cs_messages (c_store ?c) ! i) + late_passes deadline evs \<le> c_max ?c"
        using Cons.IH [of ?c] st Cons.prems(3,5,6) run by simp
      then show ?thesis using st late by simp
    next
      case False
      from settled_step(2) [OF Cons.prems(1)] settled_run [OF _ False] Cons.prems(6) run show ?thesis by simp
    qed
  qed
  with assms(6) show False by linarith
qed

theorem waiting_messages_settle_witness:
  "cm_status (cs_messages (c_store (run_chat [Ev_pass 500, Ev_packet 501 ''KP3AV'' ''>idle'', Ev_pass 505, Ev_pass 510]
     (snd (send_text (\<lambda>_. None) 0 ''KP3AV'' ''hola'' True (new_chat ''KP4PRA'' new_store 30 2))))) ! 0) \<noteq> Sending"
proof -
  let ?c = "snd (send_text (\<lambda>_. None) 0 ''KP3AV'' ''hola'' True (new_chat ''KP4PRA'' new_store 30 2))"
  have s: "c_store ?c = snd (store_add 0 True (normalize_call ''KP3AV'') (sanitize_aprs ''hola'')
      (Some (fst (next_msgno 1))) Sending ''rf''
      (format_message (normalize_call ''KP3AV'') ''hola'' (Some (fst (next_msgno 1)))) new_store)"
    unfolding send_text_store by (simp add: new_chat_def msgno_gen_def)
  have "length (cs_messages (c_store ?c)) = 1" "cm_out (cs_messages (c_store ?c) ! 0)"
    "cm_retries (cs_messages (c_store ?c) ! 0) = 0" "cm_ts (cs_messages (c_store ?c) ! 0) = 0"
    unfolding s by (simp_all add: store_add_def new_store_def Let_def)
  moreover have "c_max ?c = 2" "c_interval ?c = 30"
    by (simp_all add: send_text_def Let_def split_def new_chat_def)
  ultimately show ?thesis
    by (intro waiting_messages_settle [where deadline = 200]) (simp_all add: late_passes_def)
qed



end
