(* ===== verification/Aprs_Session.thy ===== *)
theory Aprs_Session
  imports Aprs_Chat Rf_Send
begin

text \<open>
  The life of an APRS chat session (src/src/web/aprssession.py): it takes the radio from the RMS service,
  opens the transports, runs the receive, retry and beacon tasks, and gives everything back. \<open>start\<close> is cut
  where it first awaits: \<open>begin_start\<close> up to the stop of the service, \<open>finish_start\<close> from the opening of
  the transports. The service is a truth value, whether it runs; what systemctl and the sockets answer is
  the environment. Of the position beacon only its task is modelled.
\<close>

section \<open>State\<close>

record aprs_cfg =
  ac_enabled :: bool
  ac_mycall :: string
  ac_station :: string
  ac_interval :: int
  ac_max_retries :: nat
  ac_is :: bool
  ac_beacon :: bool

record session =
  as_store :: chat_store
  as_chat :: "chat option"
  as_rf :: bool
  as_is :: bool
  as_rx_tasks :: nat
  as_retry_task :: bool
  as_beacon_task :: bool
  as_rms_was_running :: bool
  as_active :: bool
  as_started :: "rat option"
  as_sockets :: nat

definition new_session :: session where
  "new_session = \<lparr>as_store = new_store, as_chat = None, as_rf = False, as_is = False, as_rx_tasks = 0,
     as_retry_task = False, as_beacon_task = False, as_rms_was_running = False, as_active = False,
     as_started = None, as_sockets = 0\<rparr>"

text \<open>The store is one object, that of the session and of its chat.\<close>

definition session_store :: "session \<Rightarrow> chat_store" where
  "session_store s = (case as_chat s of Some c \<Rightarrow> c_store c | None \<Rightarrow> as_store s)"

definition session_call :: "aprs_cfg \<Rightarrow> string" where
  "session_call cfg = normalize_call (if ac_mycall cfg = [] then ac_station cfg else ac_mycall cfg)"

section \<open>Starting\<close>

text \<open>Where the opening of the session raises, if it does.\<close>

datatype start_point = At_rf | At_chat | At_is | At_beacon

record start_env =
  sv_busy :: bool
  sv_stop_ok :: bool
  sv_linger :: nat
  sv_fails :: "(start_point \<times> exn) option"
  sv_restart_ok :: bool
  sv_now :: rat

datatype start_reply =
    Already
  | Refused_start string
  | Started string
  | Start_failed string

definition begin_start ::
    "aprs_cfg \<Rightarrow> start_env \<Rightarrow> session \<Rightarrow> bool \<Rightarrow> start_reply option \<times> session \<times> bool" where
  "begin_start cfg e s running =
     (if as_active s then (Some Already, s, running)
      else if \<not> ac_enabled cfg then (Some (Refused_start ''APRS chat is disabled in config''), s, running)
      else if session_call cfg = [] then (Some (Refused_start ''station callsign not configured''), s, running)
      else if sv_busy e then (Some (Refused_start ''RMS gateway is mid-relay; try again shortly''), s, running)
      else let s1 = s\<lparr>as_rms_was_running := running\<rparr> in
        if \<not> running then (None, s1, running)
        else if \<not> sv_stop_ok e then (Some (Refused_start ''could not stop RMS listener''), s1, running)
        else (None, s1, 20 \<le> sv_linger e))"

definition teardown :: "session \<Rightarrow> session" where
  "teardown s =
     s\<lparr>as_store := session_store s, as_chat := None, as_rf := False, as_is := False, as_rx_tasks := 0,
       as_retry_task := False, as_beacon_task := False,
       as_sockets := as_sockets s - (if as_rf s then 1 else 0) - (if as_is s then 1 else 0)\<rparr>"

text \<open>What the session holds when the opening has got to each point.\<close>

definition open_rf :: "session \<Rightarrow> session" where
  "open_rf s = s\<lparr>as_rf := True, as_sockets := as_sockets s + 1\<rparr>"

definition open_chat :: "aprs_cfg \<Rightarrow> session \<Rightarrow> session" where
  "open_chat cfg s =
     s\<lparr>as_chat := Some (new_chat (session_call cfg) (session_store s) (ac_interval cfg) (ac_max_retries cfg)),
       as_rx_tasks := as_rx_tasks s + 1\<rparr>"

definition open_is :: "aprs_cfg \<Rightarrow> session \<Rightarrow> session" where
  "open_is cfg s =
     (if ac_is cfg then s\<lparr>as_is := True, as_sockets := as_sockets s + 1, as_rx_tasks := as_rx_tasks s + 1\<rparr> else s)"

definition open_tasks :: "aprs_cfg \<Rightarrow> rat \<Rightarrow> session \<Rightarrow> session" where
  "open_tasks cfg now s =
     s\<lparr>as_retry_task := True, as_beacon_task := ac_beacon cfg, as_active := True, as_started := Some now\<rparr>"

text \<open>A transport that fails to connect holds no socket, but the session has a reference to it already.\<close>

definition opened_until :: "aprs_cfg \<Rightarrow> start_point \<Rightarrow> session \<Rightarrow> session" where
  "opened_until cfg p s =
     (case p of
        At_rf \<Rightarrow> s
      | At_chat \<Rightarrow> open_rf s
      | At_is \<Rightarrow> open_chat cfg (open_rf s)
      | At_beacon \<Rightarrow> (open_is cfg (open_chat cfg (open_rf s)))\<lparr>as_retry_task := True\<rparr>)"

definition finish_start ::
    "aprs_cfg \<Rightarrow> start_env \<Rightarrow> session \<Rightarrow> bool \<Rightarrow> start_reply \<times> session \<times> bool" where
  "finish_start cfg e s running =
     (case sv_fails e of
        None \<Rightarrow> (Started (session_call cfg),
                 open_tasks cfg (sv_now e) (open_is cfg (open_chat cfg (open_rf s))), running)
      | Some (p, x) \<Rightarrow>
          (Start_failed (exn_text x), teardown (opened_until cfg p s),
           running \<or> (as_rms_was_running s \<and> sv_restart_ok e)))"

definition start :: "aprs_cfg \<Rightarrow> start_env \<Rightarrow> session \<Rightarrow> bool \<Rightarrow> start_reply \<times> session \<times> bool" where
  "start cfg e s running =
     (case begin_start cfg e s running of
        (Some r, s1, run1) \<Rightarrow> (r, s1, run1)
      | (None, s1, run1) \<Rightarrow> finish_start cfg e s1 run1)"

section \<open>Stopping and use\<close>

datatype stop_reply = Not_active | Stopped bool

definition stop :: "bool \<Rightarrow> session \<Rightarrow> bool \<Rightarrow> stop_reply \<times> session \<times> bool" where
  "stop restart_ok s running =
     (if \<not> as_active s then (Not_active, s, running)
      else let s1 = teardown (s\<lparr>as_active := False\<rparr>) in
        if as_rms_was_running s1 then (Stopped restart_ok, s1, running \<or> restart_ok)
        else (Stopped False, s1, running))"

definition session_send ::
    "(nat \<Rightarrow> exn option) \<Rightarrow> rat \<Rightarrow> string \<Rightarrow> string \<Rightarrow> bool \<Rightarrow> session \<Rightarrow> (string + message result) \<times> session" where
  "session_send tx now peer0 body want_ack s =
     (case (if as_active s then as_chat s else None) of
        None \<Rightarrow> (Inl ''APRS chat is not running'', s)
      | Some c \<Rightarrow>
          let peer = normalize_call peer0 in
          if \<not> valid_call peer then (Inl ''invalid destination callsign'', s)
          else (case send_text tx now peer body want_ack c of
            (r, c') \<Rightarrow> (Inr (case r of Inl e \<Rightarrow> Inl e | Inr i \<Rightarrow> Inr (cs_messages (c_store c') ! i)),
                       s\<lparr>as_chat := Some c'\<rparr>)))"

definition rf_packet :: "(nat \<Rightarrow> exn option) \<Rightarrow> rat \<Rightarrow> string \<Rightarrow> string \<Rightarrow> session \<Rightarrow> session" where
  "rf_packet tx now src info s =
     (case as_chat s of None \<Rightarrow> s | Some c \<Rightarrow> s\<lparr>as_chat := Some (snd (on_packet tx now src info c))\<rparr>)"

definition aprsis_packet :: "(nat \<Rightarrow> exn option) \<Rightarrow> rat \<Rightarrow> string \<Rightarrow> string \<Rightarrow> session \<Rightarrow> session" where
  "aprsis_packet tx now src info s =
     (case as_chat s of None \<Rightarrow> s
      | Some c \<Rightarrow>
          s\<lparr>as_chat := Some ((snd (on_packet tx now src info (c\<lparr>c_path_label := ''aprsis''\<rparr>)))
                              \<lparr>c_path_label := c_path_label c\<rparr>)\<rparr>)"

text \<open>One pass of the retry loop; an exception of a transmission ends the task.\<close>

definition retry_pass :: "(nat \<Rightarrow> exn option) \<Rightarrow> rat \<Rightarrow> session \<Rightarrow> session" where
  "retry_pass tx now s =
     (if \<not> as_active s \<or> \<not> as_retry_task s then s
      else (case as_chat s of None \<Rightarrow> s
        | Some c \<Rightarrow> (case resend_due tx now c of
            (Inr _, c') \<Rightarrow> s\<lparr>as_chat := Some c'\<rparr>
          | (Inl e, c') \<Rightarrow> s\<lparr>as_chat := Some c', as_retry_task := False\<rparr>)))"

definition messages_since :: "nat \<Rightarrow> session \<Rightarrow> message list" where
  "messages_since q s = since q (session_store s)"

section \<open>What use leaves of the session\<close>

text \<open>The messages keep what they were recorded with; only status and retries change, and new ones follow.\<close>

definition recorded :: "message \<Rightarrow> nat \<times> bool \<times> string \<times> string \<times> string option \<times> rat \<times> string \<times> string" where
  "recorded m = (cm_seq m, cm_out m, cm_peer m, cm_text m, cm_msgno m, cm_ts m, cm_path m, cm_info m)"

definition grows :: "chat_store \<Rightarrow> chat_store \<Rightarrow> bool" where
  "grows a b \<longleftrightarrow> (\<exists>ys. map recorded (cs_messages b) = map recorded (cs_messages a) @ ys)"

lemma grows_refl [simp]: "grows a a"
  by (simp add: grows_def)

lemma grows_trans: "grows a b \<Longrightarrow> grows b c \<Longrightarrow> grows a c"
  by (auto simp: grows_def)

lemma grows_add [simp]: "grows s (snd (store_add now out peer body n st path info s))"
  by (simp add: grows_def store_add_def Let_def)

lemma grows_update: "recorded m = recorded (cs_messages s ! i) \<Longrightarrow> grows s (s\<lparr>cs_messages := (cs_messages s)[i := m]\<rparr>)"
  by (simp add: grows_def map_update list_update_same_conv)
     (metis append_Nil2 length_map list_update_beyond list_update_id map_update not_le_imp_less nth_map)

lemma grows_put_status [simp]: "grows s (put_status i st s)"
  unfolding put_status_def by (rule grows_update) (simp add: recorded_def)

lemma grows_send_text: "grows (c_store c) (c_store (snd (send_text tx now peer body ack c)))"
proof -
  have "grows (c_store c) s'" if "store_add now out p b n st path i (c_store c) = (k, s')" for out p b n st path i k s'
    using grows_add [of "c_store c" now out p b n st path i] that by simp
  then show ?thesis
    by (auto simp: send_text_def Let_def next_msgno_def sbind_def send_info_def split: prod.splits sum.splits option.splits)
qed

lemma grows_on_packet: "grows (c_store c) (c_store (snd (on_packet tx now src info c)))"
proof -
  have "grows (c_store c) s'" if "store_add now out p b n st path i (c_store c) = (k, s')" for out p b n st path i k s'
    using grows_add [of "c_store c" now out p b n st path i] that by simp
  then show ?thesis
    by (auto simp: on_packet_def Let_def on_ack_def on_reject_def map_prod_def sbind_def send_info_def
        split: option.splits kind.splits prod.splits sum.splits)
qed

lemma grows_mark [simp]: "grows (c_store c) (c_store (mark_retried i c))"
  by (simp add: mark_retried_def grows_update recorded_def)

lemma grows_resend_each: "grows (c_store c) (c_store (snd (resend_each tx is c)))"
proof (induction "is" arbitrary: c)
  case (Cons i js)
  obtain r c1 where s: "send_info tx (cm_info (cs_messages (c_store c) ! i)) c = (r, c1)" by fastforce
  then have c1: "c_store c1 = c_store c" using send_info_store(1) [of tx _ c] by (metis snd_conv)
  show ?case
  proof (cases r)
    case (Inl e)
    with s c1 show ?thesis by (simp add: sbind_def)
  next
    case (Inr u)
    with s Cons.IH [of "mark_retried i c1"] grows_trans [OF grows_mark [of c1 i]] c1 show ?thesis
      by (simp add: sbind_def)
  qed
qed simp

lemma grows_resend_due: "grows (c_store c) (c_store (snd (resend_due tx now c)))"
proof -
  obtain due c1 where d: "due_retries now c = (due, c1)" by fastforce
  then have "grows (c_store c) (c_store c1)"
    by (auto simp: due_retries_def Let_def grows_def recorded_def intro!: exI [of _ "[]"])
  moreover have "snd (resend_due tx now c) = snd (resend_each tx due c1)"
    using d by (auto simp: resend_due_def sbind_def split: prod.splits sum.splits)
  ultimately show ?thesis using grows_trans grows_resend_each [of c1 tx due] by auto
qed

section \<open>Sequences of operations\<close>

inductive session_use :: "session \<Rightarrow> session \<Rightarrow> bool" where
  use_send: "session_send tx now peer body ack s = (r, s') \<Longrightarrow> session_use s s'"
| use_rf: "session_use s (rf_packet tx now src info s)"
| use_is: "session_use s (aprsis_packet tx now src info s)"
| use_retry: "session_use s (retry_pass tx now s)"

inductive_cases session_use_E: "session_use s s'"

definition session_ok :: "session \<Rightarrow> bool" where
  "session_ok s \<longleftrightarrow>
     (if as_active s
      then as_chat s \<noteq> None \<and> as_rf s \<and> as_rx_tasks s = (if as_is s then 2 else 1) \<and> as_started s \<noteq> None
      else as_chat s = None \<and> \<not> as_rf s \<and> \<not> as_is s \<and> as_rx_tasks s = 0 \<and> \<not> as_retry_task s \<and> \<not> as_beacon_task s)
     \<and> as_sockets s = (if as_rf s then 1 else 0) + (if as_is s then 1 else 0)"

text \<open>One operation on a session: a start or stop without another in between, or a use.\<close>

inductive session_step :: "session \<times> bool \<Rightarrow> session \<times> bool \<Rightarrow> bool" where
  step_start: "start cfg e s running = (r, s', running') \<Longrightarrow> session_step (s, running) (s', running')"
| step_stop: "stop ok s running = (r, s', running') \<Longrightarrow> session_step (s, running) (s', running')"
| step_use: "session_use s s' \<Longrightarrow> session_step (s, running) (s', running)"

definition same_shape :: "session \<Rightarrow> session \<Rightarrow> bool" where
  "same_shape s s' \<longleftrightarrow> as_active s' = as_active s \<and> (as_chat s' = None) = (as_chat s = None)
     \<and> as_rf s' = as_rf s \<and> as_is s' = as_is s \<and> as_rx_tasks s' = as_rx_tasks s \<and> as_beacon_task s' = as_beacon_task s
     \<and> as_sockets s' = as_sockets s \<and> as_started s' = as_started s \<and> (as_retry_task s' \<longrightarrow> as_retry_task s)
     \<and> as_rms_was_running s' = as_rms_was_running s \<and> grows (session_store s) (session_store s')"

lemma use_shape:
  assumes "session_use s s'"
  shows "same_shape s s'"
  using assms
proof (cases rule: session_use.cases)
  case (use_send tx now peer body ack r)
  then show ?thesis
    using grows_send_text [of _ tx now "normalize_call peer" body ack]
    by (auto simp: session_send_def same_shape_def session_store_def Let_def split: if_splits option.splits prod.splits)
       (metis snd_conv)+
next
  case (use_rf tx now src info)
  then show ?thesis
    by (auto simp: rf_packet_def same_shape_def session_store_def grows_on_packet split: option.splits)
next
  case (use_is tx now src info)
  then show ?thesis
    using grows_on_packet [of "c\<lparr>c_path_label := ''aprsis''\<rparr>" tx now src info for c]
    by (auto simp: aprsis_packet_def same_shape_def session_store_def split: option.splits)
next
  case (use_retry tx now)
  then show ?thesis
    using grows_resend_due [of _ tx now]
    by (auto simp: retry_pass_def same_shape_def session_store_def split: option.splits sum.splits prod.splits)
       (metis snd_conv)+
qed

lemma uses_shape: "session_use\<^sup>*\<^sup>* s s' \<Longrightarrow> same_shape s s'"
proof (induction rule: rtranclp_induct)
  case base
  show ?case by (simp add: same_shape_def)
next
  case (step a b)
  with use_shape [of a b] show ?case by (auto simp: same_shape_def intro: grows_trans)
qed

lemma shape_ok: "same_shape s s' \<Longrightarrow> session_ok s \<Longrightarrow> session_ok s'"
  by (auto simp: same_shape_def session_ok_def split: if_splits)

section \<open>What starting and stopping do\<close>

lemma begin_shape:
  "begin_start cfg e s running = (r, s1, run1) \<Longrightarrow>
   s1 = s \<or> s1 = s\<lparr>as_rms_was_running := running\<rparr>"
  by (auto simp: begin_start_def Let_def split: if_splits)

lemma begin_none:
  assumes "begin_start cfg e s running = (None, s1, run1)"
  shows "s1 = s\<lparr>as_rms_was_running := running\<rparr>" "\<not> as_active s" "run1 \<longrightarrow> running"
  using assms by (auto simp: begin_start_def Let_def split: if_splits)

lemma begin_some:
  assumes "begin_start cfg e s running = (Some r, s1, run1)"
  shows "run1 = running" "\<forall>m. r \<noteq> Started m"
  using assms by (auto simp: begin_start_def Let_def split: if_splits)

lemma teardown_idle:
  assumes "as_sockets s = (if as_rf s then 1 else 0) + (if as_is s then 1 else 0)"
  shows "as_sockets (teardown s) = 0"
  using assms by (simp add: teardown_def)

lemma session_ok_was [simp]: "session_ok (s\<lparr>as_rms_was_running := b\<rparr>) = session_ok s"
  by (simp add: session_ok_def)

lemma start_cases:
  assumes "start cfg e s running = (r, s', run')" "session_ok s"
  obtains (unchanged) "run' = running" "\<forall>m. r \<noteq> Started m" "session_ok s'" "as_active s' = as_active s"
      "session_store s' = session_store s"
  | (failed) "\<not> as_active s" "\<not> as_active s'" "session_ok s'" "\<forall>m. r \<noteq> Started m"
      "session_store s' = session_store s" "run' \<longrightarrow> running" "sv_restart_ok e \<Longrightarrow> run' = running"
  | (started) "\<not> as_active s" "as_active s'" "session_ok s'" "as_rms_was_running s' = running"
      "run' \<longrightarrow> running" "session_store s' = session_store s"
proof -
  obtain o1 s1 run1 where b: "begin_start cfg e s running = (o1, s1, run1)" by (metis prod_cases3)
  show thesis
  proof (cases o1)
    case (Some r')
    with b assms(1) have e: "r = r'" "s' = s1" "run' = run1" by (simp_all add: start_def)
    from begin_shape [OF b] have "as_active s1 = as_active s" "session_ok s1" "session_store s1 = session_store s"
      using assms(2) by (auto simp: session_store_def split: option.split)
    with e begin_some [OF b [unfolded Some]] show thesis by (intro unchanged) auto
  next
    case None
    note n = begin_none [OF b [unfolded None]]
    from b None assms(1) have f: "finish_start cfg e s1 run1 = (r, s', run')" by (simp add: start_def)
    have ok1: "session_ok s1" using n assms(2) by simp
    show thesis
    proof (cases "sv_fails e")
      case None
      then have s': "s' = open_tasks cfg (sv_now e) (open_is cfg (open_chat cfg (open_rf s1)))" "run' = run1"
        using f by (simp_all add: finish_start_def)
      have i: "as_chat s1 = None" "\<not> as_rf s1" "\<not> as_is s1" "as_rx_tasks s1 = 0" "as_sockets s1 = 0"
        using ok1 n by (simp_all add: session_ok_def)
      have "session_ok s'" unfolding s'(1)
        by (cases "ac_is cfg") (simp_all add: session_ok_def open_tasks_def open_is_def open_chat_def open_rf_def i)
      moreover have "session_store s' = session_store s" unfolding s'(1)
        by (simp add: session_store_def open_tasks_def open_is_def open_chat_def open_rf_def new_chat_def n split: option.split)
      moreover have "as_active s'" "as_rms_was_running s' = running" unfolding s'(1)
        by (simp_all add: open_tasks_def open_is_def open_chat_def open_rf_def n)
      ultimately show thesis using n s'(2) by (intro started) auto
    next
      case (Some px)
      obtain p x where px: "px = (p, x)" by (cases px)
      have u: "as_sockets t = (if as_rf t then 1 else 0) + (if as_is t then 1 else 0) \<and> \<not> as_active t
          \<and> session_store t = session_store s" if "t = opened_until cfg p s1" for t
        using that n ok1
        by (cases p) (auto simp: opened_until_def open_is_def open_chat_def open_rf_def session_ok_def
          session_store_def new_chat_def)
      have s': "s' = teardown (opened_until cfg p s1)" "run' = (run1 \<or> running \<and> sv_restart_ok e)"
        "r = Start_failed (exn_text x)"
        using f Some px n(1) by (simp_all add: finish_start_def)
      have "session_ok s'" "\<not> as_active s'" "session_store s' = session_store s"
        using s'(1) u [OF refl] teardown_idle [of "opened_until cfg p s1"]
        by (simp_all add: session_ok_def teardown_def session_store_def)
      with s' n show thesis by (intro failed) auto
    qed
  qed
qed

lemma stop_facts:
  assumes "stop ok s running = (r, s', run')" "session_ok s"
  shows "session_ok s'" "\<not> as_active s'" "session_store s' = session_store s"
    "as_active s \<Longrightarrow> run' = (running \<or> as_rms_was_running s \<and> ok) \<and> r = Stopped (as_rms_was_running s \<and> ok)"
  using assms by (auto simp: stop_def Let_def teardown_def session_ok_def session_store_def split: if_splits)

lemma step_ok: "session_step x y \<Longrightarrow> session_ok (fst x) \<Longrightarrow> session_ok (fst y)"
proof (induction rule: session_step.induct)
  case (step_start cfg e s running r s' running')
  then show ?case using start_cases [of cfg e s running r s' running'] by (metis fst_conv)
next
  case (step_stop ok s running r s' running')
  then show ?case using stop_facts(1) [of ok s running r s' running'] by simp
next
  case (step_use s s' running)
  then show ?case using shape_ok [OF use_shape] by simp
qed

lemma steps_ok: "session_step\<^sup>*\<^sup>* x y \<Longrightarrow> session_ok (fst x) \<Longrightarrow> session_ok (fst y)"
  by (induction rule: rtranclp_induct) (auto dest: step_ok)

lemma new_session_ok: "session_ok new_session"
  by (simp add: session_ok_def new_session_def)

section \<open>Properties\<close>

text \<open>C33. After any operations, one at a time, on a fresh session: an active session has its chat, its radio
  transport and one receive task for each transport; an idle one has no transport, no task and no open
  socket.\<close>

theorem session_consistent:
  assumes "session_step\<^sup>*\<^sup>* (new_session, running) (s, running')"
  shows "(if as_active s
      then as_chat s \<noteq> None \<and> as_rf s \<and> as_rx_tasks s = (if as_is s then 2 else 1) \<and> as_started s \<noteq> None
      else as_chat s = None \<and> \<not> as_rf s \<and> \<not> as_is s \<and> as_rx_tasks s = 0 \<and> \<not> as_retry_task s \<and> \<not> as_beacon_task s)
    \<and> as_sockets s = (if as_rf s then 1 else 0) + (if as_is s then 1 else 0)"
  using steps_ok [OF assms] new_session_ok by (simp add: session_ok_def)

text \<open>C10. The radio is given back: a session that starts, is used, and stops leaves the RMS service running
  exactly if it ran before, given that systemctl can start it, holds no socket, and keeps every message
  recorded before and during the session; a start that fails or is refused leaves the service as it
  was and the session idle.\<close>

theorem radio_given_back:
  assumes "session_ok s" "\<not> as_active s" "sv_restart_ok e" "start cfg e s running = (r, s1, run1)"
  shows "case r of
      Started m \<Rightarrow>
        (\<forall>s2 x s3 run3. session_use\<^sup>*\<^sup>* s1 s2 \<longrightarrow> stop True s2 run1 = (x, s3, run3) \<longrightarrow>
           run3 = running \<and> x = Stopped running \<and> \<not> as_active s3 \<and> as_sockets s3 = 0
           \<and> grows (session_store s) (session_store s2) \<and> session_store s3 = session_store s2)
    | _ \<Rightarrow> run1 = running \<and> \<not> as_active s1 \<and> as_sockets s1 = 0 \<and> session_store s1 = session_store s"
  using assms(4,1)
proof (cases rule: start_cases)
  case unchanged
  with assms(2) show ?thesis by (auto simp: session_ok_def split: start_reply.split)
next
  case failed
  with assms(3) show ?thesis by (auto simp: session_ok_def split: start_reply.split)
next
  case started
  have "\<exists>m. r = Started m"
  proof (rule ccontr)
    assume "\<not> ?thesis"
    with assms(4) started(1,2) show False
      by (auto simp: start_def begin_start_def finish_start_def teardown_def opened_until_def open_is_def open_chat_def
          open_rf_def Let_def split: if_splits option.splits prod.splits start_point.splits)
  qed
  then obtain m where m: "r = Started m" by blast
  have "run3 = running \<and> x = Stopped running \<and> \<not> as_active s3 \<and> as_sockets s3 = 0
      \<and> grows (session_store s) (session_store s2) \<and> session_store s3 = session_store s2"
    if u: "session_use\<^sup>*\<^sup>* s1 s2" and st: "stop True s2 run1 = (x, s3, run3)" for s2 x s3 run3
  proof -
    note sh = uses_shape [OF u]
    have "session_ok s2" by (rule shape_ok [OF sh started(3)])
    note f = stop_facts [OF st this]
    have "as_active s2" "as_rms_was_running s2 = running" "grows (session_store s) (session_store s2)"
      using sh started by (auto simp: same_shape_def)
    with f started(5) show ?thesis by (auto simp: session_ok_def)
  qed
  then show ?thesis unfolding m start_reply.case by blast
qed

definition sample_aprs :: aprs_cfg where
  "sample_aprs = \<lparr>ac_enabled = True, ac_mycall = ''KP4PRA-7'', ac_station = ''KP4PRA'', ac_interval = 30,
     ac_max_retries = 3, ac_is = True, ac_beacon = False\<rparr>"

definition good_start :: start_env where
  "good_start = \<lparr>sv_busy = False, sv_stop_ok = True, sv_linger = 2, sv_fails = None, sv_restart_ok = True,
     sv_now = 0\<rparr>"

lemma sample_call: "session_call sample_aprs = ''KP4PRA-7''"
  by (simp add: session_call_def sample_aprs_def normalize_call_def py_eval)

lemma sample_started:
  "\<exists>s1. start sample_aprs good_start new_session True = (Started ''KP4PRA-7'', s1, False) \<and> as_active s1"
  by (simp add: start_def begin_start_def finish_start_def sample_call Let_def good_start_def new_session_def
      open_tasks_def open_is_def open_chat_def open_rf_def) (simp add: sample_aprs_def)

theorem session_consistent_witness:
  "case start sample_aprs good_start new_session True of
     (r, s, run) \<Rightarrow> as_active s \<and> as_chat s \<noteq> None \<and> as_rf s"
proof -
  obtain s1 where s: "start sample_aprs good_start new_session True = (Started ''KP4PRA-7'', s1, False)" "as_active s1"
    using sample_started by blast
  have "session_step\<^sup>*\<^sup>* (new_session, True) (s1, False)"
    by (rule r_into_rtranclp, rule step_start [OF s(1)])
  from session_consistent [OF this] s show ?thesis by simp
qed

theorem radio_given_back_witness:
  "case start sample_aprs good_start new_session True of
     (r, s1, run1) \<Rightarrow> (case stop True (retry_pass (\<lambda>k. None) 10 s1) run1 of
        (x, s3, run3) \<Rightarrow> run3 \<and> x = Stopped True \<and> as_sockets s3 = 0)"
proof -
  obtain s1 where s: "start sample_aprs good_start new_session True = (Started ''KP4PRA-7'', s1, False)"
    using sample_started by blast
  obtain x s3 run3 where st: "stop True (retry_pass (\<lambda>k. None) 10 s1) False = (x, s3, run3)" by (metis prod_cases3)
  have i: "\<not> as_active new_session" "sv_restart_ok good_start" by (simp_all add: new_session_def good_start_def)
  have u: "session_use\<^sup>*\<^sup>* s1 (retry_pass (\<lambda>k. None) 10 s1)"
    by (rule r_into_rtranclp, rule use_retry)
  from radio_given_back [OF new_session_ok i s] u st show ?thesis by (simp add: s) blast
qed

text \<open>Two starts at once lose the radio service: nothing keeps a second start out while the first one
  waits for the service to stop. The second finds the service stopped and records that it did not run, so
  the stop of the session does not start it again, and the first connection to the modem stays open.\<close>

theorem concurrent_starts_lose_rms:
  assumes "session_ok s" "\<not> as_active s" "ac_enabled cfg" "session_call cfg \<noteq> []"
    and "\<not> sv_busy e1" "sv_stop_ok e1" "sv_linger e1 < 20" "sv_fails e1 = None"
    and "\<not> sv_busy e2" "sv_fails e2 = None"
  shows "let (o1, s1, run1) = begin_start cfg e1 s True;
             (o2, s2, run2) = begin_start cfg e2 s1 run1;
             (r1, s3, run3) = finish_start cfg e1 s2 run2;
             (r2, s4, run4) = finish_start cfg e2 s3 run3;
             (x, s5, run5) = stop True s4 run4
         in o1 = None \<and> o2 = None \<and> r1 = Started (session_call cfg) \<and> r2 = Started (session_call cfg)
            \<and> x = Stopped False \<and> \<not> run5 \<and> 0 < as_sockets s5"
proof -
  have i: "as_sockets s = 0" "\<not> as_rf s" "\<not> as_is s" using assms(1,2) by (simp_all add: session_ok_def)
  show ?thesis
    using assms i
    by (simp add: begin_start_def finish_start_def stop_def Let_def open_tasks_def open_is_def open_chat_def open_rf_def
        teardown_def)
qed

theorem concurrent_starts_lose_rms_witness:
  "let (o1, s1, run1) = begin_start sample_aprs good_start new_session True;
       (o2, s2, run2) = begin_start sample_aprs good_start s1 run1;
       (r1, s3, run3) = finish_start sample_aprs good_start s2 run2;
       (r2, s4, run4) = finish_start sample_aprs good_start s3 run3;
       (x, s5, run5) = stop True s4 run4
   in x = Stopped False \<and> \<not> run5"
proof -
  have h: "\<not> as_active new_session" "ac_enabled sample_aprs" "session_call sample_aprs \<noteq> []"
    "\<not> sv_busy good_start" "sv_stop_ok good_start" "sv_linger good_start < 20" "sv_fails good_start = None"
    using sample_call by (simp_all add: new_session_def sample_aprs_def good_start_def)
  show ?thesis
    using concurrent_starts_lose_rms [OF new_session_ok h(1-7) h(4) h(7)] by (auto simp: Let_def split: prod.splits)
qed

lemma start_over_running_rms:
  "ac_enabled cfg \<Longrightarrow> session_call cfg \<noteq> [] \<Longrightarrow> \<not> sv_busy e \<Longrightarrow> sv_stop_ok e \<Longrightarrow> 20 \<le> sv_linger e \<Longrightarrow>
   sv_fails e = None \<Longrightarrow> \<exists>s1. start cfg e new_session True = (Started (session_call cfg), s1, True)"
  by (simp add: start_def begin_start_def finish_start_def Let_def new_session_def)

end
