(* ===== verification/Config.thy ===== *)
theory Config
  imports Py_Str Cms "HOL-Library.AList" Complex_Main
begin

text \<open>
  Configuration values, the merge of a configuration over the defaults, its file and the
  per-process cache (src/src/common/config.py, src/src/common/config_writer.py). A value that
  YAML or JSON decodes to is a \<open>pyval\<close>; a dict is the association list of its entries in
  insertion order, with text keys. The YAML reader and writer are arguments.
\<close>

section \<open>Values\<close>

datatype pyval =
    PNone
  | PBool bool
  | PInt int
  | PFloat rat
  | PStr string
  | PList "pyval list"
  | PDict "(string \<times> pyval) list"

type_synonym dict = "(string \<times> pyval) list"

text \<open>Truth of a value, \<^verbatim>\<open>int(v)\<close>, and \<^verbatim>\<open>isinstance(v, int)\<close> (a bool is an int).\<close>

fun truthy :: "pyval \<Rightarrow> bool" where
  "truthy PNone = False"
| "truthy (PBool b) = b"
| "truthy (PInt i) = (i \<noteq> 0)"
| "truthy (PFloat q) = (q \<noteq> 0)"
| "truthy (PStr s) = (s \<noteq> [])"
| "truthy (PList xs) = (xs \<noteq> [])"
| "truthy (PDict d) = (d \<noteq> [])"

fun int_of :: "pyval \<Rightarrow> int result" where
  "int_of (PBool b) = Inr (if b then 1 else 0)"
| "int_of (PInt i) = Inr i"
| "int_of (PFloat q) = Inr (if 0 \<le> q then \<lfloor>q\<rfloor> else \<lceil>q\<rceil>)"
| "int_of (PStr s) = (case py_int s of Some i \<Rightarrow> Inr i | None \<Rightarrow> Inl (ValueError ''invalid literal for int''))"
| "int_of v = Inl (TypeError ''int() argument'')"

fun as_int :: "pyval \<Rightarrow> int option" where
  "as_int (PBool b) = Some (if b then 1 else 0)"
| "as_int (PInt i) = Some i"
| "as_int v = None"

fun as_str :: "pyval \<Rightarrow> string option" where
  "as_str (PStr s) = Some s"
| "as_str v = None"

definition AttributeError :: "string \<Rightarrow> exn" where
  "AttributeError m = AppError ''AttributeError'' m"

text \<open>\<^verbatim>\<open>k in v\<close>, \<^verbatim>\<open>v[k]\<close>, \<^verbatim>\<open>v.get(k, d)\<close> and \<^verbatim>\<open>v.items()\<close> for a text key: text is searched
  for a substring, a list for an element, and neither can be indexed by text.\<close>

fun py_in :: "string \<Rightarrow> pyval \<Rightarrow> bool result" where
  "py_in k (PDict d) = Inr (map_of d k \<noteq> None)"
| "py_in k (PStr s) = Inr (contains k s)"
| "py_in k (PList xs) = Inr (PStr k \<in> set xs)"
| "py_in k v = Inl (TypeError ''argument is not iterable'')"

fun py_item :: "pyval \<Rightarrow> string \<Rightarrow> pyval result" where
  "py_item (PDict d) k = (case map_of d k of Some v \<Rightarrow> Inr v | None \<Rightarrow> Inl (AppError ''KeyError'' k))"
| "py_item v k = Inl (TypeError ''not subscriptable by text'')"

fun py_get :: "pyval \<Rightarrow> string \<Rightarrow> pyval \<Rightarrow> pyval result" where
  "py_get (PDict d) k e = Inr (case map_of d k of Some v \<Rightarrow> v | None \<Rightarrow> e)"
| "py_get v k e = Inl (AttributeError ''get'')"

definition py_or :: "pyval \<Rightarrow> pyval \<Rightarrow> pyval" where
  "py_or v w = (if truthy v then v else w)"

section \<open>Merging\<close>

text \<open>\<^verbatim>\<open>_deep_merge\<close>, the same function in both files: \<^verbatim>\<open>result[key] = val\<close> keeps the place of
  a key that is there and appends one that is not.\<close>

function deep_merge :: "dict \<Rightarrow> dict \<Rightarrow> dict" where
  "deep_merge result [] = result"
| "deep_merge result ((key, val) # override) =
     deep_merge
       (AList.update key
          (case map_of result key of
             Some (PDict b) \<Rightarrow> (case val of PDict v \<Rightarrow> PDict (deep_merge b v) | _ \<Rightarrow> val)
           | _ \<Rightarrow> val) result)
       override"
  by pat_completeness auto

termination
  by (relation "measure (\<lambda>(b, ov). size_list (size_prod (\<lambda>x. 0) size) ov)") auto

text \<open>The value at a path of keys, and a path whose prefixes an update leaves alone.\<close>

fun get_path :: "string list \<Rightarrow> dict \<Rightarrow> pyval option" where
  "get_path [] d = Some (PDict d)"
| "get_path [k] d = map_of d k"
| "get_path (k # p) d = (case map_of d k of Some (PDict e) \<Rightarrow> get_path p e | _ \<Rightarrow> None)"

fun untouched :: "string list \<Rightarrow> dict \<Rightarrow> bool" where
  "untouched [] d = False"
| "untouched (k # p) d =
     (case map_of d k of None \<Rightarrow> True | Some (PDict e) \<Rightarrow> p \<noteq> [] \<and> untouched p e | Some _ \<Rightarrow> False)"

fun leaf :: "pyval \<Rightarrow> bool" where
  "leaf (PDict d) = False"
| "leaf v = True"

text \<open>Every dict inside has each key once, as a Python dict has.\<close>

inductive proper :: "dict \<Rightarrow> bool" where
  proper: "distinct (map fst d) \<Longrightarrow> (\<And>k e. (k, PDict e) \<in> set d \<Longrightarrow> proper e) \<Longrightarrow> proper d"

inductive_cases proper_E: "proper d"

definition merged_entry :: "pyval option \<Rightarrow> pyval \<Rightarrow> pyval" where
  "merged_entry old val =
     (case old of
        Some (PDict b) \<Rightarrow> (case val of PDict v \<Rightarrow> PDict (deep_merge b v) | _ \<Rightarrow> val)
      | _ \<Rightarrow> val)"

lemma deep_merge_Cons:
  "deep_merge d ((k, v) # ov) = deep_merge (AList.update k (merged_entry (map_of d k) v) d) ov"
  by (simp add: merged_entry_def)

lemma merge_keeps: "k \<notin> fst ` set ov \<Longrightarrow> map_of (deep_merge d ov) k = map_of d k"
proof (induction ov arbitrary: d)
  case (Cons x ov)
  then show ?case
    by (cases x) (simp add: deep_merge_Cons update_conv' del: deep_merge.simps(2))
qed simp

lemma merge_entry:
  "distinct (map fst ov) \<Longrightarrow> map_of ov k = Some v \<Longrightarrow>
   map_of (deep_merge d ov) k = Some (merged_entry (map_of d k) v)"
proof (induction ov arbitrary: d)
  case (Cons x ov)
  obtain k' v' where x: "x = (k', v')" by (cases x)
  show ?case
  proof (cases "k' = k")
    case True
    with Cons.prems x show ?thesis
      by (simp add: deep_merge_Cons merge_keeps update_conv' del: deep_merge.simps(2))
  next
    case False
    with Cons x show ?thesis
      by (simp add: deep_merge_Cons update_conv' del: deep_merge.simps(2))
  qed
qed simp

lemma proper_sub: "proper d \<Longrightarrow> map_of d k = Some (PDict e) \<Longrightarrow> proper e"
  by (erule proper_E) (auto dest: map_of_SomeD)

lemma proper_distinct: "proper d \<Longrightarrow> distinct (map fst d)"
  by (auto elim: proper_E)

lemma merge_reads_back:
  "proper ov \<Longrightarrow> get_path p ov = Some v \<Longrightarrow> leaf v \<Longrightarrow> get_path p (deep_merge d ov) = Some v"
proof (induction p ov arbitrary: d rule: get_path.induct)
  case (2 k ov)
  then show ?case
    by (cases v) (auto simp: merge_entry proper_distinct merged_entry_def split: option.splits pyval.splits)
next
  case (3 k k' p ov)
  then obtain e where e: "map_of ov k = Some (PDict e)" "get_path (k' # p) e = Some v"
    by (auto split: option.splits pyval.splits)
  with 3(2) have pe: "proper e" by (auto dest: proper_sub)
  have m: "map_of (deep_merge d ov) k = Some (merged_entry (map_of d k) (PDict e))"
    using 3(2) e by (simp add: merge_entry proper_distinct)
  from 3(1) [OF e(1) refl pe e(2) 3(4)] e show ?case
    by (simp add: m) (auto simp: merged_entry_def split: option.splits pyval.splits)
qed auto

lemma untouched_absent: "untouched p ov \<Longrightarrow> get_path p ov = None"
  by (induction p ov rule: get_path.induct) (auto split: option.splits pyval.splits)

lemma merge_leaves_alone:
  "proper ov \<Longrightarrow> untouched p ov \<Longrightarrow> get_path p (deep_merge d ov) = get_path p d"
proof (induction p d arbitrary: ov rule: get_path.induct)
  case (2 k d)
  then show ?case
    by (auto simp: merge_keeps map_of_eq_None_iff split: option.splits pyval.splits)
next
  case (3 k k' p d)
  show ?case
  proof (cases "map_of ov k")
    case None
    then show ?thesis by (simp add: merge_keeps map_of_eq_None_iff)
  next
    case (Some w)
    with 3 obtain e where e: "w = PDict e" "untouched (k' # p) e"
      by (auto split: pyval.splits)
    from Some e(1) 3(2) have pe: "proper e" by (auto dest: proper_sub)
    have "map_of (deep_merge d ov) k = Some (merged_entry (map_of d k) (PDict e))"
      using 3(2) Some e by (simp add: merge_entry proper_distinct)
    then show ?thesis using 3(1) [OF _ refl pe e(2)] untouched_absent [OF e(2)]
      by (auto simp: merged_entry_def split: option.splits pyval.splits)
  qed
qed simp

lemma proper_update:
  assumes "proper d" and "\<And>e. w = PDict e \<Longrightarrow> proper e"
  shows "proper (AList.update k w d)"
proof (rule proper)
  show "distinct (map fst (AList.update k w d))"
    using assms(1) by (simp add: distinct_update proper_distinct)
next
  fix k' e assume "(k', PDict e) \<in> set (AList.update k w d)"
  moreover have "distinct (map fst (AList.update k w d))"
    using assms(1) by (simp add: distinct_update proper_distinct)
  ultimately have "map_of (AList.update k w d) k' = Some (PDict e)"
    by (metis map_of_is_SomeI)
  then show "proper e"
    using assms by (auto simp: update_conv' split: if_splits dest: proper_sub)
qed

lemma proper_Cons: "proper ((k, v) # ov) \<Longrightarrow> proper ov \<and> (\<forall>e. v = PDict e \<longrightarrow> proper e)"
proof (erule proper_E, intro conjI allI impI)
  assume d: "distinct (map fst ((k, v) # ov))"
    and e: "\<And>k' e. (k', PDict e) \<in> set ((k, v) # ov) \<Longrightarrow> proper e"
  show "proper ov" by (rule proper) (use d e in auto)
  show "proper x" if "v = PDict x" for x by (rule e [of k]) (simp add: that)
qed

lemma proper_merge: "proper d \<Longrightarrow> proper ov \<Longrightarrow> proper (deep_merge d ov)"
proof (induction d ov rule: deep_merge.induct)
  case (2 d k v ov)
  note parts = proper_Cons [OF 2(4)]
  from parts have ov: "proper ov" by simp
  have v: "proper e" if "v = PDict e" for e
    using parts that by simp
  have "proper e" if "merged_entry (map_of d k) v = PDict e" for e
    using that v 2(1) 2(3) by (auto simp: merged_entry_def dest: proper_sub split: option.splits pyval.splits)
  then have "proper (AList.update k (merged_entry (map_of d k) v) d)"
    by (rule proper_update [OF 2(3)])
  with 2(2) ov show ?case by (simp add: merged_entry_def)
qed simp

section \<open>Defaults\<close>

text \<open>The literal repeats the key "station"; as in Python the later value stands.\<close>

definition PRODUCT_NAME :: string where "PRODUCT_NAME = ''KP4PRA TNC''"

definition DEFAULT_CONFIG :: dict where
  "DEFAULT_CONFIG = [
    (''product_name'', PStr PRODUCT_NAME),
    (''station'', PDict [(''callsign'', PStr []), (''ssid'', PStr []), (''aliasssid'', PStr []),
      (''calias'', PStr ''CDIGI''), (''clock'', PStr []), (''mygrid'', PStr []), (''lat'',
      PFloat 0), (''lon'', PFloat 0), (''ptt'', PStr ''CM108''), (''ptt_param'', PStr []),
      (''sound'', PStr []), (''morse_id_enabled'', PBool True)]),
    (''direwolf'', PDict [(''host'', PStr ''127.0.0.1''), (''port'', PInt 8001)]),
    (''ble'', PDict [(''enabled'', PBool True), (''device_name'', PStr PRODUCT_NAME),
      (''start_at_boot'', PBool True)]),
    (''rfcomm'', PDict [(''enabled'', PBool True), (''device_name'', PStr PRODUCT_NAME),
      (''start_at_boot'', PBool True), (''channel'', PInt 1)]),
    (''dns_sd'', PDict [(''instance_name'', PStr ''KP4PRA TNC on orangepi'')]),
    (''web'', PDict [(''host'', PStr ''0.0.0.0''), (''port'', PInt 8088), (''auth_enabled'',
      PBool False), (''username'', PStr ''admin''), (''password'', PStr []),
      (''dashboard_password_hash'', PStr [])]),
    (''bluetooth'', PDict [(''auto_discoverable'', PBool False), (''auto_pairable'', PBool
      False), (''bluez_state_strategy'', PStr ''persistent_bind_mount'')]),
    (''paths'', PDict [(''config'', PStr ''/rw/kp4pra-tnc/config.yaml''), (''runtime'', PStr
      ''/run/kp4pra-tnc''), (''state'', PStr ''/rw/kp4pra-tnc/state''), (''data'', PStr
      ''/rw/kp4pra-tnc/data''), (''bluez_state'', PStr ''/rw/kp4pra-tnc/bluetooth'')]),
    (''debug'', PDict [(''verbose_stdout'', PBool False)]),
    (''wifi'', PDict [(''ssid'', PStr []), (''password'', PStr ''qwerty1234''), (''channel'',
      PInt 6), (''ap_security'', PStr ''auto''), (''mode_at_boot'', PStr ''client''),
      (''client_ssid'', PStr []), (''client_password'', PStr [])]),
    (''webmail'', PDict [(''enabled'', PBool True), (''delivery'', PDict [(''dry_run'', PBool
      True), (''method'', PStr ''cms''), (''auto_route'', PBool True), (''sid'', PDict
      [(''client_name'', PStr ''KP4PRA''), (''version'', PStr []), (''capabilities'', PStr
      ''B2FHM$'')]), (''rf'', PDict [(''remote_rms'', PStr []), (''digipeaters'', PList []),
      (''block_size'', PInt 250), (''mycall'', PStr []), (''restart_listener'', PBool True),
      (''connect_retries'', PInt 3), (''ack_timeout'', PInt 10)])])]),
    (''display'', PDict [(''tft'', PStr ''auto''), (''tft_rotation'', PInt 0)]),
    (''rms'', PDict [(''enabled'', PBool False), (''cms_call'', PStr []), (''cms_password'',
      PStr []), (''frequency_hz'', PInt 145050000), (''mode'', PStr ''PACKET-1200''),
      (''cms_host'', PStr ''cms.winlink.org''), (''cms_port'', PInt 8772), (''telnet_enabled'',
      PBool True), (''telnet_port'', PInt 8772)]),
    (''xara'', PDict [(''version'', PStr ''latest''), (''registered'', PBool True), (''mode'',
      PStr ''fm-narrow''), (''call'', PStr []), (''drive_db'', PInt (- 5)), (''ptt_lead_ms'',
      PInt 0), (''ptt_tail_ms'', PInt 100), (''network'', PBool True), (''auto_switch'', PBool
      True), (''port'', PInt 8300), (''kiss_port'', PInt 8100), (''ui_port'', PInt 8080)]),
    (''aprs'', PDict [(''enabled'', PBool True), (''mycall'', PStr []), (''digipath'', PList
      [PStr ''WIDE1-1'', PStr ''WIDE2-1'']), (''retry_interval'', PInt 30), (''max_retries'',
      PInt 3), (''aprsis'', PDict [(''enabled'', PBool False), (''host'', PStr
      ''rotate.aprs2.net''), (''port'', PInt 14580)]), (''beacon'', PDict [(''enabled'', PBool
      False), (''interval_min'', PInt 0), (''symbol_table'', PStr ''/''), (''symbol_code'', PStr
      ''-''), (''comment'', PStr ''KP4PRA APRS''), (''lat'', PFloat 0), (''lon'', PFloat 0)])])]"

section \<open>The file and the cache\<close>

text \<open>
  The configuration file and the temporary file beside it, each absent or holding a text; a
  process adds its cache. \<open>trace\<close> of a save lists the disk after each file operation, the states
  that a power failure can leave.
\<close>

record disk =
  dk_cfg :: "string option"
  dk_tmp :: "string option"

record config_process =
  cp_disk :: disk
  cp_cache :: "dict option"

record yaml =
  safe_load :: "string \<Rightarrow> pyval result"
  yaml_dump :: "dict \<Rightarrow> string"

definition read_config :: "yaml \<Rightarrow> dict \<Rightarrow> disk \<Rightarrow> dict" where
  "read_config Y defaults d =
     (case dk_cfg d of
        None \<Rightarrow> defaults
      | Some text \<Rightarrow>
          (case safe_load Y text of
             Inl _ \<Rightarrow> defaults
           | Inr v \<Rightarrow>
               (case py_or v (PDict []) of
                  PDict loaded \<Rightarrow> deep_merge defaults loaded
                | _ \<Rightarrow> defaults)))"

definition load_config :: "yaml \<Rightarrow> dict \<Rightarrow> config_process \<Rightarrow> dict \<times> config_process" where
  "load_config Y defaults s =
     (case cp_cache s of
        Some c \<Rightarrow> (c, s)
      | None \<Rightarrow> (let c = read_config Y defaults (cp_disk s) in (c, s\<lparr>cp_cache := Some c\<rparr>)))"

definition reload_config :: "yaml \<Rightarrow> dict \<Rightarrow> config_process \<Rightarrow> dict \<times> config_process" where
  "reload_config Y defaults s = load_config Y defaults (s\<lparr>cp_cache := None\<rparr>)"

datatype save_step = Open_tmp | Write_tmp nat | Sync_tmp | Rename_tmp

record save_env =
  se_dir :: string
  se_isdir :: bool
  se_mkdir_error :: "string option"
  se_writable :: bool
  se_fails_at :: "(save_step \<times> string) option"
  se_unlinks :: bool

text \<open>The file operations up to the one that fails, each with the disk after it. A failing
  write leaves a prefix of the text; the others leave the disk alone.\<close>

fun save_steps :: "save_step option \<Rightarrow> string \<Rightarrow> disk \<Rightarrow> disk list" where
  "save_steps (Some Open_tmp) text d = []"
| "save_steps (Some (Write_tmp n)) text d = [d\<lparr>dk_tmp := Some []\<rparr>, d\<lparr>dk_tmp := Some (take n text)\<rparr>]"
| "save_steps (Some Sync_tmp) text d = [d\<lparr>dk_tmp := Some []\<rparr>, d\<lparr>dk_tmp := Some text\<rparr>]"
| "save_steps (Some Rename_tmp) text d = [d\<lparr>dk_tmp := Some []\<rparr>, d\<lparr>dk_tmp := Some text\<rparr>]"
| "save_steps None text d =
     [d\<lparr>dk_tmp := Some []\<rparr>, d\<lparr>dk_tmp := Some text\<rparr>, \<lparr>dk_cfg = Some text, dk_tmp = None\<rparr>]"

definition last_disk :: "disk \<Rightarrow> disk list \<Rightarrow> disk" where
  "last_disk d ds = (if ds = [] then d else last ds)"

definition save_config ::
    "yaml \<Rightarrow> dict \<Rightarrow> save_env \<Rightarrow> dict \<Rightarrow> config_process \<Rightarrow> (bool \<times> string) \<times> disk list \<times> config_process" where
  "save_config Y defaults e updates s =
     (case (if se_isdir e then None else se_mkdir_error e) of
        Some m \<Rightarrow> ((False, ''Cannot create config directory '' @ se_dir e @ '': '' @ m), [], s)
      | None \<Rightarrow>
          if \<not> se_writable e then ((False, ''Config directory '' @ se_dir e @ '' is not writable''), [], s)
          else
            (let (current, s1) = load_config Y defaults s;
                 merged = deep_merge current updates;
                 ds = save_steps (map_option fst (se_fails_at e)) (yaml_dump Y merged) (cp_disk s1);
                 d = last_disk (cp_disk s1) ds
             in case se_fails_at e of
                  None \<Rightarrow>
                    ((True, ''Configuration saved''), ds, snd (reload_config Y defaults (s1\<lparr>cp_disk := d\<rparr>)))
                | Some (_, m) \<Rightarrow>
                    (let d' = (if se_unlinks e then d\<lparr>dk_tmp := None\<rparr> else d) in
                     ((False, ''Failed to write config: '' @ m), ds @ [d'], s1\<lparr>cp_disk := d'\<rparr>))))"

lemma save_steps_cfg:
  "list_all (\<lambda>x. dk_cfg x = dk_cfg d \<or> dk_cfg x = Some text) (save_steps f text d)"
  "f \<noteq> None \<Longrightarrow> list_all (\<lambda>x. dk_cfg x = dk_cfg d) (save_steps f text d)"
  by (cases "(f, text, d)" rule: save_steps.cases; simp)+

lemma list_all_last_disk: "list_all P ds \<Longrightarrow> P d \<Longrightarrow> P (last_disk d ds)"
  by (auto simp: last_disk_def list_all_iff)

lemma load_disk [simp]: "cp_disk (snd (load_config Y D s)) = cp_disk s"
  by (auto simp: load_config_def Let_def split: option.splits)

lemma save_config_cases:
  assumes "save_config Y D e u s = ((ok, msg), ds, s')"
  obtains (refused) "\<not> ok" "ds = []" "s' = s"
  | (failed) f m where "\<not> ok" "se_fails_at e = Some (f, m)"
      "list_all (\<lambda>x. dk_cfg x = dk_cfg (cp_disk s)) ds" "dk_cfg (cp_disk s') = dk_cfg (cp_disk s)"
  | (saved) new where "ok" "new = yaml_dump Y (deep_merge (fst (load_config Y D s)) u)"
      "list_all (\<lambda>x. dk_cfg x = dk_cfg (cp_disk s) \<or> dk_cfg x = Some new) ds"
      "dk_cfg (cp_disk s') = Some new" "cp_cache s' = Some (read_config Y D (cp_disk s'))"
proof -
  obtain c s1 where l: "load_config Y D s = (c, s1)" by (cases "load_config Y D s")
  then have d1: "cp_disk s1 = cp_disk s" using load_disk [of Y D s] by simp
  let ?text = "yaml_dump Y (deep_merge c u)"
  let ?ds = "save_steps (map_option fst (se_fails_at e)) ?text (cp_disk s)"
  consider "(if se_isdir e then None else se_mkdir_error e) \<noteq> None"
    | "(if se_isdir e then None else se_mkdir_error e) = None" "\<not> se_writable e"
    | f m where "(if se_isdir e then None else se_mkdir_error e) = None" "se_writable e"
        "se_fails_at e = Some (f, m)"
    | "(if se_isdir e then None else se_mkdir_error e) = None" "se_writable e" "se_fails_at e = None"
    by (cases "se_fails_at e") auto
  then show thesis
  proof cases
    case 1
    with assms show thesis by (intro refused) (auto simp: save_config_def split: option.splits if_splits)
  next
    case 2
    with assms show thesis by (intro refused) (auto simp: save_config_def)
  next
    case 3
    have o: "list_all (\<lambda>x. dk_cfg x = dk_cfg (cp_disk s)) ?ds"
      using save_steps_cfg(2) [of "Some f" "cp_disk s" ?text] 3 by simp
    with list_all_last_disk [OF o] 3 assms l d1 show thesis
      by (intro failed) (auto simp: save_config_def Let_def)
  next
    case 4
    have "list_all (\<lambda>x. dk_cfg x = dk_cfg (cp_disk s) \<or> dk_cfg x = Some ?text) ?ds"
      by (rule save_steps_cfg(1))
    moreover have "last_disk (cp_disk s) ?ds = \<lparr>dk_cfg = Some ?text, dk_tmp = None\<rparr>"
      using 4 by (simp add: last_disk_def)
    ultimately show thesis using 4 assms l d1
      by (intro saved) (auto simp: save_config_def Let_def reload_config_def load_config_def)
  qed
qed

section \<open>Saving\<close>

lemma save_text:
  "save_config Y D e u s = ((True, msg), ds, s') \<Longrightarrow>
   dk_cfg (cp_disk s') = Some (yaml_dump Y (deep_merge (fst (load_config Y D s)) u))
   \<and> cp_cache s' = Some (read_config Y D (cp_disk s'))"
  by (erule save_config_cases) auto

lemma read_saved:
  assumes "dk_cfg d = Some (yaml_dump Y m)" "safe_load Y (yaml_dump Y m) = Inr (PDict m)"
  shows "read_config Y D d = deep_merge D m"
  using assms by (cases m) (auto simp: read_config_def py_or_def)

text \<open>C27. At every moment of a save the configuration file holds the text it held before or the
  complete new text, the merge of the updates into the configuration in use; it holds the new
  one at the end exactly when the save reports success.\<close>

theorem config_save_atomic:
  "case save_config Y D e u s of ((ok, msg), ds, s') \<Rightarrow>
     list_all (\<lambda>d. dk_cfg d \<in> {dk_cfg (cp_disk s),
                     Some (yaml_dump Y (deep_merge (fst (load_config Y D s)) u))}) ds
     \<and> dk_cfg (cp_disk s') =
         (if ok then Some (yaml_dump Y (deep_merge (fst (load_config Y D s)) u)) else dk_cfg (cp_disk s))"
proof -
  obtain ok msg ds s' where r: "save_config Y D e u s = ((ok, msg), ds, s')"
    by (metis prod.exhaust)
  show ?thesis
    by (rule save_config_cases [OF r]) (auto simp: r elim!: list.pred_mono_strong)
qed

lemma saved_update:
  assumes "save_config Y D e u s = ((True, msg), ds, s')"
    and "safe_load Y (yaml_dump Y (deep_merge (fst (load_config Y D s)) u))
           = Inr (PDict (deep_merge (fst (load_config Y D s)) u))"
    and "proper u" "proper (fst (load_config Y D s))" "leaf v"
    and "get_path p u = Some v
         \<or> (untouched p u \<and> get_path p (fst (load_config Y D s)) = Some v)"
  shows "get_path p (fst (load_config Y D s')) = Some v
       \<and> get_path p (fst (load_config Y D \<lparr>cp_disk = cp_disk s', cp_cache = None\<rparr>)) = Some v"
proof -
  let ?c = "fst (load_config Y D s)"
  note t = save_text [OF assms(1)]
  from t assms(2) have r: "read_config Y D (cp_disk s') = deep_merge D (deep_merge ?c u)"
    by (intro read_saved) simp_all
  from assms(6) have "get_path p (deep_merge ?c u) = Some v"
    using merge_reads_back [OF assms(3) _ assms(5)] merge_leaves_alone [OF assms(3)] by auto
  then have "get_path p (deep_merge D (deep_merge ?c u)) = Some v"
    using merge_reads_back [OF proper_merge [OF assms(4,3)] _ assms(5)] by simp
  with t r show ?thesis by (simp add: load_config_def Let_def)
qed

text \<open>C26. After a successful save whose text the YAML reader gives back, every setting of the
  updates reads back, in the saving process and in a process that starts then, and every
  setting of the configuration in use that the updates do not touch is still there.\<close>

theorem config_update_reads_back:
  assumes "save_config Y D e u s = ((True, msg), ds, s')"
    and "safe_load Y (yaml_dump Y (deep_merge (fst (load_config Y D s)) u))
           = Inr (PDict (deep_merge (fst (load_config Y D s)) u))"
    and "proper u" "proper (fst (load_config Y D s))" "leaf v"
    and "get_path p u = Some v
         \<or> (untouched p u \<and> get_path p (fst (load_config Y D s)) = Some v)"
  shows "get_path p (fst (load_config Y D s')) = Some v
       \<and> get_path p (fst (load_config Y D \<lparr>cp_disk = cp_disk s', cp_cache = None\<rparr>)) = Some v"
  using assms by (rule saved_update)

lemma proper_eval:
  "proper []"
  "proper ((k, v) # d) \<longleftrightarrow> k \<notin> set (map fst d) \<and> (case v of PDict e \<Rightarrow> proper e | _ \<Rightarrow> True) \<and> proper d"
proof -
  show "proper []" by (rule proper) simp_all
  show "proper ((k, v) # d) \<longleftrightarrow> k \<notin> set (map fst d) \<and> (case v of PDict e \<Rightarrow> proper e | _ \<Rightarrow> True) \<and> proper d"
  proof
    assume "proper ((k, v) # d)"
    then show "k \<notin> set (map fst d) \<and> (case v of PDict e \<Rightarrow> proper e | _ \<Rightarrow> True) \<and> proper d"
      using proper_Cons [of k v d] proper_distinct [of "(k, v) # d"] by (auto split: pyval.split)
  next
    assume a: "k \<notin> set (map fst d) \<and> (case v of PDict e \<Rightarrow> proper e | _ \<Rightarrow> True) \<and> proper d"
    show "proper ((k, v) # d)"
    proof (rule proper)
      show "distinct (map fst ((k, v) # d))" using a proper_distinct by simp
      show "proper e" if "(k', PDict e) \<in> set ((k, v) # d)" for k' e
      proof (cases "(k', PDict e) = (k, v)")
        case True
        with a show ?thesis by auto
      next
        case False
        with that have "map_of d k' = Some (PDict e)"
          using a proper_distinct by (auto intro: map_of_is_SomeI)
        with a show ?thesis by (auto intro: proper_sub)
      qed
    qed
  qed
qed

lemma proper_defaults: "proper DEFAULT_CONFIG"
  by (simp add: DEFAULT_CONFIG_def proper_eval)

definition sample_yaml :: yaml where
  "sample_yaml = \<lparr>safe_load = (\<lambda>t. Inr (PDict [(''web'', PDict [(''port'', PInt 9000), (''host'', PStr ''::'')])])),
     yaml_dump = (\<lambda>d. ''web: {port: 9000, host: \"::\"}'')\<rparr>"

definition sample_defaults :: dict where
  "sample_defaults = [(''web'', PDict [(''port'', PInt 8088), (''host'', PStr ''::'')])]"

definition sample_save_env :: save_env where
  "sample_save_env = \<lparr>se_dir = ''/rw'', se_isdir = True, se_mkdir_error = None, se_writable = True,
     se_fails_at = None, se_unlinks = True\<rparr>"

theorem config_update_reads_back_witness:
  "let s = \<lparr>cp_disk = \<lparr>dk_cfg = None, dk_tmp = None\<rparr>, cp_cache = None\<rparr>;
       s' = snd (snd (save_config sample_yaml sample_defaults sample_save_env
              [(''web'', PDict [(''port'', PInt 9000)])] s))
   in get_path [''web'', ''port''] (fst (load_config sample_yaml sample_defaults s')) = Some (PInt 9000)"
proof -
  let ?s = "\<lparr>cp_disk = \<lparr>dk_cfg = None, dk_tmp = None\<rparr>, cp_cache = None\<rparr>"
  let ?u = "[(''web'', PDict [(''port'', PInt 9000)])]"
  let ?r = "save_config sample_yaml sample_defaults sample_save_env ?u ?s"
  have c: "fst (load_config sample_yaml sample_defaults ?s) = sample_defaults"
    by (simp add: load_config_def read_config_def)
  have r: "?r = ((True, ''Configuration saved''), fst (snd ?r), snd (snd ?r))"
    by (simp add: save_config_def sample_save_env_def Let_def split: prod.splits)
  have m: "deep_merge sample_defaults ?u
      = [(''web'', PDict [(''port'', PInt 9000), (''host'', PStr ''::'')])]"
    by (simp add: sample_defaults_def)
  have p: "proper ?u" "proper sample_defaults"
    by (simp_all add: sample_defaults_def proper_eval)
  have "get_path [''web'', ''port''] ?u = Some (PInt 9000)" by simp
  with config_update_reads_back [OF r, of "PInt 9000" "[''web'', ''port'']"] c m p show ?thesis
    by (simp add: sample_yaml_def Let_def)
qed

end
