(* ===== verification/Config_Check.thy ===== *)
theory Config_Check
  imports Config Mail_Validate
begin

text \<open>
  The validation of configuration updates (\<^verbatim>\<open>validate_config_updates\<close> of
  src/src/common/config_writer.py and \<^verbatim>\<open>valid_vara_call\<close> of src/src/common/xara_conf.py): one
  definition per section of the updates. A check gives its error messages or the exception
  it ends with. \<open>pylib\<close> holds Python's \<^verbatim>\<open>repr\<close> of text, floats and containers, and the
  comparison of \<^verbatim>\<open>float(v)\<close> with bounds.
\<close>

section \<open>Checks\<close>

record pylib =
  pl_repr :: "pyval \<Rightarrow> string"
  pl_between :: "pyval \<Rightarrow> int \<Rightarrow> int \<Rightarrow> bool result"

type_synonym check = "string list result"

fun all_of :: "check list \<Rightarrow> check" where
  "all_of [] = Inr []"
| "all_of (c # cs) = rbind c (\<lambda>e. rbind (all_of cs) (\<lambda>es. Inr (e @ es)))"

definition unless_ok :: "bool \<Rightarrow> string \<Rightarrow> check" where
  "unless_ok ok msg = Inr (if ok then [] else [msg])"

definition when_key :: "string \<Rightarrow> pyval \<Rightarrow> (pyval \<Rightarrow> check) \<Rightarrow> check" where
  "when_key k d f = rbind (py_in k d) (\<lambda>b. if b then rbind (py_item d k) f else Inr [])"

text \<open>\<^verbatim>\<open>try: ... except (TypeError, ValueError): handler\<close>.\<close>

definition attempt :: "'a result \<Rightarrow> check \<Rightarrow> ('a \<Rightarrow> check) \<Rightarrow> check" where
  "attempt r handler k =
     (case r of Inr v \<Rightarrow> k v
      | Inl e \<Rightarrow> (case e of TypeError _ \<Rightarrow> handler | ValueError _ \<Rightarrow> handler | _ \<Rightarrow> Inl e))"

definition py_str :: "pylib \<Rightarrow> pyval \<Rightarrow> string" where
  "py_str L v =
     (case v of PStr s \<Rightarrow> s | PInt i \<Rightarrow> show_int i
      | PBool b \<Rightarrow> (if b then ''True'' else ''False'') | PNone \<Rightarrow> ''None'' | _ \<Rightarrow> pl_repr L v)"

definition py_repr :: "pylib \<Rightarrow> pyval \<Rightarrow> string" where
  "py_repr L v = (case v of PStr s \<Rightarrow> pl_repr L v | _ \<Rightarrow> py_str L v)"

definition int_in :: "int \<Rightarrow> int \<Rightarrow> pyval \<Rightarrow> bool" where
  "int_in lo hi v = (case as_int v of Some i \<Rightarrow> lo \<le> i \<and> i \<le> hi | None \<Rightarrow> False)"

definition str_with :: "(string \<Rightarrow> bool) \<Rightarrow> pyval \<Rightarrow> bool" where
  "str_with P v = (case as_str v of Some s \<Rightarrow> P s | None \<Rightarrow> False)"

definition int_between :: "pyval \<Rightarrow> int \<Rightarrow> int \<Rightarrow> string \<Rightarrow> string \<Rightarrow> check" where
  "int_between v lo hi range_msg type_msg =
     attempt (int_of v) (Inr [type_msg]) (\<lambda>i. unless_ok (lo \<le> i \<and> i \<le> hi) range_msg)"

section \<open>Patterns\<close>

text \<open>\<^verbatim>\<open>re.match(r"^...$", s)\<close>: \<^verbatim>\<open>$\<close> also matches before a final newline.\<close>

definition re_line :: "(string \<Rightarrow> bool) \<Rightarrow> string \<Rightarrow> bool" where
  "re_line P s \<longleftrightarrow> P s \<or> (s \<noteq> [] \<and> last s = NL \<and> P (butlast s))"

definition upper_digit :: "char \<Rightarrow> bool" where
  "upper_digit c \<longleftrightarrow> is_upper c \<or> is_digit c"

definition of_class :: "(char \<Rightarrow> bool) \<Rightarrow> nat \<Rightarrow> nat \<Rightarrow> string \<Rightarrow> bool" where
  "of_class C lo hi s \<longleftrightarrow> lo \<le> length s \<and> length s \<le> hi \<and> list_all C s"

definition ssid_1_15 :: "string \<Rightarrow> bool" where
  "ssid_1_15 s \<longleftrightarrow> s \<in> set (map show_nat [1..<16])"

text \<open>A part of a class, optionally followed by a hyphen and a second part.\<close>

definition call_pattern :: "(char \<Rightarrow> bool) \<Rightarrow> nat \<Rightarrow> nat \<Rightarrow> (string \<Rightarrow> bool) \<Rightarrow> string \<Rightarrow> bool" where
  "call_pattern C lo hi S s =
     (case partition_at CHR ''-'' s of
        (a, found, b) \<Rightarrow> of_class C lo hi a \<and> (found \<longrightarrow> S b))"

definition letter_upto :: "nat \<Rightarrow> char \<Rightarrow> bool" where
  "letter_upto n c \<longleftrightarrow> (65 \<le> ord c \<and> ord c < 65 + n) \<or> (97 \<le> ord c \<and> ord c < 97 + n)"

definition grid_pattern :: "string \<Rightarrow> bool" where
  "grid_pattern s \<longleftrightarrow> (length s = 4 \<or> length s = 6) \<and> list_all (letter_upto 18) (take 2 s)
     \<and> list_all is_digit (take 2 (drop 2 s)) \<and> list_all (letter_upto 24) (drop 4 s)"

definition version_pattern :: "string \<Rightarrow> bool" where
  "version_pattern s =
     (let a = takeWhile is_digit s; r = drop (length a) s;
          b = takeWhile is_digit (tl r); r2 = drop (length b) (tl r);
          c = takeWhile is_digit (tl r2); r3 = drop (length c) (tl r2)
      in a \<noteq> [] \<and> startswith ''.'' r \<and> b \<noteq> [] \<and> startswith ''.'' r2 \<and> c \<noteq> [] \<and>
         (r3 = [] \<or> (hd r3 \<in> {CHR ''.'', CHR ''-''} \<and> tl r3 \<noteq> []
            \<and> list_all (\<lambda>x. is_alnum x \<or> x \<in> {CHR ''.'', CHR ''-''}) (tl r3))))"

text \<open>\<^verbatim>\<open>str.isdigit\<close> also holds of the superscripts, which \<^verbatim>\<open>int\<close> refuses.\<close>

definition py_isdigit :: "char \<Rightarrow> bool" where
  "py_isdigit c \<longleftrightarrow> is_digit c \<or> ord c \<in> {178, 179, 185}"

definition valid_vara_call :: "string \<Rightarrow> bool result" where
  "valid_vara_call call =
     (let u = upper (strip call) in
      case partition_at CHR ''-'' u of
        (base, found, ssid) \<Rightarrow>
          if \<not> of_class is_alnum 1 7 base then Inr False
          else if \<not> found then Inr True
          else if length ssid = 1 then
            Inr (hd ssid \<in> set ''TRXL'' \<or> hd ssid \<in> set ''123456789'')
          else if length ssid = 2 \<and> list_all py_isdigit ssid then
            rbind (int_of (PStr ssid)) (\<lambda>i. Inr (1 \<le> i \<and> i \<le> 19))
          else Inr False)"

section \<open>Sections of the configuration\<close>

definition check_direwolf :: "pylib \<Rightarrow> pyval \<Rightarrow> check" where
  "check_direwolf L dw = all_of
     [when_key ''port'' dw (\<lambda>p. unless_ok (int_in 1 65535 p)
        (''direwolf.port must be 1-65535, got '' @ py_repr L p)),
      when_key ''host'' dw (\<lambda>h. unless_ok (str_with (\<lambda>s. length s \<le> 253) h)
        ''direwolf.host must be a valid hostname/IP'')]"

definition check_web :: "pylib \<Rightarrow> pyval \<Rightarrow> check" where
  "check_web L web = all_of
     [when_key ''port'' web (\<lambda>p. unless_ok (int_in 1024 65535 p)
        (''web.port must be 1024-65535, got '' @ py_repr L p)),
      when_key ''password'' web (\<lambda>p. unless_ok (\<not> str_with (\<lambda>s. 256 < length s) p)
        ''web.password too long'')]"

definition name_ok :: "pyval \<Rightarrow> bool" where
  "name_ok n = str_with (\<lambda>s. length s \<le> 248 \<and> s \<noteq> []) n"

definition check_ble :: "pyval \<Rightarrow> check" where
  "check_ble ble =
     when_key ''device_name'' ble (\<lambda>n. unless_ok (name_ok n) ''ble.device_name must be 1-248 chars'')"

definition check_rfcomm :: "pyval \<Rightarrow> check" where
  "check_rfcomm rf = all_of
     [when_key ''device_name'' rf (\<lambda>n. unless_ok (name_ok n) ''rfcomm.device_name must be 1-248 chars''),
      when_key ''channel'' rf (\<lambda>c. unless_ok (int_in 1 30 c) ''rfcomm.channel must be 1-30'')]"

definition check_wifi :: "pyval \<Rightarrow> check" where
  "check_wifi w = all_of
     [when_key ''client_ssid'' w (\<lambda>s. unless_ok (str_with (\<lambda>s. length s \<le> 32) s)
        ''wifi.client_ssid must be 0-32 characters''),
      when_key ''client_password'' w (\<lambda>p.
        unless_ok (str_with (\<lambda>s. s = [] \<or> (8 \<le> length s \<and> length s \<le> 63)) p)
        ''wifi.client_password must be 8-63 characters (WPA) or blank''),
      when_key ''ap_security'' w (\<lambda>v. unless_ok (v \<in> PStr ` {''auto'', ''wpa2'', ''open''})
        ''wifi.ap_security must be auto, wpa2 or open'')]"

definition check_display :: "pylib \<Rightarrow> pyval \<Rightarrow> check" where
  "check_display L v = (let dp = py_or v (PDict []) in all_of
     [when_key ''tft'' dp (\<lambda>t. unless_ok (t \<in> PStr ` {''auto'', ''on'', ''off''})
        ''display.tft must be auto, on or off''),
      when_key ''tft_rotation'' dp (\<lambda>r. unless_ok (py_str L r \<in> {''0'', ''180''})
        ''display.tft_rotation must be 0 or 180'')])"

definition callsign_ok :: "string \<Rightarrow> bool" where
  "callsign_ok cs \<longleftrightarrow> 1 \<le> length cs \<and> length cs \<le> 6 \<and> re_line (\<lambda>s. s \<noteq> [] \<and> list_all is_alnum s) cs"

definition check_ssid :: "pyval \<Rightarrow> string \<Rightarrow> check" where
  "check_ssid st field = when_key field st (\<lambda>v.
     if v \<in> {PStr [], PNone} then Inr []
     else int_between v 1 15 (''station.'' @ field @ '' must be between 1 and 15'')
            (''station.'' @ field @ '' must be a number between 1 and 15''))"

definition check_degrees :: "pylib \<Rightarrow> pyval \<Rightarrow> string \<Rightarrow> int \<Rightarrow> check" where
  "check_degrees L st field bound = when_key field st (\<lambda>v.
     attempt (pl_between L v (- bound) bound)
       (Inr [''station.'' @ field @ '' must be a number''])
       (\<lambda>ok. unless_ok ok
         (''station.'' @ field @ '' must be between -'' @ show_int bound @ '' and '' @ show_int bound)))"

definition check_station :: "pylib \<Rightarrow> pyval \<Rightarrow> check" where
  "check_station L st = all_of
     [when_key ''callsign'' st (\<lambda>c. unless_ok (str_with callsign_ok c)
        ''station.callsign must be 1-6 alphanumeric characters''),
      check_ssid st ''ssid'', check_ssid st ''aliasssid'',
      when_key ''mygrid'' st (\<lambda>g. unless_ok (str_with (re_line grid_pattern) g)
        ''station.mygrid must be a valid Maidenhead grid square (e.g. FK68 or FK68wd)''),
      check_degrees L st ''lat'' 90, check_degrees L st ''lon'' 180,
      when_key ''calias'' st (\<lambda>c. unless_ok (\<not> truthy c \<or>
        str_with (\<lambda>s. length s \<le> 6 \<and> re_line (\<lambda>s. s \<noteq> [] \<and> list_all is_alnum s) s) c)
        ''station.calias must be 1-6 alphanumeric characters''),
      when_key ''clock'' st (\<lambda>c. unless_ok (\<not> truthy c \<or>
        str_with (re_line (call_pattern is_alnum 1 6 ssid_1_15)) c)
        ''station.clock must be CALLSIGN or CALLSIGN-SSID (SSID 1-15)'')]"

definition check_rms :: "pylib \<Rightarrow> pyval \<Rightarrow> check" where
  "check_rms L rms = all_of
     [when_key ''cms_call'' rms (\<lambda>c. unless_ok (\<not> truthy c \<or>
        re_line (call_pattern upper_digit 1 6 ssid_1_15) (upper (py_str L c)))
        ''rms.cms_call must be CALLSIGN or CALLSIGN-SSID''),
      rbind (py_get rms ''enabled'' PNone) (\<lambda>en. rbind (py_get rms ''cms_call'' PNone) (\<lambda>c.
        unless_ok (\<not> (truthy en \<and> \<not> truthy c)) ''rms.cms_call is required when RMS is enabled'')),
      when_key ''cms_password'' rms (\<lambda>p. unless_ok (length (py_str L p) \<le> 64)
        ''rms.cms_password is too long''),
      when_key ''frequency_hz'' rms (\<lambda>f.
        int_between f 1000000 1300000000 ''rms.frequency_hz is invalid''
          ''rms.frequency_hz must be an integer''),
      when_key ''mode'' rms (\<lambda>m. unless_ok (m \<in> PStr ` {''PACKET-1200'', ''PACKET-9600''})
        ''rms.mode must be PACKET-1200 or PACKET-9600'')]"

text \<open>The pattern \<^verbatim>\<open>_CALL\<close> of the webmail section, and \<^verbatim>\<open>wm.get(k, {}) or {}\<close>.\<close>

definition web_call :: "pylib \<Rightarrow> pyval \<Rightarrow> bool" where
  "web_call L v = re_line (call_pattern upper_digit 3 7 (of_class is_digit 1 2)) (upper (py_str L v))"

definition sub_dict :: "pyval \<Rightarrow> string \<Rightarrow> pyval result" where
  "sub_dict d k = rbind (py_get d k (PDict [])) (\<lambda>v. Inr (py_or v (PDict [])))"

definition check_digipeaters :: "pylib \<Rightarrow> pyval \<Rightarrow> check" where
  "check_digipeaters L digis =
     (case digis of
        PList ds \<Rightarrow>
          (let nonempty = filter (\<lambda>d. strip (py_str L d) \<noteq> []) ds in
           all_of (unless_ok (length nonempty \<le> 2) ''webmail.delivery.rf.digipeaters: at most 2 allowed''
             # map (\<lambda>d. unless_ok (web_call L d)
                 (''webmail.delivery.rf.digipeaters: '' @ py_repr L d @ '' is not a valid callsign'')) nonempty))
      | _ \<Rightarrow> Inr [''webmail.delivery.rf.digipeaters must be a list''])"

definition check_webmail_rf :: "pylib \<Rightarrow> pyval \<Rightarrow> check" where
  "check_webmail_rf L rf = all_of
     [when_key ''remote_rms'' rf (\<lambda>c. unless_ok (\<not> truthy c \<or> web_call L c)
        ''webmail.delivery.rf.remote_rms must be CALLSIGN or CALLSIGN-SSID''),
      when_key ''mycall'' rf (\<lambda>c. unless_ok (\<not> truthy c \<or> web_call L c)
        ''webmail.delivery.rf.mycall must be CALLSIGN or CALLSIGN-SSID''),
      when_key ''digipeaters'' rf (check_digipeaters L),
      when_key ''block_size'' rf (\<lambda>b. int_between b 1 255 ''webmail.delivery.rf.block_size must be 1-255''
        ''webmail.delivery.rf.block_size must be an integer''),
      when_key ''connect_retries'' rf (\<lambda>v. int_between v 1 120
        ''webmail.delivery.rf.connect_retries must be 1-120''
        ''webmail.delivery.rf.connect_retries must be an integer''),
      when_key ''ack_timeout'' rf (\<lambda>v. int_between v 1 120
        ''webmail.delivery.rf.ack_timeout must be 1-120''
        ''webmail.delivery.rf.ack_timeout must be an integer'')]"

definition check_webmail :: "pylib \<Rightarrow> pyval \<Rightarrow> check" where
  "check_webmail L v =
     rbind (sub_dict (py_or v (PDict [])) ''delivery'') (\<lambda>deliv.
     rbind (sub_dict deliv ''rf'') (check_webmail_rf L))"

definition XARA_MODES :: "string list" where
  "XARA_MODES = [''fm-narrow'', ''fm-wide'', ''hf-500'', ''hf-2300'', ''hf-2750'']"

definition check_num :: "pyval \<Rightarrow> string \<Rightarrow> int \<Rightarrow> int \<Rightarrow> check" where
  "check_num x k lo hi = when_key k x (\<lambda>v. int_between v lo hi
     (''xara.'' @ k @ '' must be '' @ show_int lo @ '' to '' @ show_int hi)
     (''xara.'' @ k @ '' must be a number''))"

definition used_ports :: "(int \<times> string) list" where
  "used_ports = [(8088, ''the KP4PRA web page''), (8001, ''Dire Wolf KISS''), (8000, ''Dire Wolf AGW''),
     (8772, ''the RMS gateway telnet port'')]"

definition check_free_port :: "pyval \<Rightarrow> string \<Rightarrow> check" where
  "check_free_port x k = rbind (py_get x k PNone) (\<lambda>v.
     attempt (int_of v) (Inr []) (\<lambda>p.
       (case (map_of used_ports p, if k = ''port'' then map_of used_ports (p + 1) else None) of
          (Some who, _) \<Rightarrow> Inr [''xara.'' @ k @ '' '' @ show_int p @ '' is already used by '' @ who]
        | (None, Some who) \<Rightarrow> Inr [''xara.'' @ k @ '' '' @ show_int p @ '' is already used by '' @ who]
        | (None, None) \<Rightarrow> Inr [])))"

fun is_bool :: "pyval \<Rightarrow> bool" where
  "is_bool (PBool b) = True"
| "is_bool v = False"

text \<open>A list or dict as the mode cannot be looked up among the keys of \<^verbatim>\<open>MODES\<close>.\<close>

definition check_xara_mode :: "pyval \<Rightarrow> check" where
  "check_xara_mode m =
     (case m of
        PList _ \<Rightarrow> Inl (TypeError ''unhashable type'')
      | PDict _ \<Rightarrow> Inl (TypeError ''unhashable type'')
      | _ \<Rightarrow> unless_ok (m \<in> PStr ` set XARA_MODES)
               (''xara.mode must be one of: '' @ join '', '' XARA_MODES))"

definition check_xara :: "pylib \<Rightarrow> pyval \<Rightarrow> check" where
  "check_xara L w = (let x = py_or w (PDict []) in all_of
     [when_key ''mode'' x check_xara_mode,
      rbind (py_get x ''call'' PNone) (\<lambda>c. if \<not> truthy c then Inr [] else
        rbind (valid_vara_call (py_str L c)) (\<lambda>ok. unless_ok ok
          ''xara.call must be a callsign with an optional VARA SSID (1-19)'')),
      rbind (py_get x ''version'' (PStr ''latest'')) (\<lambda>v. let s = py_str L v in
        unless_ok (s = ''latest'' \<or> re_line version_pattern (dropWhile (\<lambda>c. c = CHR ''v'') s))
          (''xara.version must be '' @ CHR 0x27 # ''latest'' @ CHR 0x27 # '' or a version like 0.1.1'')),
      when_key ''drive_db'' x (\<lambda>v. attempt (pl_between L v (- 40) 0)
        (Inr [''xara.drive_db must be a number''])
        (\<lambda>ok. unless_ok ok ''xara.drive_db must be -40 to 0'')),
      check_num x ''ptt_lead_ms'' 0 1000, check_num x ''ptt_tail_ms'' 0 1000,
      check_num x ''port'' 1024 65534, check_num x ''ui_port'' 1024 65535,
      rbind (py_in ''kiss_port'' x) (\<lambda>b. if \<not> b then Inr [] else
        rbind (py_item x ''kiss_port'') (\<lambda>v.
          if lower (py_str L v) = ''off'' then Inr [] else check_num x ''kiss_port'' 1024 65535)),
      all_of (map (\<lambda>b. when_key b x (\<lambda>v. unless_ok (is_bool v) (''xara.'' @ b @ '' must be true or false'')))
        [''network'', ''registered'', ''auto_switch'']),
      all_of (map (check_free_port x) [''port'', ''ui_port'', ''kiss_port''])])"

definition path_elem :: "pylib \<Rightarrow> pyval \<Rightarrow> bool" where
  "path_elem L d = re_line (call_pattern upper_digit 1 6 (of_class is_digit 1 2)) (upper (py_str L d))"

definition check_digipath :: "pylib \<Rightarrow> pyval \<Rightarrow> check" where
  "check_digipath L dp =
     (case dp of
        PList ds \<Rightarrow>
          (let ne = filter (\<lambda>d. strip (py_str L d) \<noteq> []) ds in
           all_of (unless_ok (length ne \<le> 8) ''aprs.digipath: at most 8 hops''
             # map (\<lambda>d. unless_ok (path_elem L d)
                 (''aprs.digipath: '' @ py_repr L d @ '' is not a valid path element'')) ne))
      | _ \<Rightarrow> Inr [''aprs.digipath must be a list''])"

definition check_beacon_value :: "pylib \<Rightarrow> pyval \<Rightarrow> string \<Rightarrow> check" where
  "check_beacon_value L bc k = rbind (py_get bc k PNone) (\<lambda>v.
     if v \<in> {PNone, PStr [], PInt 0, PFloat 0, PBool False} then Inr []
     else attempt (pl_between L v 0 0) (Inr [''aprs.beacon.'' @ k @ '' must be a number'']) (\<lambda>_. Inr []))"

definition check_symbol :: "pylib \<Rightarrow> pyval \<Rightarrow> string \<Rightarrow> check" where
  "check_symbol L bc k = rbind (py_get bc k PNone) (\<lambda>v.
     unless_ok (\<not> (truthy v \<and> length (py_str L v) \<noteq> 1)) (''aprs.beacon.'' @ k @ '' must be a single character''))"

definition check_aprs :: "pylib \<Rightarrow> pyval \<Rightarrow> check" where
  "check_aprs L v = (let ap = py_or v (PDict []) in all_of
     [rbind (py_get ap ''mycall'' PNone) (\<lambda>c. unless_ok (\<not> (truthy c \<and>
        \<not> re_line (call_pattern upper_digit 1 6 (of_class upper_digit 1 3)) (upper (py_str L c))))
        ''aprs.mycall must be CALLSIGN or CALLSIGN-SSID''),
      when_key ''digipath'' ap (check_digipath L),
      when_key ''retry_interval'' ap (\<lambda>i. int_between i 1 3600 ''aprs.retry_interval out of range''
        ''aprs.retry_interval must be an integer''),
      when_key ''max_retries'' ap (\<lambda>i. int_between i 1 3600 ''aprs.max_retries out of range''
        ''aprs.max_retries must be an integer''),
      rbind (sub_dict ap ''aprsis'') (\<lambda>isc. when_key ''port'' isc (\<lambda>p.
        int_between p 1 65535 ''aprs.aprsis.port invalid'' ''aprs.aprsis.port must be an integer'')),
      rbind (sub_dict ap ''beacon'') (\<lambda>bc. all_of
        [when_key ''interval_min'' bc (\<lambda>i. int_between i 0 1440 ''aprs.beacon.interval_min out of range''
           ''aprs.beacon.interval_min must be an integer''),
         check_symbol L bc ''symbol_table'', check_symbol L bc ''symbol_code'',
         check_beacon_value L bc ''lat'', check_beacon_value L bc ''lon''])])"

definition validate_config_updates :: "pylib \<Rightarrow> pyval \<Rightarrow> (bool \<times> string) result" where
  "validate_config_updates L updates =
     rbind (all_of
       [when_key ''direwolf'' updates (check_direwolf L), when_key ''web'' updates (check_web L),
        when_key ''ble'' updates check_ble, when_key ''rfcomm'' updates check_rfcomm,
        when_key ''wifi'' updates check_wifi, when_key ''display'' updates (check_display L),
        when_key ''station'' updates (check_station L), when_key ''rms'' updates (check_rms L),
        when_key ''webmail'' updates (check_webmail L), when_key ''xara'' updates (check_xara L),
        when_key ''aprs'' updates (check_aprs L)])
       (\<lambda>errors. Inr (if errors \<noteq> [] then (False, join ''; '' errors) else (True, [])))"

section \<open>What acceptance means\<close>

lemma all_of_Nil: "all_of cs = Inr [] \<longleftrightarrow> list_all (\<lambda>c. c = Inr []) cs"
proof (induction cs)
  case (Cons c cs)
  then show ?case by (cases c; cases "all_of cs") auto
qed simp

declare all_of.simps [simp del]

lemma when_key_dict:
  "when_key k (PDict d) f = (case map_of d k of None \<Rightarrow> Inr [] | Some v \<Rightarrow> f v)"
  by (simp add: when_key_def split: option.split)

lemma unless_ok_Nil [simp]: "unless_ok b m = Inr [] \<longleftrightarrow> b"
  by (simp add: unless_ok_def)

lemma attempt_Nil: "attempt r (Inr [m]) k = Inr [] \<Longrightarrow> \<exists>v. r = Inr v \<and> k v = Inr []"
  by (auto simp: attempt_def split: sum.splits exn.splits)

definition int_value_in :: "int \<Rightarrow> int \<Rightarrow> pyval \<Rightarrow> bool" where
  "int_value_in lo hi v = (case int_of v of Inr i \<Rightarrow> lo \<le> i \<and> i \<le> hi | Inl _ \<Rightarrow> False)"

lemma int_between_Nil: "int_between v lo hi m m' = Inr [] \<Longrightarrow> int_value_in lo hi v"
  by (auto simp: int_between_def int_value_in_def dest!: attempt_Nil)

lemma accepted_section:
  assumes "validate_config_updates L (PDict u) = Inr (True, m)"
  shows "map_of u ''direwolf'' = Some w \<Longrightarrow> check_direwolf L w = Inr []"
    and "map_of u ''web'' = Some w \<Longrightarrow> check_web L w = Inr []"
    and "map_of u ''ble'' = Some w \<Longrightarrow> check_ble w = Inr []"
    and "map_of u ''rfcomm'' = Some w \<Longrightarrow> check_rfcomm w = Inr []"
    and "map_of u ''station'' = Some w \<Longrightarrow> check_station L w = Inr []"
    and "map_of u ''webmail'' = Some w \<Longrightarrow> check_webmail L w = Inr []"
    and "map_of u ''xara'' = Some w \<Longrightarrow> check_xara L w = Inr []"
    and "map_of u ''aprs'' = Some w \<Longrightarrow> check_aprs L w = Inr []"
  using assms
  by (auto simp: validate_config_updates_def rbind_eq_Inr all_of_Nil when_key_dict split: if_splits)

text \<open>The settings that other components compute with, and what each of them needs.\<close>

definition SETTINGS :: "(string list \<times> (pyval \<Rightarrow> bool)) list" where
  "SETTINGS =
    [([''direwolf'', ''port''], int_in 1 65535),
     ([''web'', ''port''], int_in 1024 65535),
     ([''ble'', ''device_name''], name_ok),
     ([''rfcomm'', ''device_name''], name_ok),
     ([''rfcomm'', ''channel''], int_in 1 30),
     ([''station'', ''callsign''], str_with (\<lambda>s. s = [] \<or> callsign_ok s)),
     ([''webmail'', ''delivery'', ''rf'', ''block_size''], int_value_in 1 255),
     ([''webmail'', ''delivery'', ''rf'', ''connect_retries''], int_value_in 1 120),
     ([''webmail'', ''delivery'', ''rf'', ''ack_timeout''], int_value_in 1 120),
     ([''xara'', ''port''], int_value_in 1024 65534),
     ([''aprs'', ''retry_interval''], int_value_in 1 3600),
     ([''aprs'', ''max_retries''], int_value_in 1 3600)]"

definition valid_config :: "dict \<Rightarrow> bool" where
  "valid_config c = list_all (\<lambda>(p, P). case get_path p c of None \<Rightarrow> True | Some v \<Rightarrow> P v) SETTINGS"

lemma path2: "get_path [a, b] d = Some v \<Longrightarrow> \<exists>e. map_of d a = Some (PDict e) \<and> map_of e b = Some v"
  by (auto split: option.splits pyval.splits)

lemma path4:
  "get_path [a, b, c, k] d = Some v \<Longrightarrow>
   \<exists>e f g. map_of d a = Some (PDict e) \<and> map_of e b = Some (PDict f) \<and> map_of f c = Some (PDict g)
     \<and> map_of g k = Some v"
  by (auto split: option.splits pyval.splits)

lemma py_or_dict [simp]: "py_or (PDict d) (PDict []) = PDict d"
  by (simp add: py_or_def)

lemma settingI: "(\<And>v. get_path p u = Some v \<Longrightarrow> P v) \<Longrightarrow> (case get_path p u of None \<Rightarrow> True | Some v \<Rightarrow> P v)"
  by (simp split: option.split)

lemma accepted_update:
  assumes "validate_config_updates L (PDict u) = Inr (True, m)"
  shows "valid_config u"
proof -
  note sec = accepted_section [OF assms]
  have two: "P v" if "get_path [a, b] u = Some v"
    "\<And>e. map_of u a = Some (PDict e) \<Longrightarrow> map_of e b = Some v \<Longrightarrow> P v" for a b v P
    using path2 [OF that(1)] that(2) by blast
  have f1: "int_in 1 65535 v" if "get_path [''direwolf'', ''port''] u = Some v" for v
    using that by (rule two) (frule sec(1), auto simp: check_direwolf_def all_of_Nil when_key_dict)
  have f2: "int_in 1024 65535 v" if "get_path [''web'', ''port''] u = Some v" for v
    using that by (rule two) (frule sec(2), auto simp: check_web_def all_of_Nil when_key_dict)
  have f3: "name_ok v" if "get_path [''ble'', ''device_name''] u = Some v" for v
    using that by (rule two) (frule sec(3), auto simp: check_ble_def all_of_Nil when_key_dict)
  have f4: "name_ok v" if "get_path [''rfcomm'', ''device_name''] u = Some v" for v
    using that by (rule two) (frule sec(4), auto simp: check_rfcomm_def all_of_Nil when_key_dict)
  have f5: "int_in 1 30 v" if "get_path [''rfcomm'', ''channel''] u = Some v" for v
    using that by (rule two) (frule sec(4), auto simp: check_rfcomm_def all_of_Nil when_key_dict)
  have f6: "str_with (\<lambda>s. s = [] \<or> callsign_ok s) v" if "get_path [''station'', ''callsign''] u = Some v" for v
  proof -
    have "str_with callsign_ok v"
      using that by (rule two) (frule sec(5), auto simp: check_station_def all_of_Nil when_key_dict)
    then show ?thesis by (auto simp: str_with_def split: option.splits)
  qed
  have f7: "int_value_in 1024 65534 v" if "get_path [''xara'', ''port''] u = Some v" for v
    using that
    by (rule two) (frule sec(7), auto simp: check_xara_def check_num_def all_of_Nil Let_def when_key_dict
      dest: int_between_Nil)
  have f8: "int_value_in 1 3600 v" if "get_path [''aprs'', ''retry_interval''] u = Some v" for v
    using that
    by (rule two) (frule sec(8), auto simp: check_aprs_def all_of_Nil Let_def when_key_dict dest: int_between_Nil)
  have f9: "int_value_in 1 3600 v" if "get_path [''aprs'', ''max_retries''] u = Some v" for v
    using that
    by (rule two) (frule sec(8), auto simp: check_aprs_def all_of_Nil Let_def when_key_dict dest: int_between_Nil)
  have "\<exists>g. check_webmail_rf L (PDict g) = Inr [] \<and> map_of g k = Some v"
    if "get_path [''webmail'', ''delivery'', ''rf'', k] u = Some v" for k v
    using path4 [OF that] sec(6) by (auto simp: check_webmail_def sub_dict_def)
  then have f10:
    "get_path [''webmail'', ''delivery'', ''rf'', ''block_size''] u = Some v \<Longrightarrow> int_value_in 1 255 v"
    "get_path [''webmail'', ''delivery'', ''rf'', ''connect_retries''] u = Some v \<Longrightarrow> int_value_in 1 120 v"
    "get_path [''webmail'', ''delivery'', ''rf'', ''ack_timeout''] u = Some v \<Longrightarrow> int_value_in 1 120 v" for v
    by (force simp: check_webmail_rf_def all_of_Nil when_key_dict dest: int_between_Nil)+
  show ?thesis
    unfolding valid_config_def SETTINGS_def list.pred_inject(2) prod.case
    by (intro conjI settingI list.pred_inject(1)) (erule f1 f2 f3 f4 f5 f6 f7 f8 f9 f10)+
qed


section \<open>Saved configurations stay valid\<close>

lemma merge_origin:
  "proper ov \<Longrightarrow> get_path p (deep_merge d ov) = Some v \<Longrightarrow>
   get_path p ov = Some v \<or> get_path p d = Some v \<or> (\<exists>e. get_path p ov = Some (PDict e))"
proof (induction p d arbitrary: ov rule: get_path.induct)
  case (2 k d)
  then show ?case
    by (cases "map_of ov k")
       (auto simp: merge_keeps map_of_eq_None_iff merge_entry proper_distinct merged_entry_def
         split: option.splits pyval.splits)
next
  case (3 k k' p d)
  show ?case
  proof (cases "map_of ov k")
    case None
    with 3 show ?thesis by (simp add: merge_keeps map_of_eq_None_iff)
  next
    case (Some w)
    then have m: "map_of (deep_merge d ov) k = Some (merged_entry (map_of d k) w)"
      using 3(2) by (simp add: merge_entry proper_distinct)
    show ?thesis
    proof (cases "\<exists>b e. map_of d k = Some (PDict b) \<and> w = PDict e")
      case True
      then obtain b e where be: "map_of d k = Some (PDict b)" "w = PDict e" by blast
      with Some 3(2) have "proper e" by (auto dest: proper_sub)
      from 3(1) [OF be(1) refl this] 3(3) m be Some show ?thesis by (simp add: merged_entry_def)
    next
      case False
      then have "merged_entry (map_of d k) w = w"
        by (auto simp: merged_entry_def split: option.split pyval.split)
      with m 3(3) Some show ?thesis by simp
    qed
  qed
qed auto

lemma setting_leaf: "(p, P) \<in> set SETTINGS \<Longrightarrow> P v \<Longrightarrow> leaf v"
  by (cases v) (auto simp: SETTINGS_def int_in_def name_ok_def str_with_def int_value_in_def)

lemma valid_merge:
  assumes "valid_config d" "valid_config u" "proper u"
  shows "valid_config (deep_merge d u)"
proof -
  have "P v" if s: "(p, P) \<in> set SETTINGS" and g: "get_path p (deep_merge d u) = Some v" for p P v
  proof -
    have d: "P w" if "get_path p d = Some w" for w
      using assms(1) s that by (auto simp: valid_config_def list_all_iff split: option.splits)
    have u: "P w" if "get_path p u = Some w" for w
      using assms(2) s that by (auto simp: valid_config_def list_all_iff split: option.splits)
    from merge_origin [OF assms(3) g] d u setting_leaf [OF s] show ?thesis by (metis leaf.simps(1))
  qed
  then show ?thesis by (auto simp: valid_config_def list_all_iff split: option.split)
qed

definition valid_process :: "yaml \<Rightarrow> dict \<Rightarrow> config_process \<Rightarrow> bool" where
  "valid_process Y D s \<longleftrightarrow>
     valid_config (fst (load_config Y D s)) \<and> proper (fst (load_config Y D s))
     \<and> valid_config (read_config Y D (cp_disk s)) \<and> proper (read_config Y D (cp_disk s))"

lemma valid_defaults: "valid_config DEFAULT_CONFIG"
  by (simp add: valid_config_def SETTINGS_def DEFAULT_CONFIG_def PRODUCT_NAME_def int_in_def
    name_ok_def str_with_def int_value_in_def)

lemma failed_save_keeps_cache:
  "save_config Y D e u s = ((False, msg), ds, s') \<Longrightarrow> fst (load_config Y D s') = fst (load_config Y D s)"
  by (auto simp: save_config_def load_config_def Let_def split: option.splits if_splits prod.splits)


definition sample_pylib :: pylib where
  "sample_pylib = \<lparr>pl_repr = (\<lambda>v. []), pl_between = (\<lambda>v lo hi. Inr True)\<rparr>"

definition station_update :: dict where
  "station_update = [(''station'', PDict [(''callsign'', PStr ''KP4PRA'')])]"

lemma station_update_accepted:
  "validate_config_updates sample_pylib (PDict station_update) = Inr (True, [])"
proof -
  have "callsign_ok ''KP4PRA''"
    by (simp add: callsign_ok_def re_line_def is_alnum_def is_digit_def is_upper_def ord_def)
  then show ?thesis
    by (simp add: validate_config_updates_def station_update_def all_of.simps when_key_dict
      check_station_def check_ssid_def check_degrees_def str_with_def unless_ok_def)
qed


lemma null_section_accepted:
  "validate_config_updates L (PDict [(''webmail'', PNone)]) = Inr (True, [])"
  by (simp add: validate_config_updates_def all_of.simps when_key_dict check_webmail_def sub_dict_def py_or_def
    check_webmail_rf_def)

lemma password_update_accepted:
  "validate_config_updates L (PDict [(''web'', PDict [(''dashboard_password_hash'', v)])]) = Inr (True, [])"
  by (simp add: validate_config_updates_def all_of.simps when_key_dict check_web_def)

end
