(* ===== verification/Auth.thy ===== *)
theory Auth
  imports Config_Check Mail_Builder
begin

text \<open>
  Dashboard authentication: src/src/web/auth.py and the parts of src/src/web/web_app.py that
  wire it (the login dependency, the CSRF middleware, login, and the password change). Base64
  and hexadecimal are Python's decoders, with the characters they skip. HMAC, scrypt and
  \<^verbatim>\<open>json.loads\<close> are the fields of \<open>auth_lib\<close>; the key file, the random bytes and the clock
  are arguments. A string is text of code points below 256.
\<close>

section \<open>Base64 for URLs\<close>

definition b64_char :: "nat \<Rightarrow> char" where
  "b64_char n =
     (if n < 26 then chr (65 + n) else if n < 52 then chr (71 + n)
      else if n < 62 then chr (n - 4) else if n = 62 then CHR ''-'' else CHR ''_'')"

definition b64_val :: "char \<Rightarrow> nat option" where
  "b64_val c =
     (if is_upper c then Some (ord c - 65) else if is_lower c then Some (ord c - 71)
      else if is_digit c then Some (ord c + 4)
      else if c \<in> {CHR ''-'', CHR ''+''} then Some 62
      else if c \<in> {CHR ''_'', CHR ''/''} then Some 63 else None)"

definition byte_of :: "nat \<Rightarrow> byte" where
  "byte_of n = word_of_nat n"

text \<open>\<^verbatim>\<open>_b64e\<close>: the encoder without its padding.\<close>

fun b64e :: "bytes \<Rightarrow> string" where
  "b64e [] = []"
| "b64e [a] = [b64_char (unat a div 4), b64_char (unat a mod 4 * 16)]"
| "b64e [a, b] =
     [b64_char (unat a div 4), b64_char (unat a mod 4 * 16 + unat b div 16),
      b64_char (unat b mod 16 * 4)]"
| "b64e (a # b # c # r) =
     b64_char (unat a div 4) # b64_char (unat a mod 4 * 16 + unat b div 16)
       # b64_char (unat b mod 16 * 4 + unat c div 64) # b64_char (unat c mod 64) # b64e r"

text \<open>
  The decoder of \<^verbatim>\<open>binascii\<close> outside strict mode: \<open>q\<close> characters of the current group of
  four are read, \<open>left\<close> holds their unused bits, \<open>pads\<close> counts padding since the last of
  them. Other characters are skipped; enough padding ends the input.
\<close>

fun a2b :: "nat \<Rightarrow> nat \<Rightarrow> nat \<Rightarrow> string \<Rightarrow> bytes option" where
  "a2b q left pads [] = (if q = 0 then Some [] else None)"
| "a2b q left pads (c # cs) =
     (if c = CHR ''='' then
        (if 2 \<le> q \<and> 4 \<le> q + pads + 1 then Some []
         else a2b q left (if 2 \<le> q then pads + 1 else pads) cs)
      else (case b64_val c of
        None \<Rightarrow> a2b q left pads cs
      | Some v \<Rightarrow>
          if q = 0 then a2b 1 v 0 cs
          else if q = 1 then map_option ((#) (byte_of (left * 4 + v div 16))) (a2b 2 (v mod 16) 0 cs)
          else if q = 2 then map_option ((#) (byte_of (left * 16 + v div 4))) (a2b 3 (v mod 4) 0 cs)
          else map_option ((#) (byte_of (left * 64 + v))) (a2b 0 0 0 cs)))"

definition b64d :: "string \<Rightarrow> bytes option" where
  "b64d s = (if is_ascii s then a2b 0 0 0 (s @ replicate ((4 - length s mod 4) mod 4) CHR ''='')
             else None)"

lemma chr_eq: "n < 256 \<Longrightarrow> chr n = c \<longleftrightarrow> n = ord c"
  by (metis chr_ord ord_chr)

lemma ord_marks [simp]:
  "ord CHR ''-'' = 45" "ord CHR ''.'' = 46" "ord CHR ''='' = 61" "ord CHR ''_'' = 95" "ord CHR ''$'' = 36"
  by (simp_all add: ord_def)

lemma b64_val_char [simp]: "n < 64 \<Longrightarrow> b64_val (b64_char n) = Some n"
  by (auto simp: b64_char_def b64_val_def is_upper_def is_lower_def is_digit_def ord_chr)

lemma b64_char_plain:
  "n < 64 \<Longrightarrow> b64_char n \<noteq> CHR ''='' \<and> b64_char n \<noteq> CHR ''.'' \<and> ord (b64_char n) < 128"
  by (auto simp: b64_char_def ord_chr chr_eq)

lemma unat_byte [simp]: "unat (a::byte) < 256"
  using unsigned_less [of a] by simp

lemma byte_of_unat [simp]: "byte_of (unat a) = (a::byte)"
  by (simp add: byte_of_def)

lemma pack_bits: "y < k \<Longrightarrow> (x * k + y) div k = x \<and> (x * k + y) mod k = (y::nat)"
  by simp

lemma byte_div: "unat (a::byte) div 4 < 64" "unat a div 16 < 16" "unat a div 64 < 4"
  using unat_byte [of a] by linarith+

lemma sextets:
  "unat (a::byte) div 4 < 64" "m mod 4 * 16 < (64::nat)" "m mod 4 * 16 + unat a div 16 < 64"
  "m mod 16 * 4 < (64::nat)" "m mod 16 * 4 + unat a div 64 < 64" "m mod 64 < (64::nat)"
proof -
  have "m mod 4 < 4" "m mod 16 < 16" by simp_all
  with byte_div [of a] show
    "unat (a::byte) div 4 < 64" "m mod 4 * 16 < (64::nat)" "m mod 4 * 16 + unat a div 16 < 64"
    "m mod 16 * 4 < (64::nat)" "m mod 16 * 4 + unat a div 64 < 64" "m mod 64 < (64::nat)"
    by linarith+
qed

lemma joined_bytes:
  fixes a b :: byte
  shows
  "byte_of (unat a div 4 * 4 + (unat a mod 4 * 16) div 16) = a"
  "byte_of (unat a div 4 * 4 + (unat a mod 4 * 16 + unat b div 16) div 16) = a"
  "byte_of ((m mod 4 * 16 + unat b div 16) mod 16 * 16 + (unat b mod 16 * 4) div 4) = b"
  "byte_of ((m mod 4 * 16 + unat b div 16) mod 16 * 16 + (unat b mod 16 * 4 + unat a div 64) div 4) = b"
  "byte_of ((m mod 16 * 4 + unat b div 64) mod 4 * 64 + unat b mod 64) = b"
  using pack_bits [OF byte_div(2), of "m mod 4" b] pack_bits [OF byte_div(2), of "unat a mod 4" b]
    pack_bits [OF byte_div(3), of "unat b mod 16" a] pack_bits [OF byte_div(3), of "m mod 16" b]
  by simp_all

definition b64_pad :: "nat \<Rightarrow> string" where
  "b64_pad n = replicate ((4 - n mod 4) mod 4) CHR ''=''"

lemma b64_pad_Suc4: "b64_pad (Suc (Suc (Suc (Suc n)))) = b64_pad n"
  by (simp add: b64_pad_def)

lemma b64_pad_2_3: "b64_pad (Suc (Suc 0)) = ''==''" "b64_pad (Suc (Suc (Suc 0))) = ''=''"
  "b64_pad 0 = []"
  by (simp_all add: b64_pad_def replicate_eval)

lemma a2b_plain:
  "c \<noteq> CHR ''='' \<Longrightarrow> b64_val c = Some v \<Longrightarrow> a2b q left pads (c # cs) =
     (if q = 0 then a2b 1 v 0 cs
      else if q = 1 then map_option ((#) (byte_of (left * 4 + v div 16))) (a2b 2 (v mod 16) 0 cs)
      else if q = 2 then map_option ((#) (byte_of (left * 16 + v div 4))) (a2b 3 (v mod 4) 0 cs)
      else map_option ((#) (byte_of (left * 64 + v))) (a2b 0 0 0 cs))"
  by simp

lemma a2b_char:
  assumes "v < 64"
  shows "a2b 0 left pads (b64_char v # cs) = a2b 1 v 0 cs"
    "a2b 1 left pads (b64_char v # cs) = map_option ((#) (byte_of (left * 4 + v div 16))) (a2b 2 (v mod 16) 0 cs)"
    "a2b 2 left pads (b64_char v # cs) = map_option ((#) (byte_of (left * 16 + v div 4))) (a2b 3 (v mod 4) 0 cs)"
    "a2b 3 left pads (b64_char v # cs) = map_option ((#) (byte_of (left * 64 + v))) (a2b 0 0 0 cs)"
  using b64_char_plain [OF assms] assms by (simp_all add: a2b_plain del: a2b.simps)

lemma a2b_pad: "a2b 2 left 0 ''=='' = Some []" "a2b 3 left 0 ''='' = Some []" "a2b 0 left pads [] = Some []"
  by simp_all

lemma a2b_b64e: "a2b 0 0 0 (b64e raw @ b64_pad (length (b64e raw))) = Some raw"
proof (induction raw rule: b64e.induct)
  case (4 a b c r)
  then show ?case
    by (simp del: a2b.simps One_nat_def add: b64_pad_Suc4 a2b_char sextets joined_bytes byte_div)
qed (simp_all del: a2b.simps One_nat_def add: b64_pad_2_3 a2b_char a2b_pad sextets joined_bytes byte_div)

lemma b64e_chars: "c \<in> set (b64e raw) \<Longrightarrow> c \<noteq> CHR ''.'' \<and> ord c < 128"
  by (induction raw rule: b64e.induct)
     (auto simp: b64_char_plain sextets)

lemma b64e_ascii [simp]: "is_ascii (b64e raw)" "CHR ''.'' \<notin> set (b64e raw)"
  by (auto simp: is_ascii_def list_all_iff dest: b64e_chars)

lemma b64d_b64e [simp]: "b64d (b64e raw) = Some raw"
  using a2b_b64e [of raw] by (simp add: b64d_def b64_pad_def)

section \<open>Library, keys\<close>

record auth_lib =
  hmac_sha256 :: "bytes \<Rightarrow> bytes \<Rightarrow> bytes"
  scrypt :: "bytes \<Rightarrow> bytes \<Rightarrow> int \<times> int \<times> int \<Rightarrow> nat \<Rightarrow> bytes result"
  json_loads :: "bytes \<Rightarrow> pyval option"

definition SESSION_TTL :: nat where "SESSION_TTL = 12 * 3600"
definition MIN_PASSWORD_LEN :: nat where "MIN_PASSWORD_LEN = 8"
definition MAX_PASSWORD_LEN :: nat where "MAX_PASSWORD_LEN = 256"
definition SCRYPT_N :: nat where "SCRYPT_N = 2 ^ 14"

text \<open>The module's two globals, and the key file: what reading and writing it give.\<close>

record key_state =
  k_cache :: "bytes option"
  k_ephemeral :: "bytes option"
  k_file :: "bytes option"

record key_env =
  ke_read_error :: bool
  ke_write_error :: bool
  ke_random1 :: bytes
  ke_random2 :: bytes

definition make_ephemeral :: "bytes \<Rightarrow> key_state \<Rightarrow> bytes \<times> key_state" where
  "make_ephemeral rnd s =
     (case k_ephemeral s of Some k \<Rightarrow> (k, s) | None \<Rightarrow> (rnd, s\<lparr>k_ephemeral := Some rnd\<rparr>))"

definition secret_key :: "key_env \<Rightarrow> key_state \<Rightarrow> bytes \<times> key_state" where
  "secret_key e s =
     (case k_cache s of
        Some k \<Rightarrow> (k, s)
      | None \<Rightarrow>
          if ke_read_error e then make_ephemeral (ke_random1 e) s
          else (case k_file s of
            Some key \<Rightarrow>
              if 32 \<le> length key then (key, s\<lparr>k_cache := Some key\<rparr>)
              else if ke_write_error e then make_ephemeral (ke_random2 e) s
              else (ke_random1 e, s\<lparr>k_cache := Some (ke_random1 e), k_file := Some (ke_random1 e)\<rparr>)
          | None \<Rightarrow>
              if ke_write_error e then make_ephemeral (ke_random2 e) s
              else (ke_random1 e, s\<lparr>k_cache := Some (ke_random1 e), k_file := Some (ke_random1 e)\<rparr>)))"

section \<open>Passwords\<close>

definition hex_lower_digit :: "nat \<Rightarrow> char" where
  "hex_lower_digit n = (if n < 10 then chr (48 + n) else chr (87 + n))"

definition hex_val :: "char \<Rightarrow> nat option" where
  "hex_val c =
     (if is_digit c then Some (ord c - 48)
      else if 97 \<le> ord c \<and> ord c \<le> 102 then Some (ord c - 87)
      else if 65 \<le> ord c \<and> ord c \<le> 70 then Some (ord c - 55) else None)"

definition hex :: "bytes \<Rightarrow> string" where
  "hex bs = concat (map (\<lambda>b. [hex_lower_digit (unat b div 16), hex_lower_digit (unat b mod 16)]) bs)"

text \<open>\<^verbatim>\<open>bytes.fromhex\<close>: ASCII white space is skipped before each pair.\<close>

fun fromhex :: "string \<Rightarrow> bytes option" where
  "fromhex [] = Some []"
| "fromhex [c] = (if wrap_space c then Some [] else None)"
| "fromhex (c # d # cs) =
     (if wrap_space c then fromhex (d # cs)
      else (case (hex_val c, hex_val d) of
        (Some h, Some l) \<Rightarrow> map_option ((#) (byte_of (h * 16 + l))) (fromhex cs)
      | _ \<Rightarrow> None))"

definition hash_password :: "auth_lib \<Rightarrow> bytes \<Rightarrow> string \<Rightarrow> string result" where
  "hash_password L salt password =
     rbind (scrypt L (utf8 password) salt (int SCRYPT_N, 8, 1) 32) (\<lambda>dk.
       Inr (''scrypt$'' @ show_nat SCRYPT_N @ ''$'' @ show_nat 8 @ ''$'' @ show_nat 1 @ ''$''
            @ hex salt @ ''$'' @ hex dk))"

text \<open>Every exception of \<^verbatim>\<open>verify_password\<close>, also a wrong number of fields, is caught.\<close>

definition verify_password :: "auth_lib \<Rightarrow> string \<Rightarrow> string \<Rightarrow> bool" where
  "verify_password L password stored =
     (case split_at CHR ''$'' stored of
        [scheme, n, r, p, salt_hex, hash_hex] \<Rightarrow>
          if scheme \<noteq> ''scrypt'' then False
          else (case (fromhex hash_hex, fromhex salt_hex, py_int n, py_int r, py_int p) of
            (Some expected, Some salt, Some n', Some r', Some p') \<Rightarrow>
              (case scrypt L (utf8 password) salt (n', r', p') (length expected) of
                 Inr dk \<Rightarrow> dk = expected | Inl _ \<Rightarrow> False)
          | _ \<Rightarrow> False)
      | _ \<Rightarrow> False)"

text \<open>\<^const>\<open>None\<close> is a value that is not text.\<close>

definition validate_new_password :: "string option \<Rightarrow> bool \<times> string" where
  "validate_new_password pw =
     (case pw of
        None \<Rightarrow> (False, ''Password must be text.'')
      | Some s \<Rightarrow>
          if length s < MIN_PASSWORD_LEN then
            (False, ''Password must be at least '' @ show_nat MIN_PASSWORD_LEN @ '' characters.'')
          else if MAX_PASSWORD_LEN < length s then (False, ''Password is too long.'')
          else if strip s = [] then (False, ''Password cannot be blank.'')
          else (True, []))"

section \<open>Session tokens\<close>

definition sign :: "auth_lib \<Rightarrow> bytes \<Rightarrow> bytes \<Rightarrow> string" where
  "sign L key pl = (let body = b64e pl in
     body @ ''.'' @ b64e (hmac_sha256 L key (bytes_of body)))"

definition unsign :: "auth_lib \<Rightarrow> bytes \<Rightarrow> string \<Rightarrow> pyval option" where
  "unsign L key token =
     (case partition_at CHR ''.'' token of
        (body, True, sig) \<Rightarrow>
          if is_ascii body \<and> b64d sig = Some (hmac_sha256 L key (bytes_of body)) then
            Option.bind (b64d body) (json_loads L)
          else None
      | _ \<Rightarrow> None)"

definition session_payload :: "nat \<Rightarrow> bytes" where
  "session_payload expiry = bytes_of (''{\"exp\": '' @ show_nat expiry @ ''}'')"

definition issue_session :: "auth_lib \<Rightarrow> bytes \<Rightarrow> nat \<Rightarrow> string" where
  "issue_session L key now = sign L key (session_payload (now + SESSION_TTL))"

definition session_valid :: "auth_lib \<Rightarrow> bytes \<Rightarrow> nat \<Rightarrow> string \<Rightarrow> bool result" where
  "session_valid L key now token =
     (case unsign L key token of
        None \<Rightarrow> Inr False
      | Some data \<Rightarrow>
          if \<not> truthy data then Inr False
          else (case rbind (py_get data ''exp'' (PInt 0)) int_of of
            Inr v \<Rightarrow> Inr (v > int now)
          | Inl (TypeError _) \<Rightarrow> Inr False
          | Inl (ValueError _) \<Rightarrow> Inr False
          | Inl e \<Rightarrow> Inl e))"

text \<open>\<^verbatim>\<open>hmac.compare_digest\<close> on text refuses anything but ASCII.\<close>

definition csrf_ok :: "string \<Rightarrow> string \<Rightarrow> bool result" where
  "csrf_ok cookie_val header_val =
     (if cookie_val = [] \<or> header_val = [] then Inr False
      else if \<not> is_ascii cookie_val \<or> \<not> is_ascii header_val then
        Inl (TypeError ''comparing strings with non-ASCII characters is not supported'')
      else Inr (cookie_val = header_val))"

section \<open>Gating\<close>

text \<open>\<^verbatim>\<open>str(cfg.get(section, {}).get(k, "")).strip()\<close>.\<close>

definition cfg_text :: "pylib \<Rightarrow> dict \<Rightarrow> string \<Rightarrow> string \<Rightarrow> string result" where
  "cfg_text P cfg section k =
     rbind (py_get (PDict cfg) section (PDict [])) (\<lambda>s.
     rbind (py_get s k (PStr [])) (\<lambda>v. Inr (strip (py_str P v))))"

definition dashboard_password_set :: "pylib \<Rightarrow> dict \<Rightarrow> bool result" where
  "dashboard_password_set P cfg = rbind (cfg_text P cfg ''web'' ''dashboard_password_hash'') (\<lambda>h. Inr (h \<noteq> []))"

definition callsign_valid :: "pylib \<Rightarrow> dict \<Rightarrow> bool result" where
  "callsign_valid P cfg =
     rbind (cfg_text P cfg ''station'' ''callsign'') (\<lambda>c. Inr (upper c \<notin> {[], ''N0CALL''}))"

definition auth_required :: "pylib \<Rightarrow> dict \<Rightarrow> bool result" where
  "auth_required P cfg = dashboard_password_set P cfg"

definition safe_next :: "string \<Rightarrow> string" where
  "safe_next path = (if \<not> startswith ''/'' path \<or> startswith ''//'' path then ''/admin'' else path)"

lemma hex_val_lower:
  "n < 16 \<Longrightarrow> hex_val (hex_lower_digit n) = Some n \<and> \<not> wrap_space (hex_lower_digit n) \<and> hex_lower_digit n \<noteq> CHR ''$''"
  by (auto simp: hex_lower_digit_def hex_val_def is_digit_def wrap_space_def ord_chr chr_eq)

lemma hex_no_dollar: "CHR ''$'' \<notin> set (hex bs)"
proof -
  have "hex_lower_digit (unat (b::byte) div 16) \<noteq> CHR ''$''" "hex_lower_digit (unat b mod 16) \<noteq> CHR ''$''" for b
    using byte_div(2) [of b] by (simp_all add: hex_val_lower)
  then show ?thesis by (auto simp: hex_def dest: sym)
qed

lemma fromhex_hex [simp]: "fromhex (hex bs) = Some bs"
proof (induction bs)
  case (Cons b bs)
  then show ?case
    by (simp add: hex_def hex_val_lower byte_div)
qed (simp add: hex_def)

section \<open>Tokens are authentic and expire\<close>

lemma bytes_of_ascii: "is_ascii (b64e raw)"
  by simp

lemma unsign_sign: "unsign L key (sign L key pl) = json_loads L pl"
  by (simp add: unsign_def sign_def Let_def partition_at_append)

lemma unsign_mac:
  "unsign L key token = Some v \<Longrightarrow>
   \<exists>body sig. token = body @ ''.'' @ sig \<and> b64d sig = Some (hmac_sha256 L key (bytes_of body))"
proof -
  assume u: "unsign L key token = Some v"
  obtain body f sig where p: "partition_at CHR ''.'' token = (body, f, sig)" by (metis prod_cases3)
  with u have f: "f" "b64d sig = Some (hmac_sha256 L key (bytes_of body))"
    by (auto simp: unsign_def split: bool.splits if_splits)
  have "partition_at c s = (a, True, b) \<Longrightarrow> s = a @ c # b" for c :: char and s a b
    by (induction s arbitrary: a) (auto split: if_splits prod.splits)
  with p f have "token = body @ ''.'' @ sig" by simp
  with f show ?thesis by blast
qed

lemma issued_session_valid:
  assumes "json_loads L (session_payload (now + SESSION_TTL))
             = Some (PDict [(''exp'', PInt (int (now + SESSION_TTL)))])"
  shows "session_valid L key now' (issue_session L key now) = Inr (now' < now + 12 * 3600)"
  using assms by (auto simp: session_valid_def issue_session_def unsign_sign SESSION_TTL_def)

text \<open>C13. A session token is accepted only if it ends in the signature of its body under the
  key, and a token the server issued is accepted for exactly twelve hours, whatever
  \<^verbatim>\<open>json.loads\<close> does elsewhere than on the text the server wrote.\<close>

theorem session_tokens_authentic:
  assumes "json_loads L (session_payload (now + SESSION_TTL))
             = Some (PDict [(''exp'', PInt (int (now + SESSION_TTL)))])"
  shows "session_valid L key now' (issue_session L key now) = Inr (now' < now + 12 * 3600)
    \<and> (session_valid L key now' token = Inr True \<longrightarrow>
         (\<exists>body sig. token = body @ ''.'' @ sig \<and> b64d sig = Some (hmac_sha256 L key (bytes_of body))))"
proof (intro conjI impI)
  show "session_valid L key now' (issue_session L key now) = Inr (now' < now + 12 * 3600)"
    using assms by (rule issued_session_valid)
next
  assume "session_valid L key now' token = Inr True"
  then obtain v where "unsign L key token = Some v"
    by (auto simp: session_valid_def split: option.splits)
  then show "\<exists>body sig. token = body @ ''.'' @ sig \<and> b64d sig = Some (hmac_sha256 L key (bytes_of body))"
    by (rule unsign_mac)
qed

text \<open>A library: the mac and the password hash join their arguments, and \<^verbatim>\<open>json.loads\<close> reads
  the one member the server writes.\<close>

definition sample_lib :: auth_lib where
  "sample_lib = \<lparr>hmac_sha256 = (\<lambda>k m. take 4 k @ rev m),
     scrypt = (\<lambda>pw salt cost n. Inr (take n (pw @ salt @ replicate n 0))),
     json_loads = (\<lambda>b. case dec_nat (butlast (drop 8 (map (\<lambda>w. chr (unat w)) b))) of
        None \<Rightarrow> None | Some n \<Rightarrow> Some (PDict [(''exp'', PInt (int n))]))\<rparr>"

lemma unsigned_of_ord: "map (\<lambda>w. chr (unat w)) (bytes_of s) = s"
  by (induction s) (simp_all add: bytes_of_def unat_of_nat take_bit_nat_eq_self)

lemma sample_loads: "json_loads sample_lib (session_payload n) = Some (PDict [(''exp'', PInt (int n))])"
  by (simp add: sample_lib_def session_payload_def unsigned_of_ord)

theorem session_tokens_authentic_witness:
  "session_valid sample_lib [1, 2, 3] 1000 (issue_session sample_lib [1, 2, 3] 900) = Inr True
   \<and> session_valid sample_lib [1, 2, 3] 44100 (issue_session sample_lib [1, 2, 3] 900) = Inr False"
  using session_tokens_authentic [OF sample_loads, of "[1, 2, 3]" 1000 900]
    session_tokens_authentic [OF sample_loads, of "[1, 2, 3]" 44100 900] by simp

section \<open>Passwords and keys\<close>

lemma dollar_digits: "CHR ''$'' \<notin> set (show_nat n)"
  using show_nat_digits [of n] by (auto simp: list_all_iff is_digit_def)

lemma verify_hashed:
  assumes "hash_password L salt pw = Inr st" and "scrypt L (utf8 pw) salt (int SCRYPT_N, 8, 1) 32 = Inr dk"
    and "length dk = 32"
  shows "verify_password L pw' st \<longleftrightarrow>
         scrypt L (utf8 pw') salt (int SCRYPT_N, 8, 1) 32 = Inr dk"
proof -
  have st: "st = ''scrypt'' @ CHR ''$'' # show_nat SCRYPT_N @ CHR ''$'' # show_nat 8 @ CHR ''$'' # show_nat 1
      @ CHR ''$'' # hex salt @ CHR ''$'' # hex dk"
    using assms(1,2) by (simp add: hash_password_def)
  have scheme: "CHR ''$'' \<notin> set ''scrypt''" by simp
  have "split_at CHR ''$'' st = [''scrypt'', show_nat SCRYPT_N, show_nat 8, show_nat 1, hex salt, hex dk]"
    unfolding st
    by (simp only: split_at_append [OF scheme] split_at_append [OF dollar_digits]
      split_at_append [OF hex_no_dollar] split_at_absent [OF hex_no_dollar])
  then show ?thesis
    using assms(3) by (auto simp: verify_password_def split: sum.split)
qed

text \<open>The hash of a password accepts exactly the passwords from which scrypt derives the
  same 32 bytes under the stored salt.\<close>

theorem password_verifies:
  assumes "hash_password L salt pw = Inr st"
    and "\<And>dk. scrypt L (utf8 pw) salt (int SCRYPT_N, 8, 1) 32 = Inr dk \<Longrightarrow> length dk = 32"
  shows "verify_password L pw st
    \<and> (verify_password L pw' st \<longleftrightarrow>
        scrypt L (utf8 pw') salt (int SCRYPT_N, 8, 1) 32 = scrypt L (utf8 pw) salt (int SCRYPT_N, 8, 1) 32)"
proof -
  obtain dk where dk: "scrypt L (utf8 pw) salt (int SCRYPT_N, 8, 1) 32 = Inr dk"
    using assms(1) by (auto simp: hash_password_def rbind_eq_Inr)
  from verify_hashed [OF assms(1) dk assms(2) [OF dk]] dk show ?thesis by simp
qed

theorem password_verifies_witness:
  "(case hash_password sample_lib [1, 2] ''correct horse'' of
      Inl _ \<Rightarrow> False
    | Inr st \<Rightarrow> verify_password sample_lib ''correct horse'' st \<and> \<not> verify_password sample_lib ''wrong horse'' st)"
proof -
  obtain st where st: "hash_password sample_lib [1, 2] ''correct horse'' = Inr st"
    by (simp add: hash_password_def sample_lib_def)
  have "scrypt sample_lib (utf8 ''wrong horse'') [1, 2] (int SCRYPT_N, 8, 1) 32
      \<noteq> scrypt sample_lib (utf8 ''correct horse'') [1, 2] (int SCRYPT_N, 8, 1) 32"
    by (simp add: sample_lib_def utf8_def utf8_char_def Let_def ord_def)
  with password_verifies [OF st, of "''wrong horse''"] st show ?thesis
    by (simp add: sample_lib_def)
qed

lemma secret_key_kept:
  assumes "secret_key e s = (k, s')" "k_cache s' = Some k"
  shows "secret_key e' s' = (k, s')"
  using assms by (simp add: secret_key_def)

text \<open>Sessions survive a restart: if the first use of the key could read and write the key
  file, every later use, in this process or after a restart that can read the file, has the
  same key, and a token issued before is judged as if nothing had happened.\<close>

theorem key_survives_restart:
  assumes "secret_key e \<lparr>k_cache = None, k_ephemeral = None, k_file = f\<rparr> = (k, s1)"
    and "\<not> ke_read_error e" "\<not> ke_write_error e" "length (ke_random1 e) = 32"
    and "\<not> ke_read_error e2"
  shows "fst (secret_key e2 s1) = k
    \<and> fst (secret_key e2 \<lparr>k_cache = None, k_ephemeral = None, k_file = k_file s1\<rparr>) = k"
  using assms by (auto simp: secret_key_def split: option.splits if_splits)

theorem key_survives_restart_witness:
  "let e = \<lparr>ke_read_error = False, ke_write_error = False, ke_random1 = replicate 32 7, ke_random2 = []\<rparr>;
       e2 = e\<lparr>ke_random1 := replicate 32 9\<rparr>;
       r = secret_key e \<lparr>k_cache = None, k_ephemeral = None, k_file = Some [1, 2, 3]\<rparr>
   in fst (secret_key e2 \<lparr>k_cache = None, k_ephemeral = None, k_file = k_file (snd r)\<rparr>) = replicate 32 7"
proof -
  let ?e = "\<lparr>ke_read_error = False, ke_write_error = False, ke_random1 = replicate 32 7, ke_random2 = []\<rparr>"
  let ?r = "secret_key ?e \<lparr>k_cache = None, k_ephemeral = None, k_file = Some [1, 2, 3]\<rparr>"
  have k: "?r = (replicate 32 7, snd ?r)" by (simp add: secret_key_def)
  show ?thesis
    using key_survives_restart [OF k, of "?e\<lparr>ke_random1 := replicate 32 9\<rparr>"] by (simp add: Let_def)
qed

end
