(* ===== verification/Web_Mail.thy ===== *)
theory Web_Mail
  imports Rf_Send Auth
begin

text \<open>
  The web mail routes of src/src/web/web_app.py: submission, the trustee's actions, the dry-run
  test, the live probe and the live deliveries, one message or a batch, over the CMS or the
  radio. They act on the queue of Mail_Queue through the drivers of B2f_Send and Rf_Send. What
  the outside world does during one delivery is a \<open>world\<close>; \<^const>\<open>None\<close> is a delivery that
  never returns.
\<close>

section \<open>Submission\<close>

definition normalize_lang :: "string \<Rightarrow> string" where
  "normalize_lang lang = (if lang \<in> {''en'', ''es''} then lang else ''en'')"

record submission =
  sb_lang :: string
  sb_csrf :: string
  sb_to :: string
  sb_reply_to :: string
  sb_subject :: string
  sb_body :: string

datatype submit_reply =
    Unavailable
  | Csrf_error
  | Field_errors "(string \<times> string) list"
  | Queue_error
  | Submitted string
  | Submit_raised exn

text \<open>The replies carry the keys of the error texts.\<close>

definition mail_submit ::
    "validator \<Rightarrow> bool \<Rightarrow> string \<Rightarrow> nat \<Rightarrow> string \<Rightarrow> submission \<Rightarrow> mail_store \<Rightarrow> submit_reply \<times> mail_store" where
  "mail_submit ev enabled cookie now rnd sb q =
     (if \<not> enabled then (Unavailable, q)
      else let lang = normalize_lang (sb_lang sb) in
        (case csrf_ok cookie (sb_csrf sb) of
           Inl e \<Rightarrow> (Submit_raised e, q)
         | Inr False \<Rightarrow> (Csrf_error, q)
         | Inr True \<Rightarrow>
             (case validate_submission ev (sb_to sb) (sb_reply_to sb) (sb_subject sb) (sb_body sb) of
                (ok, cleaned, errors) \<Rightarrow>
                  if \<not> ok then (Field_errors errors, q)
                  else (case enqueue now rnd (cl_to cleaned) (cl_reply_to cleaned) (cl_subject cleaned)
                               (cl_body cleaned) lang q of
                    Inl e \<Rightarrow> (Queue_error, q)
                  | Inr (r, q') \<Rightarrow> (Submitted (''/mail/sent?lang='' @ lang), q')))))"

section \<open>The trustee's actions\<close>

definition APPROVE_FROM :: "string set" where
  "APPROVE_FROM = {''Holding'', ''Rejected'', ''Failed''}"

definition REJECT_FROM :: "string set" where
  "REJECT_FROM = {''Holding'', ''Approved'', ''Failed''}"

text \<open>One id: whether the action was done (otherwise it was skipped), and the queue.\<close>

definition move_from :: "string set \<Rightarrow> string \<Rightarrow> mail \<Rightarrow> string \<Rightarrow> mail_store \<Rightarrow> bool result \<times> mail_store" where
  "move_from from target rec mid q =
     (if m_status rec \<in> from then
        (case set_status mid target no_fields q of
           Inl e \<Rightarrow> (Inl e, q)
         | Inr (_, q') \<Rightarrow> (Inr True, q'))
      else (Inr False, q))"

definition act_one :: "string \<Rightarrow> string \<Rightarrow> mail_store \<Rightarrow> bool result \<times> mail_store" where
  "act_one action mid q =
     (case get_mail mid q of
        None \<Rightarrow> (Inr False, q)
      | Some rec \<Rightarrow>
          if action = ''approve'' then move_from APPROVE_FROM ''Approved'' rec mid q
          else if action = ''reject'' then move_from REJECT_FROM ''Rejected'' rec mid q
          else if action = ''delete'' then (case delete_mail mid q of (d, q') \<Rightarrow> (Inr d, q'))
          else (Inr False, q))"

fun act_each :: "string \<Rightarrow> string list \<Rightarrow> nat \<Rightarrow> nat \<Rightarrow> mail_store \<Rightarrow> (nat \<times> nat) result \<times> mail_store" where
  "act_each action [] n k q = (Inr (n, k), q)"
| "act_each action (mid # ids) n k q =
     (case act_one action mid q of
        (Inl e, q') \<Rightarrow> (Inl e, q')
      | (Inr True, q') \<Rightarrow> act_each action ids (n + 1) k q'
      | (Inr False, q') \<Rightarrow> act_each action ids n (k + 1) q')"

datatype action_reply =
    Refused string
  | Done nat nat "(string \<times> nat) list"
  | Action_raised exn

definition api_messages_action ::
    "string \<Rightarrow> string list \<Rightarrow> bool \<Rightarrow> mail_store \<Rightarrow> action_reply \<times> mail_store" where
  "api_messages_action action ids confirm q =
     (if action \<notin> {''approve'', ''reject'', ''delete''} then (Refused ''Unknown action.'', q)
      else if ids = [] then (Refused ''No messages selected.'', q)
      else if action = ''delete'' \<and> \<not> confirm then (Refused ''Confirmation required to delete.'', q)
      else (case act_each action ids 0 0 q of
        (Inl e, q') \<Rightarrow> (Action_raised e, q')
      | (Inr (n, k), q') \<Rightarrow> (Done n k (counts q'), q')))"

section \<open>Routes and deliveries\<close>

record mail_cfg =
  mc_web :: web_cfg
  mc_rf :: rf_cfg
  mc_method :: string
  mc_auto_route :: bool

record world =
  wd_internet :: bool
  wd_cms :: send_env
  wd_rf :: rf_env

definition resolve_route :: "string \<Rightarrow> mail_cfg \<Rightarrow> bool \<Rightarrow> string" where
  "resolve_route requested cfg internet_up =
     (let req = lower (strip requested) in
      if req \<in> {''cms'', ''tcp'', ''tcpip'', ''tcp-ip''} then ''cms''
      else if req = ''rf'' then ''rf''
      else if req = ''auto'' \<or> (req = [] \<and> mc_auto_route cfg) then (if internet_up then ''cms'' else ''rf'')
      else if mc_method cfg = ''rf'' then ''rf'' else ''cms'')"

text \<open>What the drivers report: \<^verbatim>\<open>ok\<close>, the final status, and the error text.\<close>

record report =
  rp_ok :: bool
  rp_status :: string
  rp_error :: "string option"

definition cms_report ::
    "(bytes \<Rightarrow> bytes) \<Rightarrow> (bytes \<Rightarrow> bytes) \<Rightarrow> web_cfg \<Rightarrow> send_env \<Rightarrow> mail \<Rightarrow> string \<Rightarrow> string \<Rightarrow> string \<Rightarrow> report" where
  "cms_report md5 compress cfg env rec identity version final =
     (case connect_and_run md5 compress cfg env rec (fst (cms_route cfg identity)) (snd (cms_route cfg identity))
             True version of
        Inl e \<Rightarrow> \<lparr>rp_ok = False, rp_status = final, rp_error = None\<rparr>
      | Inr res \<Rightarrow> \<lparr>rp_ok = sr_ok res, rp_status = final, rp_error = map_option exn_text (sr_error res)\<rparr>)"

definition deliver ::
    "(bytes \<Rightarrow> bytes) \<Rightarrow> (bytes \<Rightarrow> bytes) \<Rightarrow> mail_cfg \<Rightarrow> string \<Rightarrow> string \<Rightarrow> string \<Rightarrow> world \<Rightarrow> mail \<Rightarrow> mail_store \<Rightarrow>
     (report result \<times> mail_store) option" where
  "deliver md5 compress cfg version route identity w rec q =
     (if route = ''rf'' then
        (case rf_send_mail md5 compress (mc_web cfg) (mc_rf cfg) (wd_rf w) rec version of
           None \<Rightarrow> None
         | Some (r, acts, frames) \<Rightarrow>
             Some (Inr \<lparr>rp_ok = rr_ok r, rp_status = rr_status r, rp_error = rr_error r\<rparr>, q))
      else
        (case cms_send_mail md5 compress (mc_web cfg) (wd_cms w) rec identity version q of
           (Inl e, q') \<Rightarrow> Some (Inl e, q')
         | (Inr final, q') \<Rightarrow>
             Some (Inr (cms_report md5 compress (mc_web cfg) (wd_cms w) rec identity version final), q')))"

datatype send_reply =
    Need_confirm
  | Not_found
  | Sent_reply bool bool string report
  | Send_failed nat string

text \<open>\<^verbatim>\<open>str(e)\<close>.\<close>

fun exn_str :: "exn \<Rightarrow> string" where
  "exn_str (ValueError m) = m"
| "exn_str IndexError = ''index out of range''"
| "exn_str (TypeError m) = m"
| "exn_str (ConnectionError m) = m"
| "exn_str (TimeoutError m) = []"
| "exn_str OverflowError = []"
| "exn_str (OSError m) = m"
| "exn_str (AppError c m) = m"

text \<open>The three handlers of \<^verbatim>\<open>api_messages_send\<close>: a refusal of the driver, a message that cannot
  be built, and anything else.\<close>

definition send_failure :: "exn \<Rightarrow> send_reply" where
  "send_failure e =
     (case e of
        AppError c m \<Rightarrow>
          if c = ''DeliveryError'' then Send_failed 400 m
          else if c = ''BuildError'' then Send_failed 400 (''Cannot build message: '' @ m)
          else Send_failed 500 (''Send failed: '' @ m)
      | _ \<Rightarrow> Send_failed 500 (''Send failed: '' @ exn_str e))"

definition api_messages_send ::
    "(bytes \<Rightarrow> bytes) \<Rightarrow> (bytes \<Rightarrow> bytes) \<Rightarrow> mail_cfg \<Rightarrow> string \<Rightarrow> bool \<Rightarrow> string \<Rightarrow> string \<Rightarrow> string \<Rightarrow> world \<Rightarrow>
     mail_store \<Rightarrow> (send_reply \<times> mail_store) option" where
  "api_messages_send md5 compress cfg version confirm mid route identity w q =
     (if \<not> confirm then Some (Need_confirm, q)
      else (case get_mail mid q of
        None \<Rightarrow> Some (Not_found, q)
      | Some rec \<Rightarrow>
          let r = resolve_route route cfg (wd_internet w) in
          (case deliver md5 compress cfg version r identity w rec q of
             None \<Rightarrow> None
           | Some (Inl e, q') \<Rightarrow> Some (send_failure e, q')
           | Some (Inr rep, q') \<Rightarrow> Some (Sent_reply (rp_ok rep) (rp_status rep = ''Sent'') r rep, q'))))"

definition BULK_SEND_MAX :: nat where "BULK_SEND_MAX = 25"

record bulk_item =
  bi_id :: string
  bi_sent :: bool
  bi_status :: "string option"
  bi_error :: "string option"

text \<open>One id of the batch: its result, the queue, and the worlds left for the later deliveries.
  A message that is missing or in another state than Approved or Failed takes none.\<close>

definition bulk_one ::
    "(bytes \<Rightarrow> bytes) \<Rightarrow> (bytes \<Rightarrow> bytes) \<Rightarrow> mail_cfg \<Rightarrow> string \<Rightarrow> string \<Rightarrow> string \<Rightarrow> world list \<Rightarrow> string \<Rightarrow> mail_store \<Rightarrow>
     (bulk_item \<times> world list \<times> mail_store) option" where
  "bulk_one md5 compress cfg version route identity ws mid q =
     (case get_mail mid q of
        None \<Rightarrow> Some (\<lparr>bi_id = mid, bi_sent = False, bi_status = None, bi_error = Some ''not found''\<rparr>, ws, q)
      | Some rec \<Rightarrow>
          if m_status rec \<notin> {''Approved'', ''Failed''} then
            Some (\<lparr>bi_id = mid, bi_sent = False, bi_status = None,
              bi_error = Some (''status '' @ m_status rec @ '' (not Approved)'')\<rparr>, ws, q)
          else (case ws of
            [] \<Rightarrow> None
          | w # ws' \<Rightarrow>
              (case deliver md5 compress cfg version route identity w rec q of
                 None \<Rightarrow> None
               | Some (Inl e, q') \<Rightarrow>
                   Some (\<lparr>bi_id = mid, bi_sent = False, bi_status = None, bi_error = Some (exn_text e)\<rparr>, ws', q')
               | Some (Inr rep, q') \<Rightarrow>
                   Some (\<lparr>bi_id = mid, bi_sent = (rp_status rep = ''Sent''), bi_status = Some (rp_status rep),
                     bi_error = rp_error rep\<rparr>, ws', q'))))"

fun bulk_each ::
    "(bytes \<Rightarrow> bytes) \<Rightarrow> (bytes \<Rightarrow> bytes) \<Rightarrow> mail_cfg \<Rightarrow> string \<Rightarrow> string \<Rightarrow> string \<Rightarrow> world list \<Rightarrow> string list \<Rightarrow>
     mail_store \<Rightarrow> (bulk_item list \<times> mail_store) option" where
  "bulk_each md5 compress cfg version route identity ws [] q = Some ([], q)"
| "bulk_each md5 compress cfg version route identity ws (mid # ids) q =
     (case bulk_one md5 compress cfg version route identity ws mid q of
        None \<Rightarrow> None
      | Some (it, ws', q') \<Rightarrow>
          (case bulk_each md5 compress cfg version route identity ws' ids q' of
             None \<Rightarrow> None
           | Some (items, q2) \<Rightarrow> Some (it # items, q2)))"

datatype bulk_reply =
    Bulk_refused string
  | Bulk string nat nat "bulk_item list"

definition api_messages_send_bulk ::
    "(bytes \<Rightarrow> bytes) \<Rightarrow> (bytes \<Rightarrow> bytes) \<Rightarrow> mail_cfg \<Rightarrow> string \<Rightarrow> bool \<Rightarrow> string list \<Rightarrow> string \<Rightarrow> string \<Rightarrow> bool \<Rightarrow>
     world list \<Rightarrow> mail_store \<Rightarrow> (bulk_reply \<times> mail_store) option" where
  "api_messages_send_bulk md5 compress cfg version confirm ids route identity internet ws q =
     (if \<not> confirm then Some (Bulk_refused ''Confirmation required to send.'', q)
      else if ids = [] then Some (Bulk_refused ''No messages selected.'', q)
      else if BULK_SEND_MAX < length ids then
        Some (Bulk_refused (''Too many selected (max '' @ show_nat BULK_SEND_MAX @ '' per batch).''), q)
      else let r = resolve_route route cfg internet in
        (case bulk_each md5 compress cfg version r identity ws ids q of
           None \<Rightarrow> None
         | Some (items, q') \<Rightarrow>
             Some (Bulk r (length (filter bi_sent items)) (length ids) items, q')))"

section \<open>The live probe\<close>

datatype probe_reply =
    Probe_not_found
  | Probe_rf rf_result
  | Probe_cms send_result
  | Probe_both send_result send_result
  | Probe_failed nat string

definition probe_failure :: "exn \<Rightarrow> probe_reply" where
  "probe_failure e =
     (case e of
        AppError c m \<Rightarrow>
          if c = ''DeliveryError'' then Probe_failed 400 m
          else if c = ''BuildError'' then Probe_failed 400 (''Cannot build message: '' @ m)
          else Probe_failed 500 (''Probe failed: '' @ m)
      | _ \<Rightarrow> Probe_failed 500 (''Probe failed: '' @ exn_str e))"

definition probe_both ::
    "(bytes \<Rightarrow> bytes) \<Rightarrow> (bytes \<Rightarrow> bytes) \<Rightarrow> web_cfg \<Rightarrow> send_env \<Rightarrow> send_env \<Rightarrow> mail \<Rightarrow> string \<Rightarrow>
     (send_result \<times> send_result) result" where
  "probe_both md5 compress cfg env1 env2 rec version =
     (if wc_dry_run cfg then Inl (DeliveryError ''dry_run is enabled'')
      else rbind (cms_probe md5 compress cfg env1 rec ''station'' version) (\<lambda>a.
           rbind (cms_probe md5 compress cfg env2 rec ''gateway'' version) (\<lambda>b. Inr (a, b))))"

text \<open>\<open>w\<close> is the world of the first connection, \<open>env2\<close> that of the second one of "both".\<close>

definition api_messages_probe ::
    "(bytes \<Rightarrow> bytes) \<Rightarrow> (bytes \<Rightarrow> bytes) \<Rightarrow> mail_cfg \<Rightarrow> string \<Rightarrow> string \<Rightarrow> string \<Rightarrow> string \<Rightarrow> world \<Rightarrow> send_env \<Rightarrow>
     mail_store \<Rightarrow> probe_reply option" where
  "api_messages_probe md5 compress cfg version mid route identity w env2 q =
     (case get_mail mid q of
        None \<Rightarrow> Some Probe_not_found
      | Some rec \<Rightarrow>
          if resolve_route route cfg (wd_internet w) = ''rf'' then
            (case rf_probe md5 compress (mc_web cfg) (mc_rf cfg) (wd_rf w) rec version of
               None \<Rightarrow> None
             | Some (r, acts, frames) \<Rightarrow> Some (Probe_rf r))
          else if identity = ''both'' then
            Some (case probe_both md5 compress (mc_web cfg) (wd_cms w) env2 rec version of
               Inl e \<Rightarrow> probe_failure e
             | Inr (a, b) \<Rightarrow> Probe_both a b)
          else
            Some (case cms_probe md5 compress (mc_web cfg) (wd_cms w) rec identity version of
               Inl e \<Rightarrow> probe_failure e
             | Inr a \<Rightarrow> Probe_cms a))"

section \<open>How an operation moves messages\<close>

definition same_mail :: "mail \<Rightarrow> mail \<Rightarrow> bool" where
  "same_mail r r' \<longleftrightarrow> m_id r' = m_id r \<and> m_created r' = m_created r \<and> m_to r' = m_to r
     \<and> m_reply_to r' = m_reply_to r \<and> m_subject r' = m_subject r \<and> m_body r' = m_body r \<and> m_lang r' = m_lang r"

text \<open>Every message of the second queue was in the first one, with the same contents, and its
  status went along \<open>R\<close>.\<close>

definition moved :: "(string \<Rightarrow> string \<Rightarrow> bool) \<Rightarrow> mail_store \<Rightarrow> mail_store \<Rightarrow> bool" where
  "moved R q q' \<longleftrightarrow> (\<forall>k r'. get_mail k q' = Some r' \<longrightarrow>
     (\<exists>r. get_mail k q = Some r \<and> same_mail r r' \<and> R (m_status r) (m_status r')))"

lemma same_mail_refl [simp]: "same_mail r r"
  by (simp add: same_mail_def)

lemma same_mail_trans: "same_mail a b \<Longrightarrow> same_mail b c \<Longrightarrow> same_mail a c"
  by (simp add: same_mail_def)

lemma same_mail_merge [simp]: "same_mail r (merge_fields f r)"
  by (simp add: same_mail_def merge_fields_def)

lemma moved_refl: "(\<And>s. R s s) \<Longrightarrow> moved R q q"
  by (auto simp: moved_def)

lemma moved_trans:
  assumes "\<And>a b c. R a b \<Longrightarrow> R b c \<Longrightarrow> R a c" "moved R q1 q2" "moved R q2 q3"
  shows "moved R q1 q3"
  unfolding moved_def
proof (intro allI impI)
  fix k r3 assume "get_mail k q3 = Some r3"
  with assms(3) obtain r2 where 2: "get_mail k q2 = Some r2" "same_mail r2 r3" "R (m_status r2) (m_status r3)"
    by (auto simp: moved_def)
  with assms(2) obtain r1 where "get_mail k q1 = Some r1" "same_mail r1 r2" "R (m_status r1) (m_status r2)"
    by (auto simp: moved_def)
  with 2 assms(1) same_mail_trans
  show "\<exists>r. get_mail k q1 = Some r \<and> same_mail r r3 \<and> R (m_status r) (m_status r3)" by blast
qed

lemma moved_mono: "moved R q q' \<Longrightarrow> (\<And>a b. R a b \<Longrightarrow> S a b) \<Longrightarrow> moved S q q'"
  unfolding moved_def by blast

lemma moved_status:
  assumes "get_mail mid q = Some r" "s \<in> set STATES" "set_status mid s f q = Inr (x, q')"
    "R (m_status r) s" "\<And>s. R s s"
  shows "moved R q q'" "get_mail mid q' = Some (merge_fields (f\<lparr>up_status := Some s\<rparr>) r)"
    "k \<noteq> mid \<Longrightarrow> get_mail k q' = get_mail k q"
proof -
  have id: "safe_id mid" using assms(1) by (simp add: get_mail_def split: if_splits)
  from assms(3) set_status_result [OF assms(1,2), of f]
  have q': "q' = store mid (merge_fields (f\<lparr>up_status := Some s\<rparr>) r) q" by simp
  show "moved R q q'" "get_mail mid q' = Some (merge_fields (f\<lparr>up_status := Some s\<rparr>) r)"
    "k \<noteq> mid \<Longrightarrow> get_mail k q' = get_mail k q"
    using assms(1,4,5) id by (auto simp: moved_def q' get_mail_store split: if_splits)
qed

lemma get_mail_delete: "get_mail k (snd (delete_mail mid q)) = (if fst (delete_mail mid q) \<and> k = mid then None else get_mail k q)"
proof -
  have "map_of (filter (\<lambda>(k, v). k \<noteq> mid) q) k = (if k = mid then None else map_of q k)"
    by (induction q) auto
  then show ?thesis by (auto simp: delete_mail_def get_mail_def)
qed

lemma moved_delete: "(\<And>s. R s s) \<Longrightarrow> moved R q (snd (delete_mail mid q))"
  by (auto simp: moved_def get_mail_delete split: if_splits)

section \<open>The trustee's actions move messages along their table\<close>

definition action_moves :: "string \<Rightarrow> string \<Rightarrow> bool" where
  "action_moves s t \<longleftrightarrow> s = t \<or> (s \<in> APPROVE_FROM \<and> t = ''Approved'') \<or> (s \<in> REJECT_FROM \<and> t = ''Rejected'')"

lemma action_moves_trans: "action_moves a b \<Longrightarrow> action_moves b c \<Longrightarrow> action_moves a c"
  by (auto simp: action_moves_def APPROVE_FROM_def REJECT_FROM_def)

lemma move_from_moved:
  assumes "move_from from target rec mid q = (x, q')" "get_mail mid q = Some rec" "target \<in> set STATES"
    "m_status rec \<in> from \<Longrightarrow> action_moves (m_status rec) target" "queue_ok q"
  shows "moved action_moves q q' \<and> queue_ok q'"
proof (cases "m_status rec \<in> from")
  case True
  obtain y q2 where s: "set_status mid target no_fields q = Inr (y, q2)"
    using set_status_result [OF assms(2,3), of no_fields] by simp
  with assms(1) True have "q' = q2" by (simp add: move_from_def)
  with moved_status(1) [OF assms(2,3) s, of action_moves] s assms(4,5) True show ?thesis
    by (auto simp: action_moves_def set_status_def intro: queue_ok_update)
next
  case False
  with assms show ?thesis by (auto simp: move_from_def moved_refl action_moves_def)
qed

lemma act_one_moved:
  assumes "act_one action mid q = (x, q')" "queue_ok q"
  shows "moved action_moves q q' \<and> queue_ok q'"
proof (cases "get_mail mid q")
  case None
  with assms show ?thesis by (auto simp: act_one_def moved_refl action_moves_def)
next
  case (Some rec)
  have st: "''Approved'' \<in> set STATES" "''Rejected'' \<in> set STATES" by (simp_all add: STATES_def)
  consider "action = ''approve''" | "action = ''reject''" | "action = ''delete''"
    | "action \<notin> {''approve'', ''reject'', ''delete''}" by blast
  then show ?thesis
  proof cases
    case 1
    with assms Some have m: "move_from APPROVE_FROM ''Approved'' rec mid q = (x, q')" by (simp add: act_one_def)
    show ?thesis
      by (rule move_from_moved [OF m Some st(1) _ assms(2)]) (simp add: action_moves_def)
  next
    case 2
    with assms Some have m: "move_from REJECT_FROM ''Rejected'' rec mid q = (x, q')" by (simp add: act_one_def)
    show ?thesis
      by (rule move_from_moved [OF m Some st(2) _ assms(2)]) (simp add: action_moves_def)
  next
    case 3
    with assms Some have "q' = snd (delete_mail mid q)" by (simp add: act_one_def split: prod.splits)
    with assms(2) show ?thesis by (simp add: moved_delete queue_ok_delete action_moves_def)
  next
    case 4
    with assms Some show ?thesis by (auto simp: act_one_def moved_refl action_moves_def)
  qed
qed

lemma act_each_moved:
  "act_each action ids n k q = (x, q') \<Longrightarrow> queue_ok q \<Longrightarrow> moved action_moves q q' \<and> queue_ok q'"
proof (induction ids arbitrary: n k q)
  case Nil
  then show ?case by (simp add: moved_refl action_moves_def)
next
  case (Cons mid ids)
  obtain y q1 where o: "act_one action mid q = (y, q1)" by fastforce
  note one = act_one_moved [OF o Cons.prems(2)]
  show ?case
  proof (cases y)
    case (Inl e)
    with Cons.prems(1) o one show ?thesis by simp
  next
    case (Inr d)
    with Cons.prems(1) o obtain n' k' where "act_each action ids n' k' q1 = (x, q')"
      by (cases d) auto
    with Cons.IH one have "moved action_moves q1 q' \<and> queue_ok q'" by blast
    with one moved_trans [of action_moves q q1 q'] action_moves_trans show ?thesis by blast
  qed
qed

lemma act_each_counts:
  "act_each action ids n k q = (Inr (n', k'), q') \<Longrightarrow> n' + k' = n + k + length ids"
proof (induction ids arbitrary: n k q)
  case (Cons mid ids)
  from Cons.prems show ?case
    by (auto split: prod.splits sum.splits bool.splits dest!: Cons.IH)
qed simp

section \<open>Deliveries move messages along theirs\<close>

definition delivery_moves :: "string \<Rightarrow> string \<Rightarrow> bool" where
  "delivery_moves s t \<longleftrightarrow> s = t \<or> (s \<noteq> ''Sent'' \<and> t \<in> {''Sending'', ''Sent'', ''Failed''})"

lemma delivery_moves_refl [simp]: "delivery_moves s s"
  by (simp add: delivery_moves_def)

lemma delivery_moves_trans: "delivery_moves a b \<Longrightarrow> delivery_moves b c \<Longrightarrow> delivery_moves a c"
  by (auto simp: delivery_moves_def)

definition only_moves :: "string \<Rightarrow> mail_store \<Rightarrow> mail_store \<Rightarrow> bool" where
  "only_moves mid q q' \<longleftrightarrow> moved delivery_moves q q' \<and> queue_ok q' \<and> (\<forall>k. k \<noteq> mid \<longrightarrow> get_mail k q' = get_mail k q)"

lemma only_moves_refl: "queue_ok q \<Longrightarrow> only_moves mid q q"
  by (simp add: only_moves_def moved_refl)

lemma only_moves_status:
  assumes "get_mail mid q = Some r" "s \<in> {''Sending'', ''Sent'', ''Failed''}" "m_status r \<noteq> ''Sent''" "queue_ok q"
  obtains q' where "set_status mid s f q = Inr (Some (merge_fields (f\<lparr>up_status := Some s\<rparr>) r), q')"
    "only_moves mid q q'" "get_mail mid q' = Some (merge_fields (f\<lparr>up_status := Some s\<rparr>) r)"
proof -
  have s: "s \<in> set STATES" using assms(2) by (auto simp: STATES_def)
  obtain q' where q': "set_status mid s f q = Inr (Some (merge_fields (f\<lparr>up_status := Some s\<rparr>) r), q')"
    using set_status_result [OF assms(1) s, of f] by simp
  have d: "delivery_moves (m_status r) s" using assms(2,3) by (simp add: delivery_moves_def)
  note m = moved_status [where R = delivery_moves, OF assms(1) s q' d delivery_moves_refl]
  have "queue_ok q'" using q' assms(4) by (auto simp: set_status_def intro: queue_ok_update)
  with m have "only_moves mid q q'" by (simp add: only_moves_def)
  with q' m(2) that show thesis by blast
qed

lemma only_moves_trans: "only_moves mid q1 q2 \<Longrightarrow> only_moves mid q2 q3 \<Longrightarrow> only_moves mid q1 q3"
  unfolding only_moves_def using moved_trans [of delivery_moves q1 q2 q3] delivery_moves_trans by auto

lemma cms_send_moves:
  assumes "cms_send_mail md5 compress cfg env rec identity version q = (x, q')"
    and "get_mail mid q = Some rec" "m_id rec = mid" "queue_ok q"
  shows "only_moves mid q q'"
proof (cases "wc_dry_run cfg \<or> m_status rec = ''Sent''")
  case True
  then have "q' = q"
    using assms(1) by (cases "wc_dry_run cfg") (simp_all add: cms_send_mail_def)
  with assms(4) show ?thesis by (simp add: only_moves_refl)
next
  case False
  let ?route = "no_fields\<lparr>up_route := Some (Some (''cms:'' @ identity))\<rparr>"
  let ?r1 = "merge_fields (?route\<lparr>up_status := Some ''Sending''\<rparr>) rec"
  obtain a b where ab: "cms_route cfg identity = (a, b)" by fastforce
  obtain q1 where 1: "set_status mid ''Sending'' ?route q = Inr (Some ?r1, q1)" "only_moves mid q q1"
    "get_mail mid q1 = Some ?r1"
    using False by (auto intro: only_moves_status [OF assms(2) _ _ assms(4), of "''Sending''" ?route])
  have ok1: "queue_ok q1" using 1(2) by (simp add: only_moves_def)
  show ?thesis
  proof (cases "connect_and_run md5 compress cfg env rec a b True version")
    case (Inl e)
    with False assms(1,3) ab 1(1,2) show ?thesis by (simp add: cms_send_mail_def cms_route_def)
  next
    case (Inr res)
    let ?final = "if delivered_ok res then ''Sent'' else ''Failed''"
    let ?extra = "if delivered_ok res then ?route\<lparr>up_error := Some None\<rparr>
                  else no_fields\<lparr>up_error := Some (Some (failure_text res))\<rparr>"
    have f: "?final \<in> {''Sending'', ''Sent'', ''Failed''}" by simp
    have n: "m_status ?r1 \<noteq> ''Sent''" by simp
    obtain q2 where 2: "set_status mid ?final ?extra q1
        = Inr (Some (merge_fields (?extra\<lparr>up_status := Some ?final\<rparr>) ?r1), q2)" "only_moves mid q1 q2"
      using only_moves_status [OF 1(3) f n ok1, of ?extra] by blast
    have "q' = q2"
      using False assms(1,3) ab 1(1) 2(1) Inr
      by (cases "delivered_ok res") (simp_all add: cms_send_mail_def cms_route_def Let_def)
    with only_moves_trans [OF 1(2) 2(2)] show ?thesis by simp
  qed
qed

lemma deliver_moves:
  assumes "deliver md5 compress cfg version route identity w rec q = Some (x, q')"
    and "get_mail mid q = Some rec" "queue_ok q"
  shows "only_moves mid q q'"
proof -
  have id: "m_id rec = mid" using queue_ok_get [OF assms(3,2)] by simp
  show ?thesis
  proof (cases "route = ''rf''")
    case True
    with assms show ?thesis
      by (auto simp: deliver_def only_moves_refl split: option.splits prod.splits)
  next
    case False
    obtain y q2 where c: "cms_send_mail md5 compress (mc_web cfg) (wd_cms w) rec identity version q = (y, q2)"
      by fastforce
    with False assms(1) have "q' = q2" by (cases y) (simp_all add: deliver_def)
    with cms_send_moves [OF c assms(2) id assms(3)] show ?thesis by simp
  qed
qed

lemma bulk_one_moves:
  assumes "bulk_one md5 compress cfg version route identity ws mid q = Some (it, ws', q')" "queue_ok q"
  shows "only_moves mid q q' \<and> bi_id it = mid
    \<and> (bi_sent it \<longrightarrow> (\<exists>r. get_mail mid q = Some r \<and> m_status r \<in> {''Approved'', ''Failed''}))"
  using assms
  by (auto simp: bulk_one_def only_moves_refl dest: deliver_moves
      split: option.splits if_splits list.splits prod.splits sum.splits)

lemma bulk_each_moves:
  "bulk_each md5 compress cfg version route identity ws ids q = Some (items, q') \<Longrightarrow> queue_ok q \<Longrightarrow>
   moved delivery_moves q q' \<and> queue_ok q' \<and> (\<forall>k. k \<notin> set ids \<longrightarrow> get_mail k q' = get_mail k q)
   \<and> map bi_id items = ids"
proof (induction ids arbitrary: ws q items)
  case Nil
  then show ?case by (simp add: moved_refl)
next
  case (Cons mid ids)
  from Cons.prems(1) obtain it ws1 q1 rest where
    1: "bulk_one md5 compress cfg version route identity ws mid q = Some (it, ws1, q1)" and
    2: "bulk_each md5 compress cfg version route identity ws1 ids q1 = Some (rest, q')" and
    items: "items = it # rest"
    by (auto split: option.splits prod.splits)
  note m1 = bulk_one_moves [OF 1 Cons.prems(2)]
  then have "queue_ok q1" by (simp add: only_moves_def)
  note m2 = Cons.IH [OF 2 this]
  have "moved delivery_moves q q'"
    using m1 m2 moved_trans [of delivery_moves q q1 q'] delivery_moves_trans by (auto simp: only_moves_def)
  with m1 m2 items show ?case by (auto simp: only_moves_def)
qed

lemma bulk_each_eligible:
  "bulk_each md5 compress cfg version route identity ws ids q = Some (items, q') \<Longrightarrow> queue_ok q \<Longrightarrow> distinct ids \<Longrightarrow>
   list_all (\<lambda>it. bi_sent it \<longrightarrow> (\<exists>r. get_mail (bi_id it) q = Some r \<and> m_status r \<in> {''Approved'', ''Failed''})) items"
proof (induction ids arbitrary: ws q items)
  case (Cons mid ids)
  from Cons.prems(1) obtain it ws1 q1 rest where
    1: "bulk_one md5 compress cfg version route identity ws mid q = Some (it, ws1, q1)" and
    2: "bulk_each md5 compress cfg version route identity ws1 ids q1 = Some (rest, q')" and
    items: "items = it # rest"
    by (auto split: option.splits prod.splits)
  note m1 = bulk_one_moves [OF 1 Cons.prems(2)]
  then have ok: "queue_ok q1" by (simp add: only_moves_def)
  have "map bi_id rest = ids" using bulk_each_moves [OF 2 ok] by simp
  then have "get_mail (bi_id x) q1 = get_mail (bi_id x) q" if "x \<in> set rest" for x
  proof -
    have "bi_id x \<noteq> mid" using \<open>map bi_id rest = ids\<close> Cons.prems(3) that by auto
    with m1 show ?thesis by (simp add: only_moves_def)
  qed
  with Cons.IH [OF 2 ok] Cons.prems(3) m1 items show ?case by (simp add: list_all_iff)
qed simp

section \<open>The routes together\<close>

text \<open>One request to the web mail. The random part of a new id makes it fresh; a delivery that
  never returns is no step.\<close>

inductive web_step :: "mail_store \<Rightarrow> mail_store \<Rightarrow> bool" where
  step_submit: "get_mail (new_id now rnd) q = None \<Longrightarrow>
    mail_submit ev enabled cookie now rnd sb q = (r, q') \<Longrightarrow> web_step q q'"
| step_action: "api_messages_action action ids confirm q = (a, q') \<Longrightarrow> web_step q q'"
| step_send: "api_messages_send md5 compress cfg version confirm mid route identity w q = Some (s, q') \<Longrightarrow>
    web_step q q'"
| step_bulk: "api_messages_send_bulk md5 compress cfg version confirm ids route identity up ws q = Some (b, q') \<Longrightarrow>
    web_step q q'"

inductive_cases web_step_E: "web_step q q'"

inductive web_reach :: "mail_store \<Rightarrow> bool" where
  reach_empty: "web_reach []"
| reach_step: "web_reach q \<Longrightarrow> web_step q q' \<Longrightarrow> web_reach q'"

text \<open>The life cycle: what a request may do to the status of a message.\<close>

definition lifecycle :: "string \<Rightarrow> string \<Rightarrow> bool" where
  "lifecycle s t \<longleftrightarrow>
     s = t \<or> (t = ''Approved'' \<and> s \<in> {''Holding'', ''Rejected'', ''Failed''})
     \<or> (t = ''Rejected'' \<and> s \<in> {''Holding'', ''Approved'', ''Failed''})
     \<or> (t \<in> {''Sending'', ''Sent'', ''Failed''} \<and> s \<noteq> ''Sent'')"

definition evolves :: "mail_store \<Rightarrow> mail_store \<Rightarrow> bool" where
  "evolves q q' \<longleftrightarrow> queue_ok q' \<and> (\<forall>k r'. get_mail k q' = Some r' \<longrightarrow>
     (case get_mail k q of
        None \<Rightarrow> m_status r' = ''Holding''
      | Some r \<Rightarrow> same_mail r r' \<and> lifecycle (m_status r) (m_status r')))"

lemma evolves_moved: "moved R q q' \<Longrightarrow> queue_ok q' \<Longrightarrow> (\<And>a b. R a b \<Longrightarrow> lifecycle a b) \<Longrightarrow> evolves q q'"
  by (fastforce simp: evolves_def moved_def)

lemma action_lifecycle: "action_moves a b \<Longrightarrow> lifecycle a b"
  by (auto simp: action_moves_def lifecycle_def APPROVE_FROM_def REJECT_FROM_def)

lemma delivery_lifecycle: "delivery_moves a b \<Longrightarrow> lifecycle a b"
  by (auto simp: delivery_moves_def lifecycle_def)

lemma evolves_refl: "queue_ok q \<Longrightarrow> evolves q q"
  by (rule evolves_moved [of "(=)"]) (auto simp: moved_refl lifecycle_def)

lemma submit_evolves:
  assumes "mail_submit ev enabled cookie now rnd sb q = (r, q')" "get_mail (new_id now rnd) q = None" "queue_ok q"
  shows "evolves q q'"
proof -
  consider "q' = q" | t rt s b l m where "enqueue now rnd t rt s b l q = Inr (m, q')"
    using assms(1) by (auto simp: mail_submit_def Let_def split: if_splits sum.splits bool.splits prod.splits)
  then show ?thesis
  proof cases
    case 1
    with assms(3) show ?thesis by (simp add: evolves_refl)
  next
    case (2 t rt s b l m)
    then have m: "m_id m = new_id now rnd" "m_status m = ''Holding''" "safe_id (m_id m)"
      "q' = store (m_id m) m q"
      by (auto simp: enqueue_def Let_def mail_path_def split: if_splits)
    then have "queue_ok q'" using assms(3) by (auto simp: STATES_def intro: queue_ok_store)
    with m assms(2) show ?thesis
      by (auto simp: evolves_def get_mail_store lifecycle_def split: option.split)
  qed
qed

lemma step_evolves:
  assumes "web_step q q'" "queue_ok q"
  shows "evolves q q'"
  using assms(1)
proof (cases rule: web_step.cases)
  case (step_submit now rnd ev enabled cookie sb r)
  with assms(2) show ?thesis by (blast intro: submit_evolves)
next
  case (step_action action ids confirm a)
  then consider "q' = q" | x where "act_each action ids 0 0 q = (x, q')"
    by (auto simp: api_messages_action_def split: if_splits prod.splits sum.splits)
  then show ?thesis
    using assms(2) by cases (auto simp: evolves_refl dest!: act_each_moved intro: evolves_moved action_lifecycle)
next
  case (step_send md5 compress cfg version confirm mid route identity w s)
  then consider "q' = q" | x rec r where "deliver md5 compress cfg version r identity w rec q = Some (x, q')"
      "get_mail mid q = Some rec"
    by (auto simp: api_messages_send_def Let_def split: if_splits option.splits prod.splits sum.splits)
  then show ?thesis
  proof cases
    case (2 x rec r)
    with deliver_moves [OF 2 assms(2)] show ?thesis
      by (auto simp: only_moves_def intro: evolves_moved delivery_lifecycle)
  qed (simp add: evolves_refl assms(2))
next
  case (step_bulk md5 compress cfg version confirm ids route identity up ws b)
  then consider "q' = q" | items r where "bulk_each md5 compress cfg version r identity ws ids q = Some (items, q')"
    by (auto simp: api_messages_send_bulk_def Let_def split: if_splits option.splits prod.splits)
  then show ?thesis
    using assms(2) by cases (auto simp: evolves_refl dest!: bulk_each_moves intro: evolves_moved delivery_lifecycle)
qed

lemma web_reach_ok: "web_reach q \<Longrightarrow> queue_ok q"
proof (induction rule: web_reach.induct)
  case reach_empty
  show ?case by (simp add: queue_ok_def)
next
  case (reach_step q q')
  then show ?case using step_evolves by (simp add: evolves_def)
qed

section \<open>Properties\<close>


text \<open>A batch reports on every message it was given, in order, at most 25 of them, counts
  those sent, reports none as sent that was not Approved or Failed when its turn came in a batch
  without repeated ids, and leaves every other message alone.\<close>

theorem bulk_send_reports:
  assumes "api_messages_send_bulk md5 compress cfg version True ids route identity up ws q = Some (Bulk r n t items, q')"
    and "queue_ok q"
  shows "map bi_id items = ids \<and> t = length ids \<and> t \<le> 25 \<and> n = length (filter bi_sent items)
    \<and> (distinct ids \<longrightarrow> list_all (\<lambda>it. bi_sent it \<longrightarrow>
         (\<exists>r. get_mail (bi_id it) q = Some r \<and> m_status r \<in> {''Approved'', ''Failed''})) items)
    \<and> (\<forall>k. k \<notin> set ids \<longrightarrow> get_mail k q' = get_mail k q)"
proof -
  obtain r' where b: "bulk_each md5 compress cfg version r' identity ws ids q = Some (items, q')"
    and n: "t = length ids" "t \<le> 25" "n = length (filter bi_sent items)"
    using assms(1)
    by (auto simp: api_messages_send_bulk_def Let_def BULK_SEND_MAX_def split: if_splits option.splits)
  from bulk_each_moves [OF b assms(2)] bulk_each_eligible [OF b assms(2)] n show ?thesis by blast
qed

text \<open>C28. The safety switch: while dry_run is on, no delivery route reports a message as sent,
  changes the queue, touches the RMS service or puts a frame on the air.\<close>

theorem dry_run_sends_nothing:
  assumes "wc_dry_run (mc_web cfg)"
  shows "(\<exists>x. deliver md5 compress cfg version route identity w rec q = Some (x, q)
        \<and> (case x of Inl e \<Rightarrow> True | Inr rep \<Rightarrow> rp_status rep \<noteq> ''Sent'' \<and> \<not> rp_ok rep))
    \<and> (\<exists>r. rf_send_mail md5 compress (mc_web cfg) (mc_rf cfg) (wd_rf w) rec version = Some (r, [], []))"
proof
  have rf: "\<exists>r. rf_send_mail md5 compress (mc_web cfg) (mc_rf cfg) (wd_rf w) rec version = Some (r, [], [])
      \<and> rr_status r \<noteq> ''Sent'' \<and> \<not> rr_ok r"
    using assms by (auto simp: rf_send_mail_def rf_failed_def split: sum.split)
  then show "\<exists>r. rf_send_mail md5 compress (mc_web cfg) (mc_rf cfg) (wd_rf w) rec version = Some (r, [], [])"
    by blast
  from rf assms show "\<exists>x. deliver md5 compress cfg version route identity w rec q = Some (x, q)
        \<and> (case x of Inl e \<Rightarrow> True | Inr rep \<Rightarrow> rp_status rep \<noteq> ''Sent'' \<and> \<not> rp_ok rep)"
    by (cases "route = ''rf''") (auto simp: deliver_def cms_send_mail_def)
qed

definition sample_submission :: submission where
  "sample_submission = \<lparr>sb_lang = ''es'', sb_csrf = ''tok'', sb_to = ''a@b.co'', sb_reply_to = ''c@d.co'',
     sb_subject = ''hi'', sb_body = ''text''\<rparr>"

definition sample_mid :: string where
  "sample_mid = new_id 0 ''1a2b3c4d''"

definition submitted_queue :: mail_store where
  "submitted_queue =
     snd (mail_submit (Some (\<lambda>s. Some s)) True ''tok'' 0 ''1a2b3c4d'' sample_submission [])"

lemma sample_mid_safe: "safe_id sample_mid"
proof -
  have "id_shape (new_id 0 ''1a2b3c4d'')"
    by (rule new_id_shape)
      (simp_all add: gmtime_def find_year.simps year_days_def is_hex_lower_def is_digit_def ord_def split: prod.splits)
  then show ?thesis by (simp add: sample_mid_def safe_id_def)
qed

lemma submitted_queue:
  "\<exists>r. submitted_queue = [(sample_mid, r)] \<and> m_status r = ''Holding'' \<and> m_id r = sample_mid"
proof -
  have c: "csrf_ok ''tok'' ''tok'' = Inr True" by (simp add: csrf_ok_def is_ascii_def ord_def)
  have s: "strip ''a@b.co'' = ''a@b.co''" "strip ''c@d.co'' = ''c@d.co''" "strip ''hi'' = ''hi''" "strip ''text'' = ''text''"
    by (rule strip_id; simp add: is_space_def ord_def Let_def)+
  have t: "sanitize_text ''hi'' = ''hi''" "sanitize_text ''text'' = ''text''"
    by (simp_all add: sanitize_text_def printable_def ord_def)
  have v: "validate_submission (Some (\<lambda>s. Some s)) ''a@b.co'' ''c@d.co'' ''hi'' ''text''
      = (True, \<lparr>cl_to = ''a@b.co'', cl_reply_to = ''c@d.co'', cl_subject = ''hi'', cl_body = ''text''\<rparr>, [])"
    by (simp add: validate_submission_def check_address_def s t EMAIL_HARD_MAX_def SUBJECT_HARD_MAX_def
      BODY_HARD_MAX_def is_ascii_def ord_def Let_def)
  show ?thesis
    using sample_mid_safe
    by (simp add: submitted_queue_def mail_submit_def sample_submission_def c v normalize_lang_def enqueue_def
      mail_path_def sample_mid_def Let_def)
qed

lemma submitted_get: "\<exists>r. get_mail sample_mid submitted_queue = Some r \<and> m_status r = ''Holding''"
proof -
  obtain r where r: "submitted_queue = [(sample_mid, r)]" "m_status r = ''Holding''" using submitted_queue by blast
  have "get_mail sample_mid submitted_queue = Some r" unfolding r(1) using sample_mid_safe by (simp add: get_mail_def)
  with r(2) show ?thesis by blast
qed

lemma submitted_reach: "web_reach submitted_queue"
proof (rule reach_step [OF reach_empty])
  obtain r q where m: "mail_submit (Some (\<lambda>s. Some s)) True ''tok'' 0 ''1a2b3c4d'' sample_submission [] = (r, q)"
    by fastforce
  show "web_step [] submitted_queue"
    using step_submit [of 0 "''1a2b3c4d''" "[]", OF _ m] by (simp add: get_mail_def submitted_queue_def m)
qed


theorem bulk_send_reports_witness:
  "\<exists>items q'. api_messages_send_bulk (\<lambda>_. []) (\<lambda>d. d)
       \<lparr>mc_web = sample_cfg, mc_rf = sample_rf, mc_method = ''cms'', mc_auto_route = True\<rparr> ''1.0'' True
       [sample_mid] ''rf'' ''station'' True [] submitted_queue = Some (Bulk ''rf'' 0 1 items, q')
     \<and> map bi_id items = [sample_mid]"
proof -
  let ?cfg = "\<lparr>mc_web = sample_cfg, mc_rf = sample_rf, mc_method = ''cms'', mc_auto_route = True\<rparr>"
  obtain r where g: "get_mail sample_mid submitted_queue = Some r" and r: "m_status r = ''Holding''"
    using submitted_get by blast
  have rt: "resolve_route ''rf'' ?cfg True = ''rf''"
    by (simp add: resolve_route_def py_eval)
  obtain items where b: "api_messages_send_bulk (\<lambda>_. []) (\<lambda>d. d) ?cfg ''1.0'' True [sample_mid] ''rf'' ''station'' True []
      submitted_queue = Some (Bulk ''rf'' 0 1 items, submitted_queue)"
    using g r rt by (simp add: api_messages_send_bulk_def bulk_one_def BULK_SEND_MAX_def)
  from bulk_send_reports [OF b web_reach_ok [OF submitted_reach]] have "map bi_id items = [sample_mid]" ..
  with b show ?thesis by (intro exI [of _ items] exI [of _ submitted_queue] conjI)
qed

theorem dry_run_sends_nothing_witness:
  "let cfg = \<lparr>mc_web = sample_cfg\<lparr>wc_dry_run := True\<rparr>, mc_rf = sample_rf, mc_method = ''cms'', mc_auto_route = True\<rparr>;
       w = \<lparr>wd_internet = True, wd_cms = refused_env, wd_rf = sample_rf_env\<rparr>
   in \<exists>x. deliver (\<lambda>_. []) (\<lambda>d. d) cfg ''1.0'' ''rf'' ''station'' w sample_mail [] = Some (x, [])"
  using dry_run_sends_nothing
    [of "\<lparr>mc_web = sample_cfg\<lparr>wc_dry_run := True\<rparr>, mc_rf = sample_rf, mc_method = ''cms'', mc_auto_route = True\<rparr>"
      "\<lambda>_. []" "\<lambda>d. d" "''1.0''" "''rf''" "''station''"
      "\<lparr>wd_internet = True, wd_cms = refused_env, wd_rf = sample_rf_env\<rparr>" sample_mail "[]"]
  by (auto simp: Let_def)

end
