(* ===== verification/Web_Gate.thy ===== *)
theory Web_Gate
  imports Auth
begin

text \<open>
  The dashboard's gate and the two handlers that write its configuration (src/src/web/web_app.py):
  the login dependency, the CSRF middleware, login, logout, the password change and the
  configuration save. A request is its method, path, cookies and CSRF header; an exception that
  leaves a handler is the reply \<open>Raised\<close>, which the framework answers with status 500. The
  signing key that \<^verbatim>\<open>auth._secret_key\<close> gives is the argument \<open>key\<close>.
\<close>

section \<open>Requests, replies, state\<close>

record request =
  rq_method :: string
  rq_path :: string
  rq_session :: string
  rq_csrf_cookie :: string
  rq_csrf_header :: string

datatype reply =
    Json nat bool string
  | Redirect string
  | Login_page string
  | Logged_in string string string
  | Raised exn

record web_lib =
  w_auth :: auth_lib
  w_py :: pylib
  w_yaml :: yaml

record web_state =
  ws_config :: config_process
  ws_cached :: "dict option"

definition get_config :: "web_lib \<Rightarrow> web_state \<Rightarrow> dict \<times> web_state" where
  "get_config W s =
     (case ws_cached s of
        Some c \<Rightarrow> (c, s)
      | None \<Rightarrow>
          (case load_config (w_yaml W) DEFAULT_CONFIG (ws_config s) of
             (c, p) \<Rightarrow> (c, s\<lparr>ws_config := p, ws_cached := Some c\<rparr>)))"

section \<open>The gate\<close>

text \<open>\<^const>\<open>None\<close> lets the request through.\<close>

definition require_auth :: "web_lib \<Rightarrow> bytes \<Rightarrow> nat \<Rightarrow> dict \<Rightarrow> request \<Rightarrow> reply option" where
  "require_auth W key now cfg rq =
     (case auth_required (w_py W) cfg of
        Inl e \<Rightarrow> Some (Raised e)
      | Inr False \<Rightarrow> None
      | Inr True \<Rightarrow>
          (case session_valid (w_auth W) key now (rq_session rq) of
             Inl e \<Rightarrow> Some (Raised e)
           | Inr True \<Rightarrow> None
           | Inr False \<Rightarrow>
               if startswith ''/api/'' (rq_path rq) then Some (Json 401 False ''Authentication required'')
               else Some (Redirect (''/admin/login?next='' @ rq_path rq))))"

definition csrf_exempt :: "request \<Rightarrow> bool" where
  "csrf_exempt rq \<longleftrightarrow> rq_path rq = ''/admin/login'' \<or> startswith ''/mail'' (rq_path rq)"

definition unsafe_method :: "request \<Rightarrow> bool" where
  "unsafe_method rq \<longleftrightarrow> rq_method rq \<in> {''POST'', ''PUT'', ''PATCH'', ''DELETE''}"

definition csrf_middleware :: "web_lib \<Rightarrow> dict \<Rightarrow> request \<Rightarrow> reply option" where
  "csrf_middleware W cfg rq =
     (if unsafe_method rq \<and> \<not> csrf_exempt rq then
        (case auth_required (w_py W) cfg of
           Inl e \<Rightarrow> Some (Raised e)
         | Inr False \<Rightarrow> None
         | Inr True \<Rightarrow>
             (case csrf_ok (rq_csrf_cookie rq) (rq_csrf_header rq) of
                Inl e \<Rightarrow> Some (Raised e)
              | Inr True \<Rightarrow> None
              | Inr False \<Rightarrow> Some (Json 403 False ''CSRF validation failed'')))
      else None)"

text \<open>A route that depends on \<^verbatim>\<open>check_auth\<close>: its handler runs only past both checks.\<close>

definition protected ::
    "web_lib \<Rightarrow> bytes \<Rightarrow> nat \<Rightarrow> request \<Rightarrow> (web_state \<Rightarrow> 'r \<times> web_state) \<Rightarrow> web_state \<Rightarrow> (reply + 'r) \<times> web_state" where
  "protected W key now rq handler s =
     (case get_config W s of (cfg, s1) \<Rightarrow>
        (case csrf_middleware W cfg rq of
           Some r \<Rightarrow> (Inl r, s1)
         | None \<Rightarrow>
             (case require_auth W key now cfg rq of
                Some r \<Rightarrow> (Inl r, s1)
              | None \<Rightarrow> (case handler s1 of (r, s2) \<Rightarrow> (Inr r, s2)))))"

section \<open>Login and logout\<close>

definition stored_hash :: "dict \<Rightarrow> pyval result" where
  "stored_hash cfg = rbind (py_item (PDict cfg) ''web'') (\<lambda>w. py_get w ''dashboard_password_hash'' (PStr []))"

definition hash_accepts :: "web_lib \<Rightarrow> string \<Rightarrow> pyval \<Rightarrow> bool" where
  "hash_accepts W password stored =
     (case as_str stored of Some h \<Rightarrow> verify_password (w_auth W) password h | None \<Rightarrow> False)"

definition login_page :: "web_lib \<Rightarrow> string \<Rightarrow> web_state \<Rightarrow> reply \<times> web_state" where
  "login_page W nxt s =
     (case get_config W s of (cfg, s1) \<Rightarrow>
        (case dashboard_password_set (w_py W) cfg of
           Inl e \<Rightarrow> (Raised e, s1)
         | Inr b \<Rightarrow> (if \<not> b then Redirect ''/admin'' else Login_page (safe_next nxt), s1)))"

definition login_submit ::
    "web_lib \<Rightarrow> bytes \<Rightarrow> nat \<Rightarrow> string \<Rightarrow> string \<Rightarrow> string \<Rightarrow> web_state \<Rightarrow> reply \<times> web_state" where
  "login_submit W key now csrf password nxt s =
     (case get_config W s of (cfg, s1) \<Rightarrow>
        (case stored_hash cfg of
           Inl e \<Rightarrow> (Raised e, s1)
         | Inr stored \<Rightarrow>
             (if \<not> truthy stored \<or> \<not> hash_accepts W password stored then Login_page (safe_next nxt)
              else Logged_in (safe_next nxt) (issue_session (w_auth W) key now) csrf, s1)))"

section \<open>Writing the configuration\<close>

record write_env =
  we_rw_writable :: bool
  we_salt :: bytes
  we_save :: save_env

definition not_writable :: string where
  "not_writable = ''Configuration path is not writable. Check /rw/kp4pra-tnc/ mount.''"

definition save_and_forget :: "web_lib \<Rightarrow> write_env \<Rightarrow> dict \<Rightarrow> string \<Rightarrow> web_state \<Rightarrow> reply \<times> web_state" where
  "save_and_forget W e updates done_msg s =
     (case save_config (w_yaml W) DEFAULT_CONFIG (we_save e) updates (ws_config s) of
        ((ok, msg), _, p) \<Rightarrow>
          if \<not> ok then (Json 500 False msg, s\<lparr>ws_config := p\<rparr>)
          else (Json 200 True done_msg, s\<lparr>ws_config := p, ws_cached := None\<rparr>))"

definition password_change :: "string \<Rightarrow> dict" where
  "password_change h = [(''web'', PDict [(''dashboard_password_hash'', PStr h)])]"

definition store_password :: "web_lib \<Rightarrow> write_env \<Rightarrow> string option \<Rightarrow> web_state \<Rightarrow> reply \<times> web_state" where
  "store_password W e new_pw s =
     (case validate_new_password new_pw of
        (False, msg) \<Rightarrow> (Json 400 False msg, s)
      | (True, _) \<Rightarrow>
          if \<not> we_rw_writable e then (Json 503 False not_writable, s)
          else (case hash_password (w_auth W) (we_salt e) (the new_pw) of
            Inl x \<Rightarrow> (Raised x, s)
          | Inr h \<Rightarrow> save_and_forget W e (password_change h)
              ''Dashboard password saved. Authentication is now required for the Admin Dashboard.'' s))"

definition api_dashboard_password ::
    "web_lib \<Rightarrow> write_env \<Rightarrow> string option \<Rightarrow> string \<Rightarrow> web_state \<Rightarrow> reply \<times> web_state" where
  "api_dashboard_password W e new_pw current_pw s =
     (case get_config W s of (cfg, s1) \<Rightarrow>
        (case callsign_valid (w_py W) cfg of
           Inl x \<Rightarrow> (Raised x, s1)
         | Inr False \<Rightarrow> (Json 400 False
             ''Configure a valid station callsign and save before setting a Dashboard password.'', s1)
         | Inr True \<Rightarrow>
             (case dashboard_password_set (w_py W) cfg of
                Inl x \<Rightarrow> (Raised x, s1)
              | Inr False \<Rightarrow> store_password W e new_pw s1
              | Inr True \<Rightarrow>
                  (case rbind (py_item (PDict cfg) ''web'') (\<lambda>w. py_item w ''dashboard_password_hash'') of
                     Inl x \<Rightarrow> (Raised x, s1)
                   | Inr stored \<Rightarrow>
                       if \<not> hash_accepts W current_pw stored then
                         (Json 403 False ''Current password is incorrect.'', s1)
                       else store_password W e new_pw s1))))"

definition api_config_save ::
    "web_lib \<Rightarrow> write_env \<Rightarrow> dict \<Rightarrow> bool \<Rightarrow> web_state \<Rightarrow> reply \<times> web_state" where
  "api_config_save W e updates confirmed s =
     (if \<not> confirmed then (Json 400 False ''Confirmation required'', s)
      else (case validate_config_updates (w_py W) (PDict updates) of
        Inl x \<Rightarrow> (Raised x, s)
      | Inr (False, err) \<Rightarrow> (Json 400 False err, s)
      | Inr (True, _) \<Rightarrow>
          if \<not> we_rw_writable e then (Json 503 False not_writable, s)
          else save_and_forget W e updates
            ''Configuration saved. Some changes require a service restart or reboot.'' s))"

section \<open>What the gate keeps out\<close>

text \<open>C8. On a secured dashboard a protected handler does not run without a valid session, nor
  for an unsafe method without the CSRF token: the reply is a refusal and the state is the one
  after reading the configuration.\<close>

theorem gate_closed:
  assumes "auth_required (w_py W) (fst (get_config W s)) = Inr True"
    and "session_valid (w_auth W) key now (rq_session rq) \<noteq> Inr True
       \<or> (unsafe_method rq \<and> \<not> csrf_exempt rq \<and> csrf_ok (rq_csrf_cookie rq) (rq_csrf_header rq) \<noteq> Inr True)"
  shows "\<exists>r. protected W key now rq handler s = (Inl r, snd (get_config W s))"
  using assms
  by (auto simp: protected_def csrf_middleware_def require_auth_def split: prod.split sum.splits bool.splits)

lemma hash_at_path:
  assumes "get_path [''web'', ''dashboard_password_hash''] cfg = Some (PStr h)"
  shows "auth_required P cfg = Inr (strip h \<noteq> [])" "stored_hash cfg = Inr (PStr h)"
    "dashboard_password_set P cfg = Inr (strip h \<noteq> [])"
  using path2 [OF assms]
  by (auto simp: auth_required_def dashboard_password_set_def cfg_text_def py_str_def stored_hash_def)

lemma hash_not_blank: "hash_password L salt pw = Inr h \<Longrightarrow> strip h \<noteq> []"
proof
  assume h: "hash_password L salt pw = Inr h" and s: "strip h = []"
  from h obtain r where "h = ''scrypt$'' @ r" by (auto simp: hash_password_def rbind_eq_Inr)
  with strip_Nil_visible [OF s] show False by (simp add: is_space_def ord_def)
qed

lemma saved_setting:
  assumes "save_and_forget W e u d s1 = (Json 200 True m, s')"
    and "safe_load (w_yaml W) (yaml_dump (w_yaml W) (deep_merge (fst (load_config (w_yaml W) DEFAULT_CONFIG (ws_config s1))) u))
           = Inr (PDict (deep_merge (fst (load_config (w_yaml W) DEFAULT_CONFIG (ws_config s1))) u))"
    and "proper u" "proper (fst (load_config (w_yaml W) DEFAULT_CONFIG (ws_config s1)))"
    and "leaf v" "get_path p u = Some v"
  shows "get_path p (fst (get_config W s')) = Some v"
proof -
  obtain ok msg ds q where r:
    "save_config (w_yaml W) DEFAULT_CONFIG (we_save e) u (ws_config s1) = ((ok, msg), ds, q)"
    by (metis prod.exhaust)
  with assms(1) have "ok" "s' = s1\<lparr>ws_config := q, ws_cached := None\<rparr>"
    by (auto simp: save_and_forget_def split: if_splits)
  with saved_update [OF r [unfolded eqTrueI [OF \<open>ok\<close>]] assms(2,3,4,5), of p] assms(6)
  have "get_path p (fst (load_config (w_yaml W) DEFAULT_CONFIG q)) = Some v" by simp
  with \<open>s' = _\<close> show ?thesis by (simp add: get_config_def case_prod_beta)
qed

lemma store_password_cases:
  assumes "store_password W e (Some pw) s1 = (Json 200 True m, s')"
  obtains h d where "hash_password (w_auth W) (we_salt e) pw = Inr h"
    "save_and_forget W e (password_change h) d s1 = (Json 200 True m, s')"
  using assms by (auto simp: store_password_def split: prod.splits bool.splits if_splits sum.splits)

lemma dashboard_password_cases:
  assumes "api_dashboard_password W e (Some pw) cur s = (Json 200 True m, s')"
  shows "store_password W e (Some pw) (snd (get_config W s)) = (Json 200 True m, s')"
  using assms by (auto simp: api_dashboard_password_def split: prod.splits bool.splits if_splits sum.splits)

text \<open>C12. A password change that reports success is in force at once: the dashboard asks for a
  login, the new password logs in, the session of that login passes the gate for twelve hours
  and no longer, and a password from which scrypt derives other bytes does not log in.\<close>

theorem password_change_in_force:
  assumes "api_dashboard_password W e (Some pw) cur s = (Json 200 True m, s')"
    and "hash_password (w_auth W) (we_salt e) pw = Inr h"
    and "\<And>dk. scrypt (w_auth W) (utf8 pw) (we_salt e) (int SCRYPT_N, 8, 1) 32 = Inr dk \<Longrightarrow> length dk = 32"
    and "let c = fst (load_config (w_yaml W) DEFAULT_CONFIG (ws_config (snd (get_config W s)))) in
           proper c \<and> safe_load (w_yaml W) (yaml_dump (w_yaml W) (deep_merge c (password_change h)))
             = Inr (PDict (deep_merge c (password_change h)))"
    and "json_loads (w_auth W) (session_payload (now + SESSION_TTL))
           = Some (PDict [(''exp'', PInt (int (now + SESSION_TTL)))])"
  shows "auth_required (w_py W) (fst (get_config W s')) = Inr True
    \<and> fst (login_submit W key now csrf pw nxt s')
           = Logged_in (safe_next nxt) (issue_session (w_auth W) key now) csrf
    \<and> (rq_session rq = issue_session (w_auth W) key now \<longrightarrow>
         (require_auth W key now' (fst (get_config W s')) rq = None \<longleftrightarrow> now' < now + 12 * 3600))
    \<and> (scrypt (w_auth W) (utf8 pw') (we_salt e) (int SCRYPT_N, 8, 1) 32
           \<noteq> scrypt (w_auth W) (utf8 pw) (we_salt e) (int SCRYPT_N, 8, 1) 32 \<longrightarrow>
         fst (login_submit W key now csrf pw' nxt s') = Login_page (safe_next nxt))"
proof -
  let ?s1 = "snd (get_config W s)"
  obtain h' d where h': "hash_password (w_auth W) (we_salt e) pw = Inr h'"
    "save_and_forget W e (password_change h') d ?s1 = (Json 200 True m, s')"
    by (rule store_password_cases [OF dashboard_password_cases [OF assms(1)]])
  with assms(2) have sv: "save_and_forget W e (password_change h) d ?s1 = (Json 200 True m, s')" by simp
  obtain dk where dk: "scrypt (w_auth W) (utf8 pw) (we_salt e) (int SCRYPT_N, 8, 1) 32 = Inr dk"
    using assms(2) by (auto simp: hash_password_def rbind_eq_Inr)
  note verify = verify_hashed [OF assms(2) dk assms(3) [OF dk]]
  have "proper (password_change h)" by (simp add: password_change_def proper_eval)
  then have g: "get_path [''web'', ''dashboard_password_hash''] (fst (get_config W s')) = Some (PStr h)"
    using assms(4) by (intro saved_setting [OF sv]) (simp_all add: Let_def password_change_def)
  note at = hash_at_path [OF g]
  have nb: "strip h \<noteq> []" by (rule hash_not_blank [OF assms(2)])
  then have ne: "h \<noteq> []" by auto
  obtain cfg s2 where c: "get_config W s' = (cfg, s2)" by (cases "get_config W s'")
  have sv': "session_valid (w_auth W) key now' (issue_session (w_auth W) key now) = Inr (now' < now + 12 * 3600)"
    using assms(5) by (rule issued_session_valid)
  show ?thesis
  proof (intro conjI impI)
  show "auth_required (w_py W) (fst (get_config W s')) = Inr True" using at(1) nb by simp
  show "fst (login_submit W key now csrf pw nxt s')
      = Logged_in (safe_next nxt) (issue_session (w_auth W) key now) csrf"
    using at(2) ne c verify dk by (simp add: login_submit_def hash_accepts_def)
  show "require_auth W key now' (fst (get_config W s')) rq = None \<longleftrightarrow> now' < now + 12 * 3600"
    if "rq_session rq = issue_session (w_auth W) key now"
    using at(1) nb that sv' by (auto simp: require_auth_def split: bool.splits)
  show "fst (login_submit W key now csrf pw' nxt s') = Login_page (safe_next nxt)"
    if "scrypt (w_auth W) (utf8 pw') (we_salt e) (int SCRYPT_N, 8, 1) 32
        \<noteq> scrypt (w_auth W) (utf8 pw) (we_salt e) (int SCRYPT_N, 8, 1) 32"
    using at(2) c verify dk that by (simp add: login_submit_def hash_accepts_def)
  qed
qed

definition sample_station :: dict where
  "sample_station = [(''station'', PDict [(''callsign'', PStr ''KP4PRA'')])]"

definition sample_hash :: string where
  "sample_hash = (case hash_password sample_lib [1, 2] ''correct horse'' of Inr h \<Rightarrow> h | Inl _ \<Rightarrow> [])"

definition sample_web :: "string \<Rightarrow> web_lib" where
  "sample_web h = \<lparr>w_auth = sample_lib, w_py = sample_pylib,
     w_yaml = \<lparr>safe_load = (\<lambda>t. Inr (PDict (deep_merge sample_station (password_change h)))),
       yaml_dump = (\<lambda>d. ''yaml'')\<rparr>\<rparr>"

definition sample_web_state :: web_state where
  "sample_web_state = \<lparr>ws_config = \<lparr>cp_disk = \<lparr>dk_cfg = None, dk_tmp = None\<rparr>, cp_cache = Some sample_station\<rparr>,
     ws_cached = Some sample_station\<rparr>"

definition sample_write :: write_env where
  "sample_write = \<lparr>we_rw_writable = True, we_salt = [1, 2], we_save = sample_save_env\<rparr>"

lemma sample_hash: "hash_password sample_lib [1, 2] ''correct horse'' = Inr sample_hash"
  by (simp add: sample_hash_def hash_password_def sample_lib_def)

lemma sample_current: "get_config W sample_web_state = (sample_station, sample_web_state)"
  "fst (load_config Y D (ws_config sample_web_state)) = sample_station"
  by (simp_all add: get_config_def sample_web_state_def load_config_def)

lemma good_save:
  "se_isdir e \<Longrightarrow> se_writable e \<Longrightarrow> se_fails_at e = None \<Longrightarrow>
   \<exists>ds p. save_config Y D e u s = ((True, ''Configuration saved''), ds, p)"
  by (simp add: save_config_def Let_def split: prod.split)

lemma good_save_and_forget:
  assumes "se_isdir (we_save e)" "se_writable (we_save e)" "se_fails_at (we_save e) = None"
  shows "\<exists>s'. save_and_forget W e u m s = (Json 200 True m, s')"
  using good_save [OF assms, of "w_yaml W" DEFAULT_CONFIG u "ws_config s"]
  by (auto simp: save_and_forget_def)

lemma sample_save_ok: "se_isdir (we_save sample_write)" "se_writable (we_save sample_write)"
  "se_fails_at (we_save sample_write) = None"
  by (simp_all add: sample_write_def sample_save_env_def)

theorem password_change_in_force_witness:
  "let W = sample_web sample_hash;
       s' = snd (api_dashboard_password W sample_write (Some ''correct horse'') [] sample_web_state)
   in fst (login_submit W [5] 100 ''c'' ''correct horse'' ''/services'' s')
        = Logged_in ''/services'' (issue_session sample_lib [5] 100) ''c''
      \<and> fst (login_submit W [5] 100 ''c'' ''wrong horse'' ''/services'' s') = Login_page ''/services''"
proof -
  let ?W = "sample_web sample_hash"
  let ?r = "api_dashboard_password ?W sample_write (Some ''correct horse'') [] sample_web_state"
  have v: "validate_new_password (Some ''correct horse'') = (True, [])"
    by (simp add: validate_new_password_def MIN_PASSWORD_LEN_def MAX_PASSWORD_LEN_def strip_def lstrip_def
      rstrip_def is_space_def ord_def)
  have cs: "callsign_valid (w_py ?W) sample_station = Inr True"
    by (simp add: callsign_valid_def cfg_text_def sample_station_def py_str_def py_eval)
  have un: "dashboard_password_set (w_py ?W) sample_station = Inr False"
    by (simp add: dashboard_password_set_def cfg_text_def sample_station_def py_str_def)
  have w: "w_auth ?W = sample_lib" "we_salt sample_write = [1, 2]" "we_rw_writable sample_write"
    by (simp_all add: sample_web_def sample_write_def)
  let ?m = "''Dashboard password saved. Authentication is now required for the Admin Dashboard.''"
  obtain s' where sv: "save_and_forget ?W sample_write (password_change sample_hash) ?m sample_web_state
      = (Json 200 True ?m, s')"
    using good_save_and_forget [of sample_write ?W "password_change sample_hash" ?m sample_web_state]
      sample_save_ok by blast
  have r: "?r = (Json 200 True ?m, s')"
    by (simp add: api_dashboard_password_def sample_current cs un store_password_def v w sample_hash sv)
  have y: "let c = fst (load_config (w_yaml ?W) DEFAULT_CONFIG (ws_config (snd (get_config ?W sample_web_state)))) in
           proper c \<and> safe_load (w_yaml ?W) (yaml_dump (w_yaml ?W) (deep_merge c (password_change sample_hash)))
             = Inr (PDict (deep_merge c (password_change sample_hash)))"
    by (simp add: sample_current Let_def) (simp add: sample_web_def sample_station_def proper_eval)
  have d: "scrypt sample_lib (utf8 ''wrong horse'') [1, 2] (int SCRYPT_N, 8, 1) 32
      \<noteq> scrypt sample_lib (utf8 ''correct horse'') [1, 2] (int SCRYPT_N, 8, 1) 32"
    by (simp add: sample_lib_def utf8_def utf8_char_def Let_def ord_def)
  have n: "safe_next ''/services'' = ''/services''" by (simp add: safe_next_def startswith_def)
  have len: "scrypt sample_lib p q c 32 = Inr dk \<Longrightarrow> length dk = 32" for p q c dk
    by (auto simp: sample_lib_def)
  have force: "auth_required (w_py ?W) (fst (get_config ?W s')) = Inr True
    \<and> fst (login_submit ?W [5] 100 ''c'' ''correct horse'' ''/services'' s')
           = Logged_in (safe_next ''/services'') (issue_session (w_auth ?W) [5] 100) ''c''
    \<and> (rq_session rq = issue_session (w_auth ?W) [5] 100 \<longrightarrow>
         (require_auth ?W [5] 0 (fst (get_config ?W s')) rq = None \<longleftrightarrow> 0 < (100::nat) + 12 * 3600))
    \<and> (scrypt (w_auth ?W) (utf8 pw') (we_salt sample_write) (int SCRYPT_N, 8, 1) 32
           \<noteq> scrypt (w_auth ?W) (utf8 ''correct horse'') (we_salt sample_write) (int SCRYPT_N, 8, 1) 32 \<longrightarrow>
         fst (login_submit ?W [5] 100 ''c'' pw' ''/services'' s') = Login_page (safe_next ''/services''))" for rq pw'
    by (rule password_change_in_force [OF r]) ((rule y | simp only: w sample_hash sample_loads len)+)
  have "fst (login_submit ?W [5] 100 ''c'' ''correct horse'' ''/services'' s')
      = Logged_in (safe_next ''/services'') (issue_session (w_auth ?W) [5] 100) ''c''"
    using force by blast
  moreover have "fst (login_submit ?W [5] 100 ''c'' ''wrong horse'' ''/services'' s')
      = Login_page (safe_next ''/services'')"
    using force [of _ "''wrong horse''"] d w by simp
  ultimately show ?thesis using r n w by (simp add: Let_def)
qed

theorem gate_closed_witness:
  "let W = sample_web sample_hash; cfg = password_change sample_hash;
       s = sample_web_state\<lparr>ws_cached := Some cfg\<rparr>;
       rq = \<lparr>rq_method = ''POST'', rq_path = ''/api/system/reboot'', rq_session = [], rq_csrf_cookie = [],
             rq_csrf_header = []\<rparr>
   in \<exists>r. protected W [5] 0 rq (\<lambda>s. ((), s\<lparr>ws_cached := None\<rparr>)) s = (Inl r, s)"
proof -
  let ?W = "sample_web sample_hash"
  let ?s = "sample_web_state\<lparr>ws_cached := Some (password_change sample_hash)\<rparr>"
  let ?rq = "\<lparr>rq_method = ''POST'', rq_path = ''/api/system/reboot'', rq_session = [], rq_csrf_cookie = [],
             rq_csrf_header = []\<rparr>"
  have g: "get_config ?W ?s = (password_change sample_hash, ?s)" by (simp add: get_config_def)
  have "get_path [''web'', ''dashboard_password_hash''] (password_change sample_hash) = Some (PStr sample_hash)"
    by (simp add: password_change_def)
  then have a: "auth_required (w_py ?W) (fst (get_config ?W ?s)) = Inr True"
    using hash_not_blank [OF sample_hash] by (simp add: hash_at_path g)
  have "session_valid (w_auth ?W) [5] 0 (rq_session ?rq) \<noteq> Inr True"
    by (simp add: session_valid_def unsign_def)
  with gate_closed [OF a, of "[5]" 0 ?rq "\<lambda>s. ((), s\<lparr>ws_cached := None\<rparr>)"] g show ?thesis
    by (simp add: Let_def)
qed

section \<open>The configuration editor and the password\<close>

text \<open>The configuration save can remove the Dashboard password, or set any hash, without
  the current password: it accepts an update of the hash and the dashboard is open after it.\<close>

theorem config_save_removes_password:
  assumes "we_rw_writable e" "se_isdir (we_save e)" "se_writable (we_save e)" "se_fails_at (we_save e) = None"
    and "proper (fst (load_config (w_yaml W) DEFAULT_CONFIG (ws_config s)))"
    and "safe_load (w_yaml W) (yaml_dump (w_yaml W)
            (deep_merge (fst (load_config (w_yaml W) DEFAULT_CONFIG (ws_config s))) (password_change [])))
           = Inr (PDict (deep_merge (fst (load_config (w_yaml W) DEFAULT_CONFIG (ws_config s))) (password_change [])))"
  shows "\<exists>m s'. api_config_save W e (password_change []) True s = (Json 200 True m, s')
           \<and> auth_required (w_py W) (fst (get_config W s')) = Inr False"
proof -
  let ?m = "''Configuration saved. Some changes require a service restart or reboot.''"
  obtain s' where s: "save_and_forget W e (password_change []) ?m s = (Json 200 True ?m, s')"
    using good_save_and_forget [OF assms(2-4)] by blast
  then have a: "api_config_save W e (password_change []) True s = (Json 200 True ?m, s')"
    using assms(1) password_update_accepted [of "w_py W" "PStr []"]
    by (simp add: api_config_save_def password_change_def)
  have "proper (password_change [])" by (simp add: password_change_def proper_eval)
  then have "get_path [''web'', ''dashboard_password_hash''] (fst (get_config W s')) = Some (PStr [])"
    by (intro saved_setting [OF s assms(6) _ assms(5)]) (simp_all add: password_change_def)
  with a show ?thesis by (auto simp: hash_at_path)
qed

theorem config_save_removes_password_witness:
  "let W = sample_web [];
       s' = snd (api_config_save W sample_write (password_change []) True sample_web_state)
   in auth_required (w_py W) (fst (get_config W s')) = Inr False"
proof -
  have "\<exists>m s'. api_config_save (sample_web []) sample_write (password_change []) True sample_web_state
          = (Json 200 True m, s')
        \<and> auth_required (w_py (sample_web [])) (fst (get_config (sample_web []) s')) = Inr False"
    by (rule config_save_removes_password; (simp only: sample_current)?)
      (simp_all add: sample_write_def sample_save_env_def sample_station_def proper_eval sample_web_def)
  then show ?thesis by (auto simp: Let_def)
qed

end
