(* ===== verification/Provision.thy ===== *)
theory Provision
  imports Web_Mail Web_Gate
begin

text \<open>
  The maintenance routes of src/src/web/web_app.py over the tools of src/src/common/fs_manager.py: service
  control behind its allowlists, the permanent Bluetooth provisioning with its remounts and the reboot, and
  the delayed power-off with its cancellation. What a system tool does is a \<open>run\<close>, an argument; the
  \<open>board\<close> is what the tools change: whether the bridge service runs, whether the root file system is
  writable, and the runtime status the steps publish, oldest first.
\<close>

section \<open>System tools\<close>

datatype run = Ran int string string | Timed_out string | Run_error string

definition RESTART_ALLOWED :: "string list" where
  "RESTART_ALLOWED = [''kp4pra-tnc-rfcomm.service'', ''kp4pra-tnc-ble.service'', ''kp4pra-tnc-web.service'',
     ''kp4pra-tnc-rms.service'', ''bluetooth.service'', ''direwolf.service'']"

definition STOP_ALLOWED :: "string list" where
  "STOP_ALLOWED = [''kp4pra-tnc-rfcomm.service'', ''kp4pra-tnc-ble.service'', ''kp4pra-tnc-rms.service'',
     ''direwolf.service'']"

definition LOG_ALLOWED :: "string list" where
  "LOG_ALLOWED = [''kp4pra-tnc-rfcomm.service'', ''kp4pra-tnc-ble.service'', ''kp4pra-tnc-web.service'',
     ''direwolf.service'', ''xara@kp4pra.service'', ''kp4pra-xara-ptt.service'', ''kp4pra-xara-prep.service'',
     ''kp4pra-xara-update.service'']"

text \<open>A service operation: the result, and the command it runs, if it runs one.\<close>

definition not_allowed :: "pylib \<Rightarrow> string \<Rightarrow> string" where
  "not_allowed P svc = ''Service '' @ py_repr P (PStr svc) @ '' not in allowlist''"

definition service_outcome :: "string \<Rightarrow> string \<Rightarrow> run \<Rightarrow> bool \<times> string" where
  "service_outcome done_msg fail_msg r =
     (case r of
        Ran rc out err \<Rightarrow> if rc = 0 then (True, done_msg) else (False, fail_msg @ strip err)
      | Timed_out m \<Rightarrow> (False, m)
      | Run_error m \<Rightarrow> (False, m))"

definition restart_service :: "pylib \<Rightarrow> run \<Rightarrow> string \<Rightarrow> (bool \<times> string) \<times> string list option" where
  "restart_service P r svc =
     (if svc \<notin> set RESTART_ALLOWED then ((False, not_allowed P svc), None)
      else (service_outcome (svc @ '' restarted'') ''restart failed: '' r,
            Some [''sudo'', ''/bin/systemctl'', ''restart'', svc]))"

definition stop_service :: "pylib \<Rightarrow> run \<Rightarrow> string \<Rightarrow> (bool \<times> string) \<times> string list option" where
  "stop_service P r svc =
     (if svc \<notin> set STOP_ALLOWED then ((False, not_allowed P svc), None)
      else (service_outcome (svc @ '' stopped'') ''stop failed: '' r,
            Some [''sudo'', ''/bin/systemctl'', ''stop'', svc]))"

definition volatile_log :: "run \<Rightarrow> string \<Rightarrow> int \<Rightarrow> string option \<times> string list option" where
  "volatile_log r svc lines =
     (let n = max 1 (min lines 200) in
      if svc \<notin> set LOG_ALLOWED then (None, None)
      else ((case r of Ran rc out err \<Rightarrow> (if rc = 0 then Some out else None) | _ \<Rightarrow> None),
            Some [''journalctl'', ''-u'', svc, ''-n'', show_int n, ''--no-pager'', ''--output=short-iso'', ''--boot'']))"

definition service_name :: "string \<Rightarrow> string" where
  "service_name s = (if endswith ''.service'' s then s else s @ ''.service'')"

definition api_service_log :: "run \<Rightarrow> string \<Rightarrow> int \<Rightarrow> string option \<times> string list option" where
  "api_service_log r name lines = volatile_log r (service_name name) lines"

definition remount_outcome :: "string \<Rightarrow> string \<Rightarrow> run \<Rightarrow> bool \<times> string" where
  "remount_outcome done_msg mode r =
     (case r of
        Ran rc out err \<Rightarrow> if rc = 0 then (True, done_msg) else (False, ''Failed to remount '' @ mode @ '': '' @ strip err)
      | Timed_out m \<Rightarrow> (False, ''remount timed out'')
      | Run_error m \<Rightarrow> (False, m))"

section \<open>The board\<close>

record prov_status =
  ps_step :: string
  ps_detail :: string
  ps_success :: "bool option"
  ps_error :: string

record board =
  bd_bridge :: bool
  bd_root_rw :: bool
  bd_reboot :: bool
  bd_reboot_pending :: "string option"
  bd_status :: "prov_status list"

definition RFCOMM :: string where "RFCOMM = ''kp4pra-tnc-rfcomm.service''"

definition set_provisioning_status :: "string \<Rightarrow> string \<Rightarrow> bool option \<Rightarrow> string \<Rightarrow> board \<Rightarrow> board" where
  "set_provisioning_status step detail success err b =
     b\<lparr>bd_status := bd_status b @ [\<lparr>ps_step = step, ps_detail = detail, ps_success = success, ps_error = err\<rparr>]\<rparr>"

abbreviation set_provisioning :: "string \<Rightarrow> string \<Rightarrow> board \<Rightarrow> board" where
  "set_provisioning step detail \<equiv> set_provisioning_status step detail None []"

definition stop_bridge :: "pylib \<Rightarrow> run \<Rightarrow> board \<Rightarrow> board" where
  "stop_bridge P r b = b\<lparr>bd_bridge := bd_bridge b \<and> \<not> fst (fst (stop_service P r RFCOMM))\<rparr>"

definition restart_bridge :: "pylib \<Rightarrow> run \<Rightarrow> board \<Rightarrow> board" where
  "restart_bridge P r b = b\<lparr>bd_bridge := bd_bridge b \<or> fst (fst (restart_service P r RFCOMM))\<rparr>"

definition remount_root_rw :: "run \<Rightarrow> board \<Rightarrow> (bool \<times> string) \<times> board" where
  "remount_root_rw r b =
     (let b1 = set_provisioning ''remount_rw'' ''Remounting filesystem read/write'' b;
          o1 = remount_outcome ''Filesystem remounted read/write'' ''rw'' r
      in (o1, b1\<lparr>bd_root_rw := bd_root_rw b \<or> fst o1\<rparr>))"

definition remount_root_ro :: "run \<Rightarrow> board \<Rightarrow> (bool \<times> string) \<times> board" where
  "remount_root_ro r b =
     (let b1 = set_provisioning ''remount_ro'' ''Remounting filesystem read-only'' b;
          o1 = remount_outcome ''Filesystem remounted read-only'' ''ro'' r
      in (o1, b1\<lparr>bd_root_rw := bd_root_rw b \<and> \<not> fst o1\<rparr>))"

definition schedule_reboot :: "run \<Rightarrow> nat \<Rightarrow> board \<Rightarrow> (bool \<times> string) \<times> board" where
  "schedule_reboot r delay b =
     (let b1 = set_provisioning ''reboot_scheduled'' (''Rebooting in '' @ show_nat delay @ '' seconds'') b in
      (case r of
         Ran rc out err \<Rightarrow> if rc = 0 then ((True, ''Reboot scheduled''), b1\<lparr>bd_reboot := True\<rparr>)
                         else ((False, ''Could not schedule reboot''), b1)
       | Timed_out m \<Rightarrow> ((False, m), b1)
       | Run_error m \<Rightarrow> ((False, m), b1)))"

definition can_perform :: "bool \<Rightarrow> bool \<times> string" where
  "can_perform state_writable =
     (if state_writable then (True, ''BlueZ state directory is writable'')
      else (True, ''Will remount to make BlueZ state writable''))"

section \<open>Permanent provisioning\<close>

datatype bt_action = Pair_device | Trust_device | Untrust_device | Remove_device

definition action_name :: "bt_action \<Rightarrow> string" where
  "action_name a = (case a of Pair_device \<Rightarrow> ''pair_device'' | Trust_device \<Rightarrow> ''trust_device''
     | Untrust_device \<Rightarrow> ''untrust_device'' | Remove_device \<Rightarrow> ''remove_device'')"

text \<open>The Bluetooth side: what the action and the trust after a pairing give, and whether the state
  directory has an entry for the device afterwards.\<close>

record prov_env =
  pe_state_writable :: bool
  pe_stop :: run
  pe_restart :: run
  pe_remount_rw :: run
  pe_remount_ro :: run
  pe_reboot :: run
  pe_action :: "(bool \<times> string) result"
  pe_trust :: "(bool \<times> string) result"
  pe_written :: bool

record prov_reply =
  pv_success :: bool
  pv_message :: string
  pv_step :: string
  pv_rebooting :: bool

definition failed_reply :: "string \<Rightarrow> string \<Rightarrow> prov_reply" where
  "failed_reply msg step = \<lparr>pv_success = False, pv_message = msg, pv_step = step, pv_rebooting = False\<rparr>"

text \<open>Step 4, for a pairing with the trust; an exception is a failure with its text.\<close>

definition perform_action :: "prov_env \<Rightarrow> bt_action \<Rightarrow> bool \<times> string" where
  "perform_action e a =
     (case pe_action e of
        Inl x \<Rightarrow> (False, exn_str x)
      | Inr (ok, msg) \<Rightarrow>
          if ok \<and> a = Pair_device then
            (case pe_trust e of Inl x \<Rightarrow> (False, exn_str x) | Inr (_, t) \<Rightarrow> (ok, msg @ ''; trust: '' @ t))
          else (ok, msg))"

text \<open>Step 5: pairing and trusting must have left state on disk.\<close>

definition verify_written :: "prov_env \<Rightarrow> bt_action \<Rightarrow> bool \<times> string \<Rightarrow> bool \<times> string" where
  "verify_written e a r =
     (if fst r \<and> a \<in> {Pair_device, Trust_device} \<and> \<not> pe_written e then
        (False, ''BlueZ did not write persistent state - pairing may not survive reboot'') else r)"

text \<open>Steps 4 to 7.\<close>

definition action_steps :: "prov_env \<Rightarrow> bt_action \<Rightarrow> bool \<Rightarrow> board \<Rightarrow> (bool \<times> string) \<times> board" where
  "action_steps e a needs_remount b =
     (let b1 = set_provisioning ''performing_action'' (''Performing '' @ action_name a) b;
          r = verify_written e a (perform_action e a);
          b2 = set_provisioning ''syncing'' ''Syncing storage'' b1
      in (r, if needs_remount then
               snd (remount_root_ro (pe_remount_ro e)
                      (set_provisioning ''remounting_ro'' ''Remounting filesystem read-only'' b2))
             else b2))"

text \<open>Step 8 and the end.\<close>

definition conclude :: "pylib \<Rightarrow> prov_env \<Rightarrow> bt_action \<Rightarrow> bool \<Rightarrow> bool \<times> string \<Rightarrow> board \<Rightarrow> prov_reply \<times> board" where
  "conclude P e a needs_remount r b =
     (if \<not> fst r then
        (failed_reply (snd r) ''action'', restart_bridge P (pe_restart e) (set_provisioning_status ''failed'' (snd r) (Some False) (snd r) b))
      else if \<not> needs_remount then
        (let m = action_name a @ '' completed and saved. No reboot needed (filesystem was writable).'' in
         (\<lparr>pv_success = True, pv_message = m, pv_step = ''complete'', pv_rebooting = False\<rparr>,
          restart_bridge P (pe_restart e) (set_provisioning_status ''complete'' m (Some True) [] b)))
      else
        (let b1 = (set_provisioning ''rebooting'' ''Scheduling reboot'' b)
                    \<lparr>bd_reboot_pending := Some (''Permanent Bluetooth provisioning: '' @ action_name a)\<rparr>;
             (rb, b2) = schedule_reboot (pe_reboot e) 5 b1;
             m = action_name a @ '' completed. KP4PRA TNC will reboot to apply the permanent configuration.''
         in (\<lparr>pv_success = True, pv_message = m, pv_step = ''complete'', pv_rebooting = fst rb\<rparr>,
             set_provisioning_status ''complete'' m (Some True) [] b2)))"

definition provisioning_workflow :: "pylib \<Rightarrow> prov_env \<Rightarrow> bt_action \<Rightarrow> string \<Rightarrow> board \<Rightarrow> prov_reply \<times> board" where
  "provisioning_workflow P e a addr b0 =
     (let b = set_provisioning ''start'' (''Starting '' @ action_name a @ '' for '' @ addr) b0;
          (proceed, reason) = can_perform (pe_state_writable e)
      in if \<not> proceed then (failed_reply reason ''preflight'', set_provisioning_status ''failed'' reason (Some False) reason b)
         else
           let needs_remount = \<not> pe_state_writable e;
               b1 = stop_bridge P (pe_stop e) (set_provisioning ''stopping_services'' ''Stopping bridge services'' b)
           in if \<not> needs_remount then
                (case action_steps e a False b1 of (r, b3) \<Rightarrow> conclude P e a False r b3)
              else
                (case remount_root_rw (pe_remount_rw e)
                        (set_provisioning ''remounting_rw'' ''Remounting filesystem read/write'' b1) of
                   ((ok, msg), b2) \<Rightarrow>
                     if \<not> ok then
                       (failed_reply msg ''remount_rw'',
                        restart_bridge P (pe_restart e) (set_provisioning_status ''failed'' msg (Some False) msg b2))
                     else (case action_steps e a True b2 of (r, b3) \<Rightarrow> conclude P e a True r b3)))"

text \<open>The four routes: nothing happens without the confirmation.\<close>

definition api_bt :: "pylib \<Rightarrow> bt_action \<Rightarrow> prov_env \<Rightarrow> string \<Rightarrow> bool \<Rightarrow> board \<Rightarrow> prov_reply option \<times> board" where
  "api_bt P a e addr confirmed b =
     (if \<not> confirmed then (None, b)
      else (case provisioning_workflow P e a addr b of (r, b') \<Rightarrow> (Some r, b')))"

section \<open>Power-off\<close>

text \<open>The pending process: when its sleep ends. Its \<^verbatim>\<open>poll()\<close> is None until then.\<close>

record power =
  pw_deadline :: "rat option"
  pw_status :: "rat option"

definition SHUTDOWN_DELAY :: rat where "SHUTDOWN_DELAY = 10"

definition pending :: "rat \<Rightarrow> power \<Rightarrow> bool" where
  "pending now p = (case pw_deadline p of Some d \<Rightarrow> now < d | None \<Rightarrow> False)"

definition api_shutdown :: "exn option \<Rightarrow> rat \<Rightarrow> power \<Rightarrow> reply \<times> power" where
  "api_shutdown popen_error now p =
     (if pending now p then (Json 200 True ''Shutdown already pending.'', p)
      else (case popen_error of
        Some e \<Rightarrow> (Json 500 False (exn_str e), p)
      | None \<Rightarrow> (Json 200 True ''Shutting down in 10 s. Wait ~15 s after that, then it is safe to remove power.'',
          \<lparr>pw_deadline = Some (now + SHUTDOWN_DELAY), pw_status = Some (now + SHUTDOWN_DELAY)\<rparr>)))"

text \<open>\<open>gone\<close>: the process group has just ended by itself; \<open>kill_error\<close>: another exception of the kill.\<close>

definition api_shutdown_cancel :: "bool \<Rightarrow> exn option \<Rightarrow> rat \<Rightarrow> power \<Rightarrow> reply \<times> power" where
  "api_shutdown_cancel gone kill_error now p =
     (if \<not> pending now p then (Json 409 False ''No shutdown pending (or it already started).'', p)
      else (case (if gone then None else kill_error) of
        Some e \<Rightarrow> (Json 500 False (''Could not cancel: '' @ exn_str e), p)
      | None \<Rightarrow> (Json 200 True ''Shutdown cancelled.'', \<lparr>pw_deadline = None, pw_status = None\<rparr>)))"

section \<open>Facts\<close>

lemma board_status [simp]:
  "bd_bridge (set_provisioning_status s m k x b) = bd_bridge b"
  "bd_root_rw (set_provisioning_status s m k x b) = bd_root_rw b"
  "bd_reboot (set_provisioning_status s m k x b) = bd_reboot b"
  "bd_reboot_pending (set_provisioning_status s m k x b) = bd_reboot_pending b"
  by (simp_all add: set_provisioning_status_def)

lemma bridge_ops [simp]:
  "bd_root_rw (stop_bridge P r b) = bd_root_rw b" "bd_reboot (stop_bridge P r b) = bd_reboot b"
  "bd_reboot_pending (stop_bridge P r b) = bd_reboot_pending b"
  "bd_root_rw (restart_bridge P r b) = bd_root_rw b" "bd_reboot (restart_bridge P r b) = bd_reboot b"
  "bd_reboot_pending (restart_bridge P r b) = bd_reboot_pending b"
  by (simp_all add: stop_bridge_def restart_bridge_def)

definition tool_ok :: "run \<Rightarrow> bool" where
  "tool_ok r = (case r of Ran rc out err \<Rightarrow> rc = 0 | _ \<Rightarrow> False)"

lemma outcomes [simp]:
  "fst (service_outcome d f r) = tool_ok r" "fst (remount_outcome d m r) = tool_ok r"
  by (simp_all add: service_outcome_def remount_outcome_def tool_ok_def split: run.split)

lemma restart_bridge_runs [simp]: "tool_ok r \<Longrightarrow> bd_bridge (restart_bridge P r b)"
  by (simp add: restart_bridge_def restart_service_def RFCOMM_def RESTART_ALLOWED_def)

lemma stop_bridge_stops [simp]: "tool_ok r \<Longrightarrow> \<not> bd_bridge (stop_bridge P r b)"
  by (simp add: stop_bridge_def stop_service_def RFCOMM_def STOP_ALLOWED_def)

lemma action_steps_board:
  assumes "action_steps e a needs b = (r, b')"
  shows "r = verify_written e a (perform_action e a)" "bd_bridge b' = bd_bridge b" "bd_reboot b' = bd_reboot b"
    "bd_reboot_pending b' = bd_reboot_pending b"
    "bd_root_rw b' = (bd_root_rw b \<and> \<not> (needs \<and> tool_ok (pe_remount_ro e)))"
  using assms by (auto simp: action_steps_def Let_def remount_root_ro_def split: if_splits)

lemma schedule_reboot_board:
  assumes "schedule_reboot r d b = (x, b')"
  shows "fst x = tool_ok r" "bd_root_rw b' = bd_root_rw b" "bd_bridge b' = bd_bridge b"
    "bd_reboot b' = (bd_reboot b \<or> tool_ok r)" "bd_reboot_pending b' = bd_reboot_pending b"
  using assms by (auto simp: schedule_reboot_def Let_def tool_ok_def split: run.splits if_splits)

lemma conclude_board:
  assumes "conclude P e a needs r b = (p, b')"
  shows "pv_success p = fst r" "bd_root_rw b' = bd_root_rw b"
    "\<not> fst r \<or> \<not> needs \<Longrightarrow> tool_ok (pe_restart e) \<Longrightarrow> bd_bridge b'"
    "\<not> fst r \<or> \<not> needs \<Longrightarrow> bd_reboot b' = bd_reboot b \<and> bd_reboot_pending b' = bd_reboot_pending b \<and> \<not> pv_rebooting p"
    "fst r \<Longrightarrow> needs \<Longrightarrow> bd_bridge b' = bd_bridge b \<and> bd_reboot b' = (bd_reboot b \<or> tool_ok (pe_reboot e))
       \<and> bd_reboot_pending b' \<noteq> None \<and> pv_rebooting p = tool_ok (pe_reboot e)"
proof -
  consider (failed) "\<not> fst r" | (plain) "fst r" "\<not> needs" | (reboot) "fst r" "needs" by blast
  then have *: "pv_success p = fst r \<and> bd_root_rw b' = bd_root_rw b
      \<and> (\<not> fst r \<or> \<not> needs \<longrightarrow> tool_ok (pe_restart e) \<longrightarrow> bd_bridge b')
      \<and> (\<not> fst r \<or> \<not> needs \<longrightarrow> bd_reboot b' = bd_reboot b \<and> bd_reboot_pending b' = bd_reboot_pending b
           \<and> \<not> pv_rebooting p)
      \<and> (fst r \<longrightarrow> needs \<longrightarrow> bd_bridge b' = bd_bridge b \<and> bd_reboot b' = (bd_reboot b \<or> tool_ok (pe_reboot e))
           \<and> bd_reboot_pending b' \<noteq> None \<and> pv_rebooting p = tool_ok (pe_reboot e))"
  proof cases
    case failed
    with assms show ?thesis by (auto simp: conclude_def failed_reply_def)
  next
    case plain
    with assms show ?thesis by (auto simp: conclude_def Let_def)
  next
    case reboot
    obtain rb b2 where s: "schedule_reboot (pe_reboot e) 5 ((set_provisioning ''rebooting'' ''Scheduling reboot'' b)
        \<lparr>bd_reboot_pending := Some (''Permanent Bluetooth provisioning: '' @ action_name a)\<rparr>) = (rb, b2)"
      by fastforce
    from reboot assms s have "pv_success p \<and> pv_rebooting p = fst rb"
      and "bd_root_rw b' = bd_root_rw b2 \<and> bd_bridge b' = bd_bridge b2 \<and> bd_reboot b' = bd_reboot b2
        \<and> bd_reboot_pending b' = bd_reboot_pending b2"
      by (auto simp: conclude_def Let_def)
    with schedule_reboot_board [OF s] reboot show ?thesis by simp
  qed
  then show "pv_success p = fst r" "bd_root_rw b' = bd_root_rw b"
    "\<not> fst r \<or> \<not> needs \<Longrightarrow> tool_ok (pe_restart e) \<Longrightarrow> bd_bridge b'"
    "\<not> fst r \<or> \<not> needs \<Longrightarrow> bd_reboot b' = bd_reboot b \<and> bd_reboot_pending b' = bd_reboot_pending b \<and> \<not> pv_rebooting p"
    "fst r \<Longrightarrow> needs \<Longrightarrow> bd_bridge b' = bd_bridge b \<and> bd_reboot b' = (bd_reboot b \<or> tool_ok (pe_reboot e))
       \<and> bd_reboot_pending b' \<noteq> None \<and> pv_rebooting p = tool_ok (pe_reboot e)"
    by blast+
qed

lemma remount_rw_board:
  assumes "remount_root_rw r b = (x, b')"
  shows "fst x = tool_ok r" "bd_bridge b' = bd_bridge b" "bd_root_rw b' = (bd_root_rw b \<or> tool_ok r)"
    "bd_reboot b' = bd_reboot b" "bd_reboot_pending b' = bd_reboot_pending b"
  using assms by (auto simp: remount_root_rw_def Let_def)

section \<open>Properties\<close>


text \<open>When the reboot cannot be scheduled after a remount, the bridge service stays stopped although
  the reply reports success and announces the reboot.\<close>

theorem failed_reboot_leaves_bridge_stopped:
  assumes "\<not> pe_state_writable e" "tool_ok (pe_stop e)" "tool_ok (pe_remount_rw e)" "\<not> tool_ok (pe_reboot e)"
    and "fst (verify_written e a (perform_action e a))"
  shows "case provisioning_workflow P e a addr b of (p, b') \<Rightarrow>
     pv_success p \<and> \<not> pv_rebooting p \<and> \<not> bd_bridge b' \<and> bd_reboot_pending b' \<noteq> None"
proof -
  let ?b1 = "stop_bridge P (pe_stop e) (set_provisioning ''stopping_services'' ''Stopping bridge services''
      (set_provisioning ''start'' (''Starting '' @ action_name a @ '' for '' @ addr) b))"
  obtain p b' where w: "provisioning_workflow P e a addr b = (p, b')" by fastforce
  obtain ok msg b2 where m: "remount_root_rw (pe_remount_rw e)
      (set_provisioning ''remounting_rw'' ''Remounting filesystem read/write'' ?b1) = ((ok, msg), b2)"
    by (metis prod.exhaust)
  note mb = remount_rw_board [OF m]
  obtain r b3 where s: "action_steps e a True b2 = (r, b3)" by fastforce
  from w m s mb(1) assms(1,3) have c: "conclude P e a True r b3 = (p, b')"
    by (simp add: provisioning_workflow_def can_perform_def Let_def)
  from conclude_board [OF c] action_steps_board [OF s] mb assms w show ?thesis by auto
qed

theorem failed_reboot_leaves_bridge_stopped_witness:
  "case provisioning_workflow sample_pylib
      \<lparr>pe_state_writable = False, pe_stop = Ran 0 [] [], pe_restart = Ran 0 [] [], pe_remount_rw = Ran 0 [] [],
       pe_remount_ro = Ran 0 [] [], pe_reboot = Ran 1 [] [], pe_action = Inr (True, ''removed''),
       pe_trust = Inr (True, []), pe_written = True\<rparr> Remove_device ''AA:BB''
      \<lparr>bd_bridge = True, bd_root_rw = False, bd_reboot = False, bd_reboot_pending = None, bd_status = []\<rparr> of
    (p, b') \<Rightarrow> pv_success p \<and> \<not> pv_rebooting p \<and> \<not> bd_bridge b' \<and> bd_reboot_pending b' \<noteq> None"
  by (rule failed_reboot_leaves_bridge_stopped)
     (simp_all add: tool_ok_def verify_written_def perform_action_def)

lemma shutdown_cancelled:
  assumes "api_shutdown None now p = (r, p1)" "now \<le> t" "t < now + SHUTDOWN_DELAY" "\<not> pending now p"
  shows "pending t p1" "api_shutdown_cancel gone None t p1
      = (Json 200 True ''Shutdown cancelled.'', \<lparr>pw_deadline = None, pw_status = None\<rparr>)"
  using assms by (auto simp: api_shutdown_def api_shutdown_cancel_def pending_def split: if_splits)

lemma shutdown_repeated:
  assumes "pending now p"
  shows "snd (api_shutdown e now p) = p"
  using assms by (simp add: api_shutdown_def)

end
