(* ===== verification/Aprs_Clock.thy ===== *)
theory Aprs_Clock
  imports Provision Aprs
begin

text \<open>
  The clock daemon (src/src/aprs_clock.py): timestamps of APRS reports, messages of Dire Wolf's AGW port,
  the gate that waits for a sustained loss of NTP, and the service as a state machine. Clock readings, the
  answers of the system tools and the bytes that have arrived are arguments; the result of an operation is
  the service with the status it publishes and, when it sets the clock, the setting. Monotonic time is a
  rational. The board's wall clock is its local time as a number of seconds, whose quotient by 86400 is the
  local calendar day.
\<close>

section \<open>Timestamps\<close>

record aprs_time =
  at_hour :: nat
  at_minute :: nat
  at_second :: nat
  at_utc :: bool
  at_format :: string

definition seconds_since_midnight :: "aprs_time \<Rightarrow> nat" where
  "seconds_since_midnight a = at_hour a * 3600 + at_minute a * 60 + at_second a"

definition ssid_0_15 :: "string \<Rightarrow> bool" where
  "ssid_0_15 s \<longleftrightarrow> s \<in> set (map show_nat [0..<16])"

definition normalize_callsign :: "string \<Rightarrow> string" where
  "normalize_callsign v =
     (let call = upper (strip v) in if call_pattern upper_digit 1 6 ssid_0_15 call then call else [])"

text \<open>\<^verbatim>\<open>payload.decode("ascii", errors="strict")\<close>.\<close>

definition ascii_strict :: "bytes \<Rightarrow> string option" where
  "ascii_strict p = (if list_all (\<lambda>x. x < 128) p then Some (map (\<lambda>x. chr (unat x)) p) else None)"

definition timestamp_field :: "bytes \<Rightarrow> string option" where
  "timestamp_field payload =
     (case ascii_strict payload of None \<Rightarrow> None
      | Some text \<Rightarrow>
          if 8 \<le> length text \<and> text ! 0 \<in> set ''/@'' then Some (take 7 (drop 1 text))
          else if 18 \<le> length text \<and> text ! 0 = CHR '';'' \<and> text ! 10 \<in> set ''*_'' then Some (take 7 (drop 11 text))
          else None)"

definition ts_pattern :: "string \<Rightarrow> bool" where
  "ts_pattern f \<longleftrightarrow> length f = 7 \<and> list_all is_digit (take 6 f) \<and> f ! 6 \<in> set ''zZhH/''"

definition parse_aprs_time :: "bytes \<Rightarrow> aprs_time option" where
  "parse_aprs_time payload =
     (case timestamp_field payload of None \<Rightarrow> None
      | Some field \<Rightarrow>
          if \<not> ts_pattern field then None
          else
            let suffix = lower_char (field ! 6);
                n1 = dec_val (take 2 field); n2 = dec_val (take 2 (drop 2 field)); n3 = dec_val (take 2 (drop 4 field));
                ranged = (\<lambda>h m s u name. if h \<le> 23 \<and> m \<le> 59 \<and> s \<le> 59
                  then Some \<lparr>at_hour = h, at_minute = m, at_second = s, at_utc = u, at_format = name\<rparr> else None)
            in if suffix \<in> set ''z/'' then
                 (if \<not> (1 \<le> n1 \<and> n1 \<le> 31) then None
                  else ranged n2 n3 0 (suffix = CHR ''z'') (if suffix = CHR ''z'' then ''DDHHMMz'' else ''DDHHMM/''))
               else ranged n1 n2 n3 True ''HHMMSSh'')"

definition circular_delta_seconds :: "int \<Rightarrow> int \<Rightarrow> int" where
  "circular_delta_seconds current target = (target - current + 43200) mod 86400 - 43200"

definition aprs_time_from_frame :: "bytes \<Rightarrow> string \<Rightarrow> aprs_time option result" where
  "aprs_time_from_frame frame expected =
     (case split_frame frame of
        Inl (ValueError m) \<Rightarrow> Inr None
      | Inl e \<Rightarrow> Inl e
      | Inr (dest, source, path, control, pid, payload) \<Rightarrow>
          if normalize_callsign source \<noteq> normalize_callsign expected then Inr None
          else if control AND 0xEF \<noteq> 0x03 \<or> pid \<noteq> PID_NO_L3 then Inr None
          else Inr (parse_aprs_time payload))"

section \<open>AGW messages\<close>

record agw_message =
  ag_port :: nat
  ag_kind :: char
  ag_pid :: nat
  ag_from :: string
  ag_to :: string
  ag_data :: bytes

definition AGW_SIZE :: nat where "AGW_SIZE = 36"
definition AGW_MAX_DATA :: nat where "AGW_MAX_DATA = 4096"
definition AGW_PORT :: int where "AGW_PORT = 8000"

text \<open>The \<^verbatim>\<open>struct\<close> layout: eight bytes, two fields of ten bytes, two little-endian 32-bit numbers.\<close>

definition le32 :: "nat \<Rightarrow> bytes" where
  "le32 n = [word_of_nat n, word_of_nat (n div 256), word_of_nat (n div 65536), word_of_nat (n div 16777216)]"

definition un_le32 :: "bytes \<Rightarrow> nat" where
  "un_le32 b = unat (b ! 0) + 256 * unat (b ! 1) + 65536 * unat (b ! 2) + 16777216 * unat (b ! 3)"

definition agw_pack :: "bytes \<Rightarrow> bytes \<Rightarrow> bytes \<Rightarrow> nat \<Rightarrow> nat \<Rightarrow> bytes" where
  "agw_pack head8 a b n m = head8 @ take 10 (a @ replicate 10 0) @ take 10 (b @ replicate 10 0) @ le32 n @ le32 m"

definition build_agw_command :: "string \<Rightarrow> bytes result" where
  "build_agw_command kind =
     (if length kind \<noteq> 1 then Inl (ValueError ''AGW command kind must be one character'')
      else Inr (agw_pack [0, 0, 0, 0, word_of_nat (ord (hd kind)), 0, 0, 0] [] [] 0 0))"

definition agw_data_len :: "bytes \<Rightarrow> nat" where
  "agw_data_len header = un_le32 (take 4 (drop 28 header))"

definition agw_call :: "bytes \<Rightarrow> string" where
  "agw_call raw = upper (strip (map (\<lambda>x. chr (unat x)) (filter (\<lambda>x. x < 128) (takeWhile (\<lambda>x. x \<noteq> 0) raw))))"

definition parse_agw_message :: "bytes \<Rightarrow> bytes \<Rightarrow> agw_message result" where
  "parse_agw_message header payload =
     (if length header \<noteq> AGW_SIZE then Inl (ValueError ''invalid AGW header length'')
      else if agw_data_len header \<noteq> length payload then Inl (ValueError ''AGW data length mismatch'')
      else Inr \<lparr>ag_port = unat (header ! 0), ag_kind = chr (unat (header ! 4)), ag_pid = unat (header ! 6),
                ag_from = agw_call (take 10 (drop 8 header)), ag_to = agw_call (take 10 (drop 18 header)),
                ag_data = payload\<rparr>)"

text \<open>\<^verbatim>\<open>read_agw_message\<close> on what has arrived: a message and what is left, or waiting for more. The second
  read starts only after the first has taken the header away, so what is left when the wait is given up is
  the buffer without it.\<close>

datatype agw_read = Got agw_message bytes | Waiting bytes | Failed exn bytes

definition read_agw_message :: "bytes \<Rightarrow> agw_read" where
  "read_agw_message arrived =
     (if length arrived < AGW_SIZE then Waiting arrived
      else let header = take AGW_SIZE arrived; rest = drop AGW_SIZE arrived; n = agw_data_len header in
        if AGW_MAX_DATA < n then Failed (ValueError (''AGW data length '' @ show_nat n @ '' exceeds limit'')) rest
        else if length rest < n then Waiting rest
        else case parse_agw_message header (take n rest) of
               Inl e \<Rightarrow> Failed e (drop n rest) | Inr m \<Rightarrow> Got m (drop n rest))"

definition raw_ax25_from_agw :: "agw_message \<Rightarrow> bytes option" where
  "raw_ax25_from_agw m = (if ag_kind m \<noteq> CHR ''K'' \<or> length (ag_data m) < 2 then None else Some (tl (ag_data m)))"

section \<open>The clock of the board\<close>

text \<open>The local time as seconds and the offset of the local zone from UTC.\<close>

record wall =
  wl_local :: nat
  wl_offset :: int

definition at_time_of_day :: "nat \<Rightarrow> nat \<Rightarrow> nat" where
  "at_time_of_day now tod = now div 86400 * 86400 + tod"

definition fmt_set :: "nat \<Rightarrow> string" where
  "fmt_set t = butlast (fmt_iso (gmtime t))"

text \<open>\<^verbatim>\<open>_clock_values\<close>: the second of the day that is compared, and the local time to set.\<close>

definition clock_values :: "wall \<Rightarrow> aprs_time \<Rightarrow> nat \<times> nat" where
  "clock_values w a =
     (if at_utc a then
        (nat ((int (wl_local w) - wl_offset w) mod 86400),
         at_time_of_day (wl_local w) (nat ((int (seconds_since_midnight a) + wl_offset w) mod 86400)))
      else (wl_local w mod 86400, at_time_of_day (wl_local w) (seconds_since_midnight a)))"

text \<open>\<^verbatim>\<open>ntp_synchronized\<close> over the answers to its two queries.\<close>

fun ntp_answer :: "run list \<Rightarrow> bool" where
  "ntp_answer [] = False"
| "ntp_answer (r # rs) =
     (case r of
        Ran rc out err \<Rightarrow>
          let v = lower (strip out) in
          if rc = 0 \<and> v \<in> {''yes'', ''true'', ''1''} then True
          else if rc = 0 \<and> v \<in> {''no'', ''false'', ''0''} then False
          else ntp_answer rs
      | _ \<Rightarrow> ntp_answer rs)"

definition set_system_time :: "run \<Rightarrow> bool \<times> string" where
  "set_system_time r =
     (case r of
        Ran rc out err \<Rightarrow> (rc = 0, strip (if err \<noteq> [] then err else out))
      | Timed_out m \<Rightarrow> (False, m)
      | Run_error m \<Rightarrow> (False, m))"

section \<open>The gate\<close>

definition NTP_FAILURES_REQUIRED :: nat where "NTP_FAILURES_REQUIRED = 3"
definition NTP_CHECK_SECONDS :: rat where "NTP_CHECK_SECONDS = 30"
definition STEP_THRESHOLD_SECONDS :: int where "STEP_THRESHOLD_SECONDS = 120"
definition STEP_COOLDOWN_SECONDS :: rat where "STEP_COOLDOWN_SECONDS = 300"

record loss_gate =
  lg_required :: nat
  lg_failures :: nat

definition observe :: "bool \<Rightarrow> loss_gate \<Rightarrow> bool \<times> loss_gate" where
  "observe synced g =
     (if synced then (False, g\<lparr>lg_failures := 0\<rparr>)
      else let f = min (lg_failures g + 1) (lg_required g) in (lg_required g \<le> f, g\<lparr>lg_failures := f\<rparr>))"

section \<open>The service\<close>

record clock_service =
  ks_gate :: loss_gate
  ks_offline :: bool
  ks_last_step :: rat
  ks_state :: "string option"
  ks_ntp :: "bool option"
  ks_status :: dict

definition new_service :: clock_service where
  "new_service = \<lparr>ks_gate = \<lparr>lg_required = NTP_FAILURES_REQUIRED, lg_failures = 0\<rparr>, ks_offline = False,
     ks_last_step = - STEP_COOLDOWN_SECONDS, ks_state = None, ks_ntp = None, ks_status = []\<rparr>"

definition publish :: "dict \<Rightarrow> clock_service \<Rightarrow> clock_service" where
  "publish extra s = s\<lparr>ks_status := deep_merge
     [(''state'', PStr (case ks_state s of Some x \<Rightarrow> (if x = [] then ''starting'' else x) | None \<Rightarrow> ''starting'')),
      (''ntp_synchronized'', case ks_ntp s of Some x \<Rightarrow> PBool x | None \<Rightarrow> PNone),
      (''transport'', PStr ''AGW''), (''agw_port'', PInt AGW_PORT)] extra\<rparr>"

definition set_state :: "string \<Rightarrow> dict \<Rightarrow> clock_service \<Rightarrow> clock_service" where
  "set_state st extra s = publish extra (s\<lparr>ks_state := Some st\<rparr>)"

type_synonym clock_settings = "string \<times> string \<times> int"

definition dict_of :: "pyval option \<Rightarrow> dict" where
  "dict_of v = (case v of Some (PDict d) \<Rightarrow> d | _ \<Rightarrow> [])"

text \<open>A port that is not a number is a \<^verbatim>\<open>TypeError\<close> or a \<^verbatim>\<open>ValueError\<close>, both caught.\<close>

definition clock_settings :: "pylib \<Rightarrow> dict \<Rightarrow> clock_settings" where
  "clock_settings L cfg =
     (let st = dict_of (map_of cfg ''station''); dw = dict_of (map_of cfg ''direwolf'');
          clock = (case map_of st ''clock'' of Some v \<Rightarrow> v | None \<Rightarrow> PNone);
          host = (case map_of dw ''host'' of Some v \<Rightarrow> v | None \<Rightarrow> PNone)
      in (normalize_callsign (py_str L (py_or clock (PStr []))), py_str L (py_or host (PStr ''127.0.0.1'')),
          case int_of (case map_of dw ''port'' of Some v \<Rightarrow> v | None \<Rightarrow> PInt 8001) of Inr p \<Rightarrow> p | Inl x \<Rightarrow> 8001))"

definition update_ntp_gate :: "bool \<Rightarrow> clock_service \<Rightarrow> bool \<times> clock_service" where
  "update_ntp_gate synced s =
     (case observe synced (ks_gate s) of (off, g) \<Rightarrow>
        let s1 = s\<lparr>ks_ntp := Some synced, ks_offline := off, ks_gate := g\<rparr> in
        (off, if synced then set_state ''ntp-primary'' [] s1
              else if \<not> off then set_state ''confirming-ntp-loss'' [(''ntp_failures'', PInt (int (lg_failures g)))] s1
              else s1))"

text \<open>\<^verbatim>\<open>round\<close> of a float: to the nearest, halves to even.\<close>

definition py_round :: "rat \<Rightarrow> int" where
  "py_round q = (let f = \<lfloor>q\<rfloor>; d = q - of_int f in
     if d < 1/2 then f else if 1/2 < d then f + 1 else if even f then f else f + 1)"

text \<open>What happens outside while a frame is considered: the NTP answers, the wall clock, the monotonic
  clock before and after the setting, the answer of \<^verbatim>\<open>date\<close>, and the text of the new time.\<close>

record frame_env =
  fe_ntp :: "run list"
  fe_wall :: wall
  fe_now :: rat
  fe_date :: run
  fe_after :: rat
  fe_iso :: string

text \<open>The second component is the local time that was set, if one was.\<close>

definition consider_frame ::
  "frame_env \<Rightarrow> bytes \<Rightarrow> string \<Rightarrow> clock_service \<Rightarrow> nat option result \<times> clock_service" where
  "consider_frame e frame source s =
     (case aprs_time_from_frame frame source of
        Inl x \<Rightarrow> (Inl x, s)
      | Inr None \<Rightarrow> (Inr None, s)
      | Inr (Some a) \<Rightarrow>
          if ntp_answer (fe_ntp e) then
            (Inr None, set_state ''ntp-primary'' []
               (s\<lparr>ks_gate := snd (observe True (ks_gate s)), ks_ntp := Some True, ks_offline := False\<rparr>))
          else
            let (current, target) = clock_values (fe_wall e) a;
                delta = circular_delta_seconds (int current) (int (seconds_since_midnight a));
                since = fe_now e - ks_last_step s;
                packet = [(''source'', PStr source), (''last_packet_format'', PStr (at_format a)),
                          (''last_delta_seconds'', PInt delta)]
            in if \<bar>delta\<bar> \<le> STEP_THRESHOLD_SECONDS then (Inr None, set_state ''watching'' packet s)
               else if since < STEP_COOLDOWN_SECONDS then
                 (Inr None, set_state ''cooldown''
                    (packet @ [(''cooldown_remaining_seconds'', PInt (py_round (STEP_COOLDOWN_SECONDS - since)))]) s)
               else (case set_system_time (fe_date e) of (ok, detail) \<Rightarrow>
                 if ok then
                   (Inr (Some target), set_state ''stepped'' (packet @ [(''last_sync'', PStr (fe_iso e))])
                      (s\<lparr>ks_last_step := fe_after e\<rparr>))
                 else
                   (Inr None, set_state ''set-failed''
                      [(''source'', PStr source), (''last_delta_seconds'', PInt delta), (''error'', PStr detail)] s)))"

section \<open>The listener\<close>

text \<open>Where the coroutine is: between passes of \<^verbatim>\<open>run\<close>, opening the connection, or in the loop of
  \<^verbatim>\<open>listen_once\<close> with what the reader holds and the time of the next control check.\<close>

datatype clock_phase = Idle | Connecting clock_settings | Listening clock_settings bytes rat

text \<open>One round of the loop: what arrives, whether the server closes after it, and the readings.\<close>

record listen_env =
  le_arrived :: bytes
  le_closed :: bool
  le_frame :: frame_env
  le_now :: rat
  le_ntp :: "run list"
  le_settings :: clock_settings
  le_next :: rat

definition control_check :: "listen_env \<Rightarrow> clock_settings \<Rightarrow> clock_service \<Rightarrow> bool \<times> clock_service" where
  "control_check e st s =
     (case update_ntp_gate (ntp_answer (le_ntp e)) s of (off, s1) \<Rightarrow> (off \<and> le_settings e = st, s1))"

datatype listen_exit = Go_on bytes rat | Return | Raised exn

definition listen_iteration ::
  "listen_env \<Rightarrow> clock_settings \<Rightarrow> bytes \<Rightarrow> rat \<Rightarrow> clock_service \<Rightarrow> nat option \<times> listen_exit \<times> clock_service" where
  "listen_iteration e st arrived next_check s =
     (case read_agw_message (arrived @ le_arrived e) of
        Waiting rest \<Rightarrow>
          if le_closed e then (None, Raised (AppError ''IncompleteReadError'' []), s)
          else (case control_check e st s of (ok, s1) \<Rightarrow> (None, if ok then Go_on rest next_check else Return, s1))
      | Failed x rest \<Rightarrow> (None, Raised x, s)
      | Got m rest \<Rightarrow>
          (case (case raw_ax25_from_agw m of None \<Rightarrow> (Inr None, s)
                 | Some frame \<Rightarrow> consider_frame (le_frame e) frame (fst st) s) of
             (Inl x, s1) \<Rightarrow> (None, Raised x, s1)
           | (Inr done, s1) \<Rightarrow>
               if next_check \<le> le_now e then
                 (case control_check e st s1 of (ok, s2) \<Rightarrow>
                    (done, if ok then Go_on rest (le_next e + NTP_CHECK_SECONDS) else Return, s2))
               else (done, Go_on rest next_check, s1)))"

text \<open>A pass of \<^verbatim>\<open>run\<close> up to the connection, and what it does with an exception.\<close>

definition run_pass :: "clock_settings \<Rightarrow> bool \<Rightarrow> clock_service \<Rightarrow> clock_phase \<times> clock_service" where
  "run_pass st synced s =
     (if fst st = [] then
        (Idle, set_state ''disabled'' [] (s\<lparr>ks_gate := (ks_gate s)\<lparr>lg_failures := 0\<rparr>, ks_offline := False\<rparr>))
      else (case update_ntp_gate synced s of (off, s1) \<Rightarrow>
        if \<not> off then (Idle, s1)
        else (Connecting st, set_state ''connecting''
          [(''source'', PStr (fst st)), (''configured_kiss_port'', PInt (snd (snd st)))] s1)))"

definition connected :: "rat \<Rightarrow> clock_settings \<Rightarrow> clock_service \<Rightarrow> clock_phase \<times> clock_service" where
  "connected now st s =
     (Listening st [] (now + NTP_CHECK_SECONDS),
      set_state ''watching'' [(''source'', PStr (fst st)), (''configured_kiss_port'', PInt (snd (snd st)))] s)"

definition quiet_error :: "exn \<Rightarrow> bool" where
  "quiet_error x = (case x of ConnectionError _ \<Rightarrow> True | OSError _ \<Rightarrow> True | TimeoutError _ \<Rightarrow> True
     | AppError c _ \<Rightarrow> c = ''IncompleteReadError'' | _ \<Rightarrow> False)"

definition listener_failed :: "clock_settings \<Rightarrow> exn \<Rightarrow> clock_service \<Rightarrow> clock_phase \<times> clock_service" where
  "listener_failed st x s =
     (Idle, set_state (if quiet_error x then ''agw-unavailable'' else ''error'') [(''source'', PStr (fst st))] s)"

definition after_listen :: "clock_settings \<Rightarrow> listen_exit \<Rightarrow> clock_service \<Rightarrow> clock_phase \<times> clock_service" where
  "after_listen st x s =
     (case x of Go_on arrived t \<Rightarrow> (Listening st arrived t, s) | Return \<Rightarrow> (Idle, s) | Raised e \<Rightarrow> listener_failed st e s)"

section \<open>Facts\<close>

lemma normalize_call_str:
  assumes "call_ok st"
  shows "normalize_callsign (call_str st) = call_str st"
proof -
  obtain b n where st: "st = (b, n)" by (cases st)
  with assms have b: "b \<noteq> []" "length b \<le> 6" "list_all upper_digit b" "n < 16" "CHR ''-'' \<notin> set b"
    using base_facts(3) [of b] by (auto simp: upper_digit_def list_all_iff)
  then have "call_pattern upper_digit 1 6 ssid_0_15 (call_str st)"
    by (auto simp: st call_pattern_def of_class_def ssid_0_15_def partition_at_absent partition_at_append Suc_le_eq)
  then show ?thesis using call_str_plain [OF assms] by (simp add: normalize_callsign_def)
qed

lemma parsed_time_range:
  assumes "parse_aprs_time p = Some a"
  shows "at_hour a < 24" "at_minute a < 60" "at_second a < 60" "seconds_since_midnight a < 86400"
proof -
  show *: "at_hour a < 24" "at_minute a < 60" "at_second a < 60"
    using assms by (auto simp: parse_aprs_time_def Let_def split: option.splits if_splits)
  then show "seconds_since_midnight a < 86400" by (simp add: seconds_since_midnight_def)
qed

lemma circular_delta:
  "- 43200 \<le> circular_delta_seconds c t" "circular_delta_seconds c t < 43200"
  "(c + circular_delta_seconds c t) mod 86400 = t mod 86400"
proof -
  show "- 43200 \<le> circular_delta_seconds c t" "circular_delta_seconds c t < 43200"
    by (simp_all add: circular_delta_seconds_def)
  have "circular_delta_seconds c t = t - c - 86400 * ((t - c + 43200) div 86400)"
    by (simp add: circular_delta_seconds_def minus_mult_div_eq_mod [symmetric])
  then have "c + circular_delta_seconds c t = t + 86400 * (- ((t - c + 43200) div 86400))" by simp
  then show "(c + circular_delta_seconds c t) mod 86400 = t mod 86400" by (simp only: mod_mult_self2)
qed

lemma time_of_day: "tod < 86400 \<Longrightarrow> at_time_of_day w tod mod 86400 = tod"
  "tod < 86400 \<Longrightarrow> at_time_of_day w tod div 86400 = w div 86400"
  by (simp_all add: at_time_of_day_def)

text \<open>A header and its data are read back whatever follows; without the data the header is gone.\<close>

lemma un_le32: "n < 2 ^ 32 \<Longrightarrow> un_le32 (le32 n) = n"
proof -
  assume n: "n < 2 ^ 32"
  have 1: "n = n mod 256 + 256 * (n div 256)" "n div 256 = n div 256 mod 256 + 256 * (n div 65536)"
    "n div 65536 = n div 65536 mod 256 + 256 * (n div 16777216)"
    using div_mult2_eq [of n 256 256] div_mult2_eq [of n 65536 256] by simp_all
  from n have "n div 16777216 < 256" by (simp add: less_mult_imp_div_less)
  then have "un_le32 (le32 n) = n mod 256 + 256 * (n div 256 mod 256) + 65536 * (n div 65536 mod 256)
      + 16777216 * (n div 16777216)"
    by (simp add: un_le32_def le32_def unat_of_nat take_bit_eq_mod)
  with 1 show ?thesis by linarith
qed

lemma agw_pack_fields:
  assumes "length h = 8" "n < 2 ^ 32"
  shows "length (agw_pack h a b n m) = AGW_SIZE" "agw_data_len (agw_pack h a b n m) = n"
    "i < 8 \<Longrightarrow> agw_pack h a b n m ! i = h ! i"
  using assms un_le32 [of n]
  by (simp_all add: agw_pack_def AGW_SIZE_def le32_def agw_data_len_def nth_append)

lemma read_agw_packed:
  assumes "length h = 8" "length d \<le> AGW_MAX_DATA"
  shows "\<exists>g. read_agw_message (agw_pack h a b (length d) m @ d @ rest) = Got g rest
      \<and> ag_data g = d \<and> ag_kind g = chr (unat (h ! 4))"
  using assms agw_pack_fields(1,2) [of h "length d" a b m] agw_pack_fields(3) [of h "length d" 4 a b m]
  by (simp add: read_agw_message_def parse_agw_message_def Let_def AGW_MAX_DATA_def)

lemma waiting_drops_header:
  assumes "length h = 8" "length d \<le> AGW_MAX_DATA" "k < length d"
  shows "read_agw_message (agw_pack h a b (length d) m @ take k d) = Waiting (take k d)"
  using assms agw_pack_fields(1,2) [of h "length d" a b m]
  by (simp add: read_agw_message_def Let_def AGW_MAX_DATA_def)

text \<open>A report that a station sends in a UI frame is read with its time.\<close>

lemma heard_report:
  assumes "call_ok st" "call_ok dest" "list_all call_ok ds" "length ds \<le> 8"
    and "make_frame (call_str dest) (call_str st) UI payload PID_NO_L3 response (map call_str ds) = Inr frame"
  shows "aprs_time_from_frame frame (call_str st) = Inr (parse_aprs_time payload)"
  using make_split_frame [OF assms(2,1,3,4), of UI PID_NO_L3 payload response] assms(5) normalize_call_str [OF assms(1)]
  by (simp add: aprs_time_from_frame_def)

section \<open>Runs of the daemon\<close>

text \<open>A setting of the clock with what it was made of, and what makes it due.\<close>

record setting =
  se_env :: frame_env
  se_frame :: bytes
  se_source :: string
  se_target :: nat

definition heard_frame :: "bytes \<Rightarrow> bytes option" where
  "heard_frame arrived = (case read_agw_message arrived of Got m rest \<Rightarrow> raw_ax25_from_agw m | _ \<Rightarrow> None)"

definition settings_made :: "listen_env \<Rightarrow> clock_settings \<Rightarrow> bytes \<Rightarrow> nat option \<Rightarrow> setting list" where
  "settings_made e st held done =
     (case (done, heard_frame (held @ le_arrived e)) of
        (Some t, Some f) \<Rightarrow> [\<lparr>se_env = le_frame e, se_frame = f, se_source = fst st, se_target = t\<rparr>]
      | _ \<Rightarrow> [])"

definition due_setting :: "setting \<Rightarrow> bool" where
  "due_setting x =
     (case aprs_time_from_frame (se_frame x) (se_source x) of
        Inr (Some a) \<Rightarrow>
          se_source x \<noteq> [] \<and> \<not> ntp_answer (fe_ntp (se_env x))
          \<and> STEP_THRESHOLD_SECONDS < \<bar>circular_delta_seconds (int (fst (clock_values (fe_wall (se_env x)) a)))
              (int (seconds_since_midnight a))\<bar>
          \<and> fst (set_system_time (fe_date (se_env x))) \<and> se_target x = snd (clock_values (fe_wall (se_env x)) a)
      | _ \<Rightarrow> False)"

definition cooled_down :: "setting \<Rightarrow> setting \<Rightarrow> bool" where
  "cooled_down x y \<longleftrightarrow> fe_after (se_env x) + STEP_COOLDOWN_SECONDS \<le> fe_now (se_env y)"

inductive clock_run :: "setting list \<Rightarrow> clock_phase \<Rightarrow> clock_service \<Rightarrow> bool" where
  clock_start: "clock_run [] Idle new_service"
| clock_pass: "clock_run h Idle s \<Longrightarrow> run_pass st (ntp_answer rs) s = (ph, s') \<Longrightarrow> clock_run h ph s'"
| clock_open: "clock_run h (Connecting st) s \<Longrightarrow> connected now st s = (ph, s') \<Longrightarrow> clock_run h ph s'"
| clock_refused: "clock_run h (Connecting st) s \<Longrightarrow> listener_failed st x s = (ph, s') \<Longrightarrow> clock_run h ph s'"
| clock_listen: "clock_run h (Listening st held t) s \<Longrightarrow> listen_iteration e st held t s = (done, x, s1) \<Longrightarrow>
    after_listen st x s1 = (ph, s') \<Longrightarrow> clock_run (h @ settings_made e st held done) ph s'"

text \<open>Where the coroutine listens for a source, it has one.\<close>

fun phase_source :: "clock_phase \<Rightarrow> string option" where
  "phase_source Idle = None"
| "phase_source (Connecting st) = Some (fst st)"
| "phase_source (Listening st held t) = Some (fst st)"

definition clock_ok :: "setting list \<Rightarrow> clock_phase \<Rightarrow> clock_service \<Rightarrow> bool" where
  "clock_ok h ph s \<longleftrightarrow> list_all due_setting h \<and> successively cooled_down h \<and> phase_source ph \<noteq> Some []
     \<and> (if h = [] then True else ks_last_step s = fe_after (se_env (last h)))"

lemma last_step_kept [simp]:
  "ks_last_step (set_state st extra s) = ks_last_step s"
  "ks_last_step (snd (update_ntp_gate b s)) = ks_last_step s"
  "ks_last_step (snd (control_check e cs s)) = ks_last_step s"
  by (simp_all add: set_state_def publish_def update_ntp_gate_def control_check_def Let_def split: prod.split)

lemma update_keeps: "update_ntp_gate b s = (off, s') \<Longrightarrow> ks_last_step s' = ks_last_step s"
  using last_step_kept(2) [of b s] by simp

lemma consider_frame_setting:
  assumes "consider_frame e frame source s = (r, s1)"
  shows "ks_last_step s1 = (if \<exists>t. r = Inr (Some t) then fe_after e else ks_last_step s)"
    "r = Inr (Some t) \<Longrightarrow> source \<noteq> [] \<Longrightarrow>
       due_setting \<lparr>se_env = e, se_frame = frame, se_source = source, se_target = t\<rparr>
       \<and> ks_last_step s + STEP_COOLDOWN_SECONDS \<le> fe_now e"
  using assms
  by (auto simp: consider_frame_def due_setting_def Let_def split: sum.splits option.splits if_splits prod.splits)

lemma listen_iteration_cases:
  assumes "listen_iteration e st held t s = (done, x, s1)"
  shows "(done = None \<and> ks_last_step s1 = ks_last_step s)
    \<or> (\<exists>f tgt. done = Some tgt \<and> heard_frame (held @ le_arrived e) = Some f
        \<and> fst (consider_frame (le_frame e) f (fst st) s) = Inr (Some tgt)
        \<and> ks_last_step s1 = fe_after (le_frame e))"
proof -
  have keep: "ks_last_step s2 = ks_last_step s0" if "control_check e st s0 = (ok, s2)" for s0 ok s2
    using that last_step_kept(3) [of e st s0] by simp
  have con: "ks_last_step s2 = (if \<exists>t. r = Inr (Some t) then fe_after (le_frame e) else ks_last_step s)"
    if "consider_frame (le_frame e) f (fst st) s = (r, s2)" for f r s2
    using consider_frame_setting(1) [OF that] .
  show ?thesis
  proof (cases "read_agw_message (held @ le_arrived e)")
    case (Got m rest)
    show ?thesis
    proof (cases "raw_ax25_from_agw m")
      case None
      with assms Got keep show ?thesis
        by (auto simp: listen_iteration_def split: if_splits prod.splits)
    next
      case (Some f)
      obtain r s2 where c: "consider_frame (le_frame e) f (fst st) s = (r, s2)" by fastforce
      with assms Got Some keep con [OF c] show ?thesis
        by (cases r) (auto simp: listen_iteration_def heard_frame_def split: if_splits prod.splits)
    qed
  next
    case (Waiting rest)
    with assms keep show ?thesis
      by (auto simp: listen_iteration_def split: if_splits prod.splits)
  next
    case (Failed y rest)
    with assms show ?thesis by (simp add: listen_iteration_def)
  qed
qed

lemma clock_run_ok: "clock_run h ph s \<Longrightarrow> clock_ok h ph s"
proof (induction rule: clock_run.induct)
  case clock_start
  then show ?case by (simp add: clock_ok_def)
next
  case (clock_pass h s st rs ph s')
  from clock_pass(2) have "ks_last_step s' = ks_last_step s" "phase_source ph \<noteq> Some []"
    by (auto simp: run_pass_def split: if_splits prod.splits dest!: update_keeps)
  with clock_pass(3) show ?case by (simp add: clock_ok_def)
next
  case (clock_open h st s now ph s')
  then show ?case by (auto simp: clock_ok_def connected_def)
next
  case (clock_refused h st s x ph s')
  then show ?case by (auto simp: clock_ok_def listener_failed_def)
next
  case (clock_listen h st held t s e made x s1 ph s')
  have src: "fst st \<noteq> []" and ok: "clock_ok h (Listening st held t) s" using clock_listen(4) by (simp_all add: clock_ok_def)
  have ph: "phase_source ph \<noteq> Some []" "ks_last_step s' = ks_last_step s1"
    using clock_listen(3) src by (auto simp: after_listen_def listener_failed_def split: listen_exit.splits)
  from listen_iteration_cases [OF clock_listen(2)] show ?case
  proof (elim disjE exE conjE)
    assume "made = None" "ks_last_step s1 = ks_last_step s"
    with ok ph show ?thesis by (simp add: clock_ok_def settings_made_def)
  next
    fix f tgt
    assume d: "made = Some tgt" "heard_frame (held @ le_arrived e) = Some f"
      "fst (consider_frame (le_frame e) f (fst st) s) = Inr (Some tgt)" "ks_last_step s1 = fe_after (le_frame e)"
    then obtain s2 where "consider_frame (le_frame e) f (fst st) s = (Inr (Some tgt), s2)" by (metis prod.collapse)
    from consider_frame_setting(2) [OF this refl src] d ok ph show ?thesis
      by (auto simp: clock_ok_def settings_made_def successively_append_iff cooled_down_def split: if_splits)
  qed
qed

text \<open>A run that sets the clock: three passes without NTP, the connection, and a report at 12:00:00 of a
  board that reads 10:00:00.\<close>

definition noon_payload :: bytes where
  "noon_payload = map (\<lambda>c. word_of_nat (ord c)) ''/120000h4903.50N/07201.75W>''"

definition noon_time :: aprs_time where
  "noon_time = \<lparr>at_hour = 12, at_minute = 0, at_second = 0, at_utc = True, at_format = ''HHMMSSh''\<rparr>"

lemma ascii_strict_text:
  assumes "list_all (\<lambda>c. ord c < 128) s"
  shows "ascii_strict (map (\<lambda>c. word_of_nat (ord c)) s) = Some s"
proof -
  have "(word_of_nat (ord c) :: byte) < 128 \<and> chr (unat (word_of_nat (ord c) :: byte)) = c" if "c \<in> set s" for c
  proof -
    from assms that have "ord c < 128" by (simp add: list_all_iff)
    then show ?thesis by (simp add: word_less_nat_alt unat_of_nat take_bit_eq_mod)
  qed
  then show ?thesis by (auto simp: ascii_strict_def list_all_iff intro!: map_idI)
qed

lemma parse_noon: "parse_aprs_time noon_payload = Some noon_time"
proof -
  have "ascii_strict noon_payload = Some ''/120000h4903.50N/07201.75W>''"
    unfolding noon_payload_def by (rule ascii_strict_text) (simp add: ord_def)
  then show ?thesis
    by (simp add: parse_aprs_time_def timestamp_field_def noon_time_def ts_pattern_def
      is_digit_def lower_char_def is_upper_def dec_val_def digit_val_def ord_def Let_def)
qed

text \<open>The frame as the station sends it, and as the AGW port hands it on.\<close>

definition noon_frame :: bytes where
  "noon_frame = (case make_frame ''APKPPR'' ''KP4PRA-9'' UI noon_payload PID_NO_L3 False [] of Inr f \<Rightarrow> f | Inl x \<Rightarrow> [])"

definition noon_message :: bytes where
  "noon_message = agw_pack [0, 0, 0, 0, 75, 0, 0, 0] [] [] (length (0 # noon_frame)) 0 @ 0 # noon_frame"

lemma noon_calls: "call_ok (''KP4PRA'', 9)" "call_ok (''APKPPR'', 0)" "call_str (''KP4PRA'', 9) = ''KP4PRA-9''"
  "call_str (''APKPPR'', 0) = ''APKPPR''"
proof -
  have "show_nat 9 = ''9''" by code_simp
  then show "call_str (''KP4PRA'', 9) = ''KP4PRA-9''" by simp
qed (simp_all add: is_upper_def is_digit_def ord_def)

lemma noon_frame: "aprs_time_from_frame noon_frame ''KP4PRA-9'' = Inr (Some noon_time)" "length noon_frame = 43"
proof -
  have mk: "make_frame ''APKPPR'' ''KP4PRA-9'' UI noon_payload PID_NO_L3 False [] = Inr noon_frame"
    and "length noon_frame = 43"
  proof -
    have "length noon_payload = 27" by (simp add: noon_payload_def)
    with make_frame_calls [OF noon_calls(2,1), of "[]" PID_NO_L3 UI noon_payload False] noon_calls
    show "make_frame ''APKPPR'' ''KP4PRA-9'' UI noon_payload PID_NO_L3 False [] = Inr noon_frame"
      and "length noon_frame = 43"
      by (simp_all add: noon_frame_def length_call_field)
  qed
  then show "length noon_frame = 43" by simp
  show "aprs_time_from_frame noon_frame ''KP4PRA-9'' = Inr (Some noon_time)"
    using heard_report [OF noon_calls(1,2), of "[]" noon_payload False noon_frame] mk parse_noon noon_calls by simp
qed

lemma noon_read:
  "\<exists>m. read_agw_message noon_message = Got m [] \<and> raw_ax25_from_agw m = Some noon_frame"
proof -
  have "chr (unat (75 :: byte)) = CHR ''K''" by code_simp
  with read_agw_packed [of "[0, 0, 0, 0, 75, 0, 0, 0]" "0 # noon_frame" "[]" "[]" 0 "[]"] noon_frame(2)
  show ?thesis by (auto simp: noon_message_def AGW_MAX_DATA_def raw_ax25_from_agw_def)
qed

definition noon_settings :: clock_settings where
  "noon_settings = (''KP4PRA-9'', ''127.0.0.1'', 8001)"

definition noon_env :: frame_env where
  "noon_env = \<lparr>fe_ntp = [Ran 0 ''no'' []], fe_wall = \<lparr>wl_local = 21600, wl_offset = - 14400\<rparr>, fe_now = 100,
     fe_date = Ran 0 [] [], fe_after = 101, fe_iso = []\<rparr>"

definition noon_listen :: listen_env where
  "noon_listen = \<lparr>le_arrived = noon_message, le_closed = False, le_frame = noon_env, le_now = 100, le_ntp = [],
     le_settings = noon_settings, le_next = 100\<rparr>"

lemma noon_considered:
  assumes "ks_last_step s = - STEP_COOLDOWN_SECONDS"
  shows "fst (consider_frame noon_env noon_frame ''KP4PRA-9'' s) = Inr (Some 28800)"
proof -
  have "lower (strip ''no'') = ''no''"
    by (simp add: strip_def lstrip_def rstrip_def lower_def lower_char_def is_space_def is_upper_def ord_def)
  then have "\<not> ntp_answer (fe_ntp noon_env)" by (simp add: noon_env_def)
  with assms show ?thesis
    by (simp add: consider_frame_def noon_frame(1) clock_values_def noon_env_def noon_time_def
      seconds_since_midnight_def circular_delta_seconds_def STEP_THRESHOLD_SECONDS_def STEP_COOLDOWN_SECONDS_def
      set_system_time_def at_time_of_day_def)
qed

lemma noon_run:
  "\<exists>ph s. clock_run [\<lparr>se_env = noon_env, se_frame = noon_frame, se_source = ''KP4PRA-9'', se_target = 28800\<rparr>] ph s"
proof -
  define pass where "pass s = snd (run_pass noon_settings (ntp_answer []) s)" for s
  have p: "run_pass noon_settings (ntp_answer []) s = (if 2 \<le> lg_failures (ks_gate s) then Connecting noon_settings else Idle, pass s)"
    "lg_failures (ks_gate (pass s)) = min 3 (lg_failures (ks_gate s) + 1)" "lg_required (ks_gate (pass s)) = 3"
    "ks_last_step (pass s) = ks_last_step s"
    if "lg_required (ks_gate s) = 3" for s
    using that by (auto simp: pass_def run_pass_def update_ntp_gate_def observe_def Let_def set_state_def publish_def noon_settings_def
        min_def)
  let ?s0 = new_service
  have n: "lg_required (ks_gate ?s0) = 3" "lg_failures (ks_gate ?s0) = 0" "ks_last_step ?s0 = - STEP_COOLDOWN_SECONDS"
    by (simp_all add: new_service_def NTP_FAILURES_REQUIRED_def)
  let ?s1 = "pass ?s0" and ?s2 = "pass (pass ?s0)" and ?s3 = "pass (pass (pass ?s0))"
  have "clock_run [] Idle ?s1" using clock_run.clock_pass [OF clock_start p(1) [OF n(1)]] n by simp
  from clock_run.clock_pass [OF this p(1)] have "clock_run [] Idle ?s2" using p n by simp
  from clock_run.clock_pass [OF this p(1)] have r: "clock_run [] (Connecting noon_settings) ?s3" using p n by simp
  obtain ph4 s4 where c: "connected 0 noon_settings ?s3 = (ph4, s4)" by fastforce
  have s4: "ph4 = Listening noon_settings [] 30" "ks_last_step s4 = - STEP_COOLDOWN_SECONDS"
    using c p n by (auto simp: connected_def NTP_CHECK_SECONDS_def)
  from clock_run.clock_open [OF r c] s4 have r4: "clock_run [] (Listening noon_settings [] 30) s4" by simp
  obtain m where m: "read_agw_message noon_message = Got m []" "raw_ax25_from_agw m = Some noon_frame" using noon_read by blast
  obtain made x s5 where i: "listen_iteration noon_listen noon_settings [] 30 s4 = (made, x, s5)" by (metis prod_cases3)
  obtain ph6 s6 where a: "after_listen noon_settings x s5 = (ph6, s6)" by fastforce
  have "made = Some 28800"
    using i m noon_considered [OF s4(2)]
    by (auto simp: listen_iteration_def noon_listen_def noon_settings_def split: prod.splits if_splits)
  then have "settings_made noon_listen noon_settings [] made
      = [\<lparr>se_env = noon_env, se_frame = noon_frame, se_source = ''KP4PRA-9'', se_target = 28800\<rparr>]"
    using m by (simp add: settings_made_def heard_frame_def noon_listen_def noon_settings_def)
  with clock_run.clock_listen [OF r4 i a] show ?thesis by auto
qed

section \<open>Properties\<close>





text \<open>A board that is four minutes slow just before midnight is moved back by almost a day.\<close>

lemma step_across_midnight:
  "clock_values \<lparr>wl_local = 86400 + 86340, wl_offset = 0\<rparr>
     \<lparr>at_hour = 0, at_minute = 3, at_second = 0, at_utc = True, at_format = ''HHMMSSh''\<rparr> = (86340, 86400 + 180)
   \<and> circular_delta_seconds 86340 180 = 240"
  by (simp add: clock_values_def at_time_of_day_def seconds_since_midnight_def circular_delta_seconds_def)

text \<open>The gate opens exactly on three failed checks in a row, whatever came before.\<close>

lemma gate_failures:
  "let g = foldr (\<lambda>x g. snd (observe x g)) obs \<lparr>lg_required = 3, lg_failures = 0\<rparr>
   in lg_required g = 3 \<and> lg_failures g = min 3 (length (takeWhile Not obs))"
  by (induction obs) (auto simp: observe_def Let_def)

theorem gate_opens_after_three:
  "fst (observe x (foldr (\<lambda>x g. snd (observe x g)) obs \<lparr>lg_required = 3, lg_failures = 0\<rparr>))
     = (take 3 (x # obs) = [False, False, False])"
  using gate_failures [of obs]
  by (cases obs; cases "tl obs") (auto simp: observe_def Let_def min_def split: if_splits)

text \<open>A report heard when NTP is back resets the gate but not the listener: the next report sets the clock on
  a single failed query.\<close>

theorem clock_set_after_ntp_returned:
  assumes "aprs_time_from_frame f source = Inr (Some a)" "ntp_answer (fe_ntp e1)" "\<not> ntp_answer (fe_ntp e2)"
    and "clock_values (fe_wall e2) a = (current, target)"
    and "STEP_THRESHOLD_SECONDS < \<bar>circular_delta_seconds (int current) (int (seconds_since_midnight a))\<bar>"
    and "ks_last_step s + STEP_COOLDOWN_SECONDS \<le> fe_now e2" "fst (set_system_time (fe_date e2))"
  shows "case consider_frame e1 f source s of (r1, s1) \<Rightarrow>
     r1 = Inr None \<and> lg_failures (ks_gate s1) = 0 \<and> (ks_offline s1 = False)
     \<and> fst (consider_frame e2 f source s1) = Inr (Some target)"
  using assms
  by (auto simp: consider_frame_def observe_def set_state_def publish_def Let_def split: prod.splits)

end
