(* ===== verification/Modem_Conf.thy ===== *)
theory Modem_Conf
  imports Provision Mail_Validate
begin

text \<open>
  The configuration files of the two modems: the board table (src/src/common/dra_platform.py), the
  generator of direwolf.conf (src/src/common/direwolf_conf.py) and that of the Xara configuration
  (src/src/common/xara_conf.py). A station is the dict of the configuration file, with values of any type;
  what the system tools print is an argument, as a list of lines, None when the tool cannot be run.
\<close>

section \<open>Boards\<close>

record platform =
  pf_name :: string
  pf_card :: string
  pf_ptt :: "string \<times> string"
  pf_dcd :: "string \<times> string"
  pf_led :: "string \<times> string"

definition PLATFORMS :: "(string \<times> platform) list" where
  "PLATFORMS =
     [(''rpi'', \<lparr>pf_name = ''Raspberry Pi'', pf_card = ''audioinjectorpi'', pf_ptt = (''gpiochip0'', ''12''),
        pf_dcd = (''gpiochip0'', ''16''), pf_led = (''gpiochip0'', ''5'')\<rparr>),
      (''opi-zero2w'', \<lparr>pf_name = ''Orange Pi Zero 2W'', pf_card = ''DRAPiZero'', pf_ptt = (''gpiochip1'', ''267''),
        pf_dcd = (''gpiochip1'', ''76''), pf_led = (''gpiochip1'', ''256'')\<rparr>)]"

definition platform_from_model :: "string \<Rightarrow> string option" where
  "platform_from_model model =
     (let m = filter (\<lambda>c. c \<noteq> CHR '' '') (lower model) in
      if contains ''raspberrypi'' m then Some ''rpi''
      else if contains ''orangepizero2w'' m then Some ''opi-zero2w'' else None)"

text \<open>The model text of the device tree, None when it cannot be read.\<close>

definition detect_platform :: "string option \<Rightarrow> string option" where
  "detect_platform model = (case model of None \<Rightarrow> None | Some t \<Rightarrow> platform_from_model t)"

definition platform_info :: "string option \<Rightarrow> string option \<Rightarrow> platform" where
  "platform_info platform model =
     (let key = (case platform of
                   Some k \<Rightarrow> if map_of PLATFORMS k \<noteq> None then Some k else detect_platform model
                 | None \<Rightarrow> detect_platform model)
      in case map_of PLATFORMS (case key of Some k \<Rightarrow> (if k = [] then ''rpi'' else k) | None \<Rightarrow> ''rpi'') of
           Some p \<Rightarrow> p | None \<Rightarrow> snd (hd PLATFORMS))"

definition is_dra_adevice :: "string \<Rightarrow> bool" where
  "is_dra_adevice adevice =
     (let low = lower adevice in
      contains ''audioinjector'' low \<or> list_ex (\<lambda>(k, p). contains (lower (pf_card p)) low) PLATFORMS)"

definition dra_ptt_param :: "string option \<Rightarrow> string option \<Rightarrow> string" where
  "dra_ptt_param platform model = (case pf_ptt (platform_info platform model) of (chip, pin) \<Rightarrow> chip @ '' '' @ pin)"

definition dra_dcd_line :: "string option \<Rightarrow> string option \<Rightarrow> string" where
  "dra_dcd_line platform model =
     (case pf_dcd (platform_info platform model) of (chip, pin) \<Rightarrow> ''DCD GPIOD '' @ chip @ '' '' @ pin)"

definition foreign_dra_ptt_params :: "string option \<Rightarrow> string option \<Rightarrow> string set" where
  "foreign_dra_ptt_params platform model =
     set (map (\<lambda>(k, p). case pf_ptt p of (chip, pin) \<Rightarrow> chip @ '' '' @ pin) PLATFORMS) - {dra_ptt_param platform model}"

text \<open>\<^verbatim>\<open>setup_state\<close>, its state without the hint, over what its file probes find: times are those of the
  files and of the boot, 0 when the boot time is unknown.\<close>

record dra_probe =
  dp_resume :: bool
  dp_started :: bool
  dp_kernel_dir :: bool
  dp_drivers :: "rat list"
  dp_overlay :: "rat option"
  dp_overlay_set :: bool
  dp_cfg :: "(string \<times> rat) list"
  dp_boot :: rat

fun rpi_setup_state :: "rat \<Rightarrow> (string \<times> rat) list \<Rightarrow> string" where
  "rpi_setup_state boot [] = ''not_set_up''"
| "rpi_setup_state boot ((txt, mtime) # cfgs) =
     (if txt = [] then rpi_setup_state boot cfgs
      else if \<not> contains ''dtoverlay=audioinjector-wm8731-audio'' txt then ''not_set_up''
      else if boot \<noteq> 0 \<and> boot < mtime then ''reboot_needed'' else ''no_card'')"

definition setup_state :: "string option \<Rightarrow> dra_probe \<Rightarrow> string" where
  "setup_state plat p =
     (if plat = Some ''opi-zero2w'' then
        (if dp_resume p then ''in_progress''
         else if \<not> (dp_started p \<or> dp_overlay p \<noteq> None) then ''not_set_up''
         else if \<not> dp_kernel_dir p then ''kernel_pending''
         else (case dp_overlay p of
           None \<Rightarrow> ''incomplete''
         | Some t \<Rightarrow>
             if dp_drivers p = [] \<or> \<not> dp_overlay_set p then ''incomplete''
             else if dp_boot p \<noteq> 0 \<and> dp_boot p < foldl max t (dp_drivers p) then ''reboot_needed''
             else ''no_card''))
      else rpi_setup_state (dp_boot p) (dp_cfg p))"

section \<open>Sound cards\<close>

text \<open>\<^verbatim>\<open>s.split()\<close>, \<^verbatim>\<open>s.isdigit()\<close>.\<close>

fun tokens_from :: "string \<Rightarrow> string \<Rightarrow> string list" where
  "tokens_from w [] = (if w = [] then [] else [w])"
| "tokens_from w (c # cs) =
     (if is_space c then (if w = [] then [] else [w]) @ tokens_from [] cs else tokens_from (w @ [c]) cs)"

definition tokens :: "string \<Rightarrow> string list" where
  "tokens s = tokens_from [] s"

definition str_isdigit :: "string \<Rightarrow> bool" where
  "str_isdigit s \<longleftrightarrow> s \<noteq> [] \<and> list_all py_isdigit s"

definition CARD_SIGNATURES :: "(string \<times> string list) list" where
  "CARD_SIGNATURES =
     [(''CM108 USB dongle'', [''cm108'', ''c-media'', ''usb audio device'', ''usb pnp sound'']),
      (''Signalink'', [''usb audio codec'']),
      (''Yaesu USB radio'', [''yaesu'', ''ft-991'', ''ftdx'']),
      (''Icom USB radio'', [''icom'', ''ic-7300'', ''ic-705'', ''ic-9700'']),
      (''Kenwood USB radio'', [''kenwood'', ''ts-590'', ''ts-890'']),
      (''DRA-Pi-Zero (I2S)'', [''audioinjector'', ''drapizero''])]"

definition PTT_SUGGESTIONS :: "(string \<times> string \<times> string option) list" where
  "PTT_SUGGESTIONS =
     [(''CM108 USB dongle'', ''CM108'', Some []), (''Signalink'', ''VOX'', Some []),
      (''Yaesu USB radio'', ''RTS'', Some ''/dev/ttyUSB1''), (''Icom USB radio'', ''RTS'', Some ''/dev/ttyUSB1''),
      (''Kenwood USB radio'', ''RTS'', Some ''/dev/ttyUSB0''), (''DRA-Pi-Zero (I2S)'', ''GPIOD'', None)]"

text \<open>\<^verbatim>\<open>re.match(r"card (\d+): (\S+) \[(.*?)\], device (\d+):", line)\<close>: the card number, its id, its
  description up to the first closing that fits, the device number.\<close>

fun find_device :: "string \<Rightarrow> string \<Rightarrow> (string \<times> string) option" where
  "find_device desc s =
     (let d = takeWhile is_digit (drop 10 s) in
      if startswith ''], device '' s \<and> d \<noteq> [] \<and> startswith '':'' (dropWhile is_digit (drop 10 s)) then Some (desc, d)
      else case s of [] \<Rightarrow> None | c # cs \<Rightarrow> find_device (desc @ [c]) cs)"

declare find_device.simps [simp del]

definition match_card :: "string \<Rightarrow> (string \<times> string \<times> string \<times> string) option" where
  "match_card line =
     (let n = takeWhile is_digit (drop 5 line); r1 = dropWhile is_digit (drop 5 line);
          i = takeWhile (\<lambda>c. \<not> is_space c) (drop 2 r1); r2 = dropWhile (\<lambda>c. \<not> is_space c) (drop 2 r1)
      in if \<not> startswith ''card '' line \<or> n = [] \<or> \<not> startswith '': '' r1 \<or> i = [] \<or> \<not> startswith '' ['' r2 then None
         else map_option (\<lambda>(desc, dev). (n, i, desc, dev)) (find_device [] (drop 2 r2)))"

record sound_env =
  sn_model :: "string option"
  sn_cp210x :: nat
  sn_aplay :: "string list option"
  sn_cm108 :: "string list option"

record sound_card =
  sc_card :: nat
  sc_name :: string
  sc_label :: string
  sc_plughw :: string
  sc_ptt :: string
  sc_ptt_param :: string

definition card_label :: "nat \<Rightarrow> string \<Rightarrow> string" where
  "card_label cp210x name =
     (let low = lower name;
          label = (case find (\<lambda>(l, ks). list_ex (\<lambda>k. contains k low) ks) CARD_SIGNATURES of
                     Some (l, ks) \<Rightarrow> l | None \<Rightarrow> name)
      in if label = ''Signalink'' \<and> 2 \<le> cp210x then ''Yaesu USB radio'' else label)"

definition card_entry :: "sound_env \<Rightarrow> string \<times> string \<times> string \<times> string \<Rightarrow> sound_card" where
  "card_entry E = (\<lambda>(num, i, desc, dev).
     let label = card_label (sn_cp210x E) desc;
         (ptt, param) = (case map_of PTT_SUGGESTIONS label of Some x \<Rightarrow> x | None \<Rightarrow> ([], Some []))
     in \<lparr>sc_card = dec_val num, sc_name = desc, sc_label = label, sc_plughw = ''plughw:'' @ i @ '','' @ dev,
         sc_ptt = ptt,
         sc_ptt_param = (case param of Some x \<Rightarrow> x | None \<Rightarrow> dra_ptt_param None (sn_model E))\<rparr>)"

definition add_card :: "sound_env \<Rightarrow> sound_card list \<Rightarrow> string \<Rightarrow> sound_card list" where
  "add_card E cards line =
     (case match_card line of None \<Rightarrow> cards
      | Some m \<Rightarrow>
          let entry = card_entry E m in
          if list_ex (\<lambda>x. sc_plughw x = sc_plughw entry) cards then cards else cards @ [entry])"

definition detect_sound_cards :: "sound_env \<Rightarrow> sound_card list" where
  "detect_sound_cards E = (case sn_aplay E of None \<Rightarrow> [] | Some ls \<Rightarrow> foldl (add_card E) [] ls)"

text \<open>The first \<^verbatim>\<open>plughw:\<close> token of each of the two forms, name and number.\<close>

definition cm108_token :: "string option \<times> string option \<Rightarrow> string \<Rightarrow> string option \<times> string option" where
  "cm108_token forms tok =
     (if \<not> startswith ''plughw:'' tok then forms
      else case forms of (name, number) \<Rightarrow>
        if str_isdigit (take 1 (drop 7 tok)) then (name, Some (case number of Some x \<Rightarrow> x | None \<Rightarrow> tok))
        else (Some (case name of Some x \<Rightarrow> x | None \<Rightarrow> tok), number))"

definition detect_cm108_adevice :: "sound_env \<Rightarrow> string option" where
  "detect_cm108_adevice E =
     (case sn_cm108 E of None \<Rightarrow> None
      | Some ls \<Rightarrow>
          (case foldl (\<lambda>f l. if contains ''/dev/hidraw'' l then foldl cm108_token f (tokens l) else f) (None, None) ls of
             (Some x, _) \<Rightarrow> Some x | (None, y) \<Rightarrow> y))"

fun hidraw_from :: "string \<Rightarrow> string option \<Rightarrow> string list \<Rightarrow> string option" where
  "hidraw_from want first [] = first"
| "hidraw_from want first (l # ls) =
     (case find (startswith ''/dev/hidraw'') (tokens l) of
        None \<Rightarrow> hidraw_from want first ls
      | Some hid \<Rightarrow>
          if want \<noteq> [] \<and> want \<in> set (tokens l) then Some hid
          else hidraw_from want (Some (case first of Some x \<Rightarrow> x | None \<Rightarrow> hid)) ls)"

definition find_cm108_hidraw :: "sound_env \<Rightarrow> string \<Rightarrow> string option" where
  "find_cm108_hidraw E adevice =
     (case sn_cm108 E of None \<Rightarrow> None | Some ls \<Rightarrow> hidraw_from (strip adevice) None ls)"

section \<open>The station\<close>

text \<open>\<^verbatim>\<open>d.get(k, "")\<close>, and \<^verbatim>\<open>(v or default)\<close> used as text: a true value that is no text has no such method.\<close>

definition get_or_empty :: "dict \<Rightarrow> string \<Rightarrow> pyval" where
  "get_or_empty d k = (case map_of d k of Some v \<Rightarrow> v | None \<Rightarrow> PStr [])"

definition text_or :: "pyval \<Rightarrow> string \<Rightarrow> string result" where
  "text_or v e = (case py_or v (PStr e) of PStr s \<Rightarrow> Inr s | _ \<Rightarrow> Inl (AttributeError ''not a str''))"

definition call_with_ssid :: "pylib \<Rightarrow> pyval \<Rightarrow> pyval \<Rightarrow> string result" where
  "call_with_ssid L call ssid =
     rbind (text_or call []) (\<lambda>c.
       let c = upper (strip c); s = (if ssid \<in> {PNone, PStr []} then [] else strip (py_str L ssid))
       in Inr (if s \<noteq> [] then c @ ''-'' @ s else c))"

definition resolve_adevice :: "sound_env \<Rightarrow> dict \<Rightarrow> string result" where
  "resolve_adevice E station =
     rbind (text_or (get_or_empty station ''sound'') []) (\<lambda>sel.
       let selected = strip sel;
           fallback = (case detect_cm108_adevice E of Some x \<Rightarrow> x | None \<Rightarrow> ''plughw:1,0'')
       in Inr (if selected = [] then fallback
               else case find (\<lambda>c. sc_label c = selected \<or> sc_name c = selected) (detect_sound_cards E) of
                      Some c \<Rightarrow> sc_plughw c | None \<Rightarrow> fallback))"

definition gpiod_chip_line :: "sound_env \<Rightarrow> string \<Rightarrow> string \<Rightarrow> string \<times> string" where
  "gpiod_chip_line E param0 adevice =
     (let p = strip param0;
          param = (if is_dra_adevice adevice
                      \<and> (p = [] \<or> join '' '' (tokens p) \<in> foreign_dra_ptt_params None (sn_model E))
                   then dra_ptt_param None (sn_model E) else p);
          toks = tokens param
      in if 2 \<le> length toks then (toks ! 0, toks ! 1)
         else if length toks = 1 \<and> str_isdigit (dropWhile (\<lambda>c. c = CHR ''-'') (toks ! 0)) then (''gpiochip0'', toks ! 0)
         else (''gpiochip0'', ''12''))"

section \<open>direwolf.conf\<close>

definition ptt_lines :: "sound_env \<Rightarrow> string \<Rightarrow> string \<Rightarrow> string \<Rightarrow> string list" where
  "ptt_lines E ptt param adevice =
     (if ptt = ''CM108'' then [''PTT CM108'']
      else if ptt = ''VOX'' then [''# PTT handled by VOX (Signalink) - no PTT line'']
      else if ptt = ''GPIO'' then [''PTT GPIO '' @ (if str_isdigit param then param else ''25'')]
      else if ptt = ''GPIOD'' then
        (case gpiod_chip_line E param adevice of (chip, pin) \<Rightarrow> [''PTT GPIOD '' @ chip @ '' '' @ pin])
      else if ptt \<in> {''RTS'', ''DTR''} then
        [''PTT '' @ (if startswith ''/dev/'' param then param else ''/dev/ttyUSB0'') @ '' '' @ ptt]
      else if ptt = ''RIG'' then
        [''# PTT RIG requested but Hamlib is not compiled into this'',
         ''# Direwolf build. Recompile with hamlib to enable, then'',
         ''# replace this comment with: PTT RIG <model> <port>'']
      else if ptt = ''NONE'' then [''# No PTT configured''] else [])"

definition APRS_TOCALL :: string where "APRS_TOCALL = ''APKPPR''"

definition conf_lines :: "sound_env \<Rightarrow> string \<Rightarrow> string \<Rightarrow> string \<Rightarrow> string \<Rightarrow> string \<Rightarrow> string list" where
  "conf_lines E mycall alias adevice ptt param =
     [''# Generated by KP4PRA TNC web interface - do not edit by hand.'',
      ''# Edit Station Information at http://<host>:8088/config and Apply.'',
      ''ADEVICE  '' @ adevice, ''CHANNEL 0'', ''MYCALL '' @ mycall]
     @ ptt_lines E ptt param adevice
     @ (if is_dra_adevice adevice then [dra_dcd_line None (sn_model E)] else [])
     @ [''CDIGIPEAT 0 0 '' @ alias,
        ''CBEACON dest='' @ APRS_TOCALL @ '' delay=1:00 every=59:00 INFO=\"'' @ mycall @ '' - BLUETOOTH TNC ''
          @ ''Android/Iphone - '' @ alias @ '' alias for AX.25 by KP4PRA\"'',
        []]"

definition generate_direwolf_conf :: "pylib \<Rightarrow> sound_env \<Rightarrow> dict \<Rightarrow> string \<Rightarrow> string result" where
  "generate_direwolf_conf L E station adevice0 =
     rbind (call_with_ssid L (get_or_empty station ''callsign'') (get_or_empty station ''ssid'')) (\<lambda>mycall.
     rbind (call_with_ssid L (py_or (get_or_empty station ''calias'') (PStr ''CDIGI'')) (get_or_empty station ''aliasssid'')) (\<lambda>alias.
     rbind (if adevice0 = [] then resolve_adevice E station else Inr adevice0) (\<lambda>adevice.
     rbind (text_or (get_or_empty station ''ptt'') ''CM108'') (\<lambda>ptt.
     rbind (text_or (get_or_empty station ''ptt_param'') []) (\<lambda>param.
       Inr (join [NL] (conf_lines E mycall alias adevice (upper ptt) (strip param))))))))"

text \<open>The atomic write: whether the target may be written, the file operations, and the disk at the end.\<close>

definition write_direwolf_conf :: "bool \<Rightarrow> (save_step \<times> string) option \<Rightarrow> bool \<Rightarrow> string \<Rightarrow> disk \<Rightarrow> bool \<times> disk list \<times> disk" where
  "write_direwolf_conf writable fails_at unlinks text d =
     (if \<not> writable then (False, [], d)
      else let ds = save_steps (map_option fst fails_at) text d; e = last_disk d ds in
        case fails_at of
          None \<Rightarrow> (True, ds, e)
        | Some _ \<Rightarrow> (let e' = (if unlinks then e\<lparr>dk_tmp := None\<rparr> else e) in (False, ds @ [e'], e')))"

definition restart_direwolf :: "run \<Rightarrow> bool \<times> string" where
  "restart_direwolf r = service_outcome ''Direwolf restarted'' ''Direwolf restart failed: '' r"

section \<open>The Xara configuration\<close>

definition MODES :: "(string \<times> string \<times> string) list" where
  "MODES = [(''fm-narrow'', ''fm'', ''narrow''), (''fm-wide'', ''fm'', ''wide''), (''hf-500'', ''hf'', ''500''),
     (''hf-2300'', ''hf'', ''2300''), (''hf-2750'', ''hf'', ''2750'')]"

definition XARA_DEFAULTS :: dict where
  "XARA_DEFAULTS =
     [(''version'', PStr ''latest''), (''registered'', PBool True), (''mode'', PStr ''fm-narrow''), (''call'', PStr []),
      (''drive_db'', PInt (- 5)), (''ptt_lead_ms'', PInt 0), (''ptt_tail_ms'', PInt 100), (''network'', PBool True),
      (''auto_switch'', PBool True), (''ui_port'', PInt 8080), (''port'', PInt 8300), (''kiss_port'', PInt 8100)]"

definition items_of :: "pyval \<Rightarrow> dict result" where
  "items_of v = (case v of PDict d \<Rightarrow> Inr d | _ \<Rightarrow> Inl (AttributeError ''items''))"

definition xara_settings :: "dict \<Rightarrow> dict result" where
  "xara_settings cfg =
     rbind (items_of (py_or (case map_of cfg ''xara'' of Some v \<Rightarrow> v | None \<Rightarrow> PNone) (PDict []))) (\<lambda>d.
       Inr (foldl (\<lambda>m (k, v). if v = PNone then m else AList.update k v m) XARA_DEFAULTS d))"

definition station_of :: "dict \<Rightarrow> dict result" where
  "station_of cfg = items_of (py_or (case map_of cfg ''station'' of Some v \<Rightarrow> v | None \<Rightarrow> PDict []) (PDict []))"

definition get_or_none :: "dict \<Rightarrow> string \<Rightarrow> pyval" where
  "get_or_none d k = (case map_of d k of Some v \<Rightarrow> v | None \<Rightarrow> PNone)"

definition xara_call :: "pylib \<Rightarrow> dict \<Rightarrow> string result" where
  "xara_call L cfg =
     rbind (xara_settings cfg) (\<lambda>x.
       let own = strip (py_str L (py_or (get_or_none x ''call'') (PStr []))) in
       if own \<noteq> [] then Inr (upper (strip (py_str L (get_or_none x ''call''))))
       else rbind (station_of cfg) (\<lambda>st.
         rbind (call_with_ssid L (get_or_empty st ''callsign'') (get_or_empty st ''ssid'')) (\<lambda>call.
           rbind (valid_vara_call call) (\<lambda>ok.
             if ok then Inr call else call_with_ssid L (get_or_empty st ''callsign'') (PStr [])))))"

record ptt_plan =
  pp_ptt :: "string option"
  pp_gpio :: "(string \<times> int \<times> bool) option"
  pp_describe :: string

definition PTT_HELPER_ADDR :: string where "PTT_HELPER_ADDR = ''127.0.0.1:4539''"

definition gpio_plan :: "sound_env \<Rightarrow> string \<Rightarrow> string \<Rightarrow> ptt_plan result" where
  "gpio_plan E param adevice =
     (case gpiod_chip_line E param adevice of (chip, pin) \<Rightarrow>
        let low = startswith ''-'' pin; bare = dropWhile (\<lambda>c. c = CHR ''-'') pin in
        rbind (int_of (PStr bare)) (\<lambda>i. Inr
          \<lparr>pp_ptt = Some (''rigctld:'' @ PTT_HELPER_ADDR), pp_gpio = Some (chip, i, low),
           pp_describe = ''GPIO '' @ chip @ '' line '' @ bare @ (if low then '' (active low)'' else [])\<rparr>))"

definition plan_of :: "sound_env \<Rightarrow> dict \<Rightarrow> string \<Rightarrow> ptt_plan result" where
  "plan_of E station adevice =
     rbind (text_or (get_or_none station ''ptt'') ''CM108'') (\<lambda>ptt0.
     rbind (text_or (get_or_none station ''ptt_param'') []) (\<lambda>param0.
       let ptt = upper ptt0; param = strip param0 in
       if ptt = ''CM108'' then
         (case find_cm108_hidraw E adevice of
            None \<Rightarrow> Inr \<lparr>pp_ptt = None, pp_gpio = None,
              pp_describe = ''CM108 PTT selected but no CM108 device found - receive only''\<rparr>
          | Some hid \<Rightarrow> Inr \<lparr>pp_ptt = Some (''cm108:'' @ hid), pp_gpio = None, pp_describe = ''CM108 GPIO on '' @ hid\<rparr>)
       else if ptt \<in> {''GPIOD'', ''GPIO''} then
         gpio_plan E (if ptt = ''GPIO'' \<and> str_isdigit (dropWhile (\<lambda>c. c = CHR ''-'') param)
                      then ''gpiochip0 '' @ param else param) adevice
       else if ptt \<in> {''RTS'', ''DTR''} then
         (let dev = (if startswith ''/dev/'' param then param else ''/dev/ttyUSB0'')
          in Inr \<lparr>pp_ptt = Some (lower ptt @ '':'' @ dev), pp_gpio = None, pp_describe = ptt @ '' on '' @ dev\<rparr>)
       else if ptt = ''VOX'' then Inr \<lparr>pp_ptt = Some ''vox'', pp_gpio = None, pp_describe = ''VOX''\<rparr>
       else if ptt = ''RIG'' then
         (let addr = (if CHR '':'' \<in> set param then param else [])
          in Inr \<lparr>pp_ptt = Some (''rigctld'' @ (if addr \<noteq> [] then CHR '':'' # addr else [])), pp_gpio = None,
               pp_describe = ''rigctld at '' @ (if addr \<noteq> [] then addr else ''127.0.0.1:4532'')\<rparr>)
       else Inr \<lparr>pp_ptt = None, pp_gpio = None, pp_describe = ''no PTT - receive only''\<rparr>))"

definition build_is_registered :: "string list option \<Rightarrow> bool" where
  "build_is_registered features = (case features of None \<Rightarrow> False | Some ls \<Rightarrow> list_ex (\<lambda>l. strip l = ''registered'') ls)"

definition alsa_card_id :: "string \<Rightarrow> string" where
  "alsa_card_id adevice =
     (let after = (\<lambda>c s. case partition_at c s of (a, found, b) \<Rightarrow> if found then b else s)
      in after (CHR ''='') (fst (partition_at (CHR '','') (after (CHR '':'') adevice))))"

definition shared_playback :: "string \<Rightarrow> string" where
  "shared_playback adevice =
     (let card = alsa_card_id adevice; plain = filter (\<lambda>c. c \<noteq> CHR ''_'') card in
      if is_dra_adevice adevice \<and> card \<noteq> [] \<and> plain \<noteq> [] \<and> list_all is_alnum plain then ''kp4pra_out:CARD='' @ card
      else adevice)"

text \<open>The numbers that go into the file; \<open>G\<close> is the text of \<^verbatim>\<open>float(v)\<close> in the format \<^verbatim>\<open>g\<close>.\<close>

definition int_text :: "dict \<Rightarrow> string \<Rightarrow> string result" where
  "int_text x k = rbind (int_of (get_or_none x k)) (\<lambda>i. Inr (show_int i))"

definition radio_lines :: "(pyval \<Rightarrow> string result) \<Rightarrow> dict \<Rightarrow> ptt_plan \<Rightarrow> string list result" where
  "radio_lines G x plan =
     (case pp_ptt plan of
        None \<Rightarrow> Inr [''# '' @ pp_describe plan]
      | Some p \<Rightarrow>
          rbind (G (get_or_none x ''drive_db'')) (\<lambda>drive.
          rbind (int_text x ''ptt_lead_ms'') (\<lambda>lead.
          rbind (int_text x ''ptt_tail_ms'') (\<lambda>tail.
            Inr [''radio = on'', ''ptt = '' @ p, ''drive-db = '' @ drive, ''ptt-lead-ms = '' @ lead,
                 ''ptt-tail-ms = '' @ tail]))))"

definition port_lines :: "dict \<Rightarrow> string list result" where
  "port_lines x =
     rbind (int_text x ''port'') (\<lambda>port.
     rbind (let kiss = get_or_none x ''kiss_port'' in
            if kiss \<in> {PNone, PStr [], PStr ''off'', PBool False, PInt 0, PFloat 0} then Inr ''off''
            else int_text x ''kiss_port'') (\<lambda>kiss.
     rbind (if truthy (get_or_none x ''ui_port'')
            then rbind (int_text x ''ui_port'') (\<lambda>u. Inr [''ui-port = '' @ u, ''ui-addr = 0.0.0.0'']) else Inr []) (\<lambda>ui.
       Inr ([''addr = '' @ (if truthy (get_or_none x ''network'') then ''0.0.0.0'' else ''127.0.0.1''),
             ''port = '' @ port, ''kiss-port = '' @ kiss] @ ui))))"

text \<open>The text, the plan, the keep-alive device and whether the registered speeds are on.\<close>

definition generate_xara ::
  "pylib \<Rightarrow> (pyval \<Rightarrow> string result) \<Rightarrow> sound_env \<Rightarrow> dict \<Rightarrow> string \<Rightarrow> bool
    \<Rightarrow> (string \<times> ptt_plan \<times> string option \<times> bool) result" where
  "generate_xara L G E cfg adevice0 registered_build =
     rbind (xara_settings cfg) (\<lambda>x.
     rbind (station_of cfg) (\<lambda>st.
     rbind (if adevice0 = [] then resolve_adevice E st else Inr adevice0) (\<lambda>adevice.
       let (band, value) = (case map_of MODES (py_str L (get_or_none x ''mode'')) of
                              Some m \<Rightarrow> m | None \<Rightarrow> (''fm'', ''narrow''));
           playback = shared_playback adevice; wants = truthy (get_or_none x ''registered'') in
       rbind (plan_of E st adevice) (\<lambda>plan.
       rbind (xara_call L cfg) (\<lambda>call.
       rbind (radio_lines G x plan) (\<lambda>radio.
       rbind (port_lines x) (\<lambda>ports.
         Inr (join [NL]
               ([''# Generated by KP4PRA TNC - do not edit by hand.'',
                 ''# Change these on the KP4PRA web page (Config > Xara VARA modem).'',
                 ''call = '' @ call, band @ '' = '' @ value, ''audio = alsa'', ''capture = '' @ adevice,
                 ''playback = '' @ playback]
                @ radio @ ports
                @ (if wants \<and> registered_build then [''registered = on'']
                   else if wants then [''# registered speeds: this Xara build does not have them yet ''
                                       @ ''(the next update installs the registered build)'']
                   else []))
              @ [NL],
              plan, if playback \<noteq> adevice then Some playback else None, wants \<and> registered_build))))))))"

section \<open>Lines\<close>

abbreviation one_line :: "string \<Rightarrow> bool" where
  "one_line s \<equiv> NL \<notin> set s"

lemma NL_facts: "is_space NL" "\<not> is_digit NL" "\<not> py_isdigit NL" "\<not> is_alnum NL"
  by (simp_all add: is_space_def is_digit_def py_isdigit_def is_alnum_def is_upper_def is_lower_def ord_def)

lemma upper_char_NL: "upper_char c = NL \<longleftrightarrow> c = NL"
proof (cases "is_lower c")
  case True
  then have "is_alnum (upper_char c)" "is_alnum c"
    by (auto simp: is_alnum_def upper_char_def is_upper_def is_lower_def ord_chr)
  with NL_facts(4) show ?thesis by metis
qed (simp add: upper_char_id)

lemma one_line_upper [simp]: "one_line (upper s) = one_line s"
  by (simp add: upper_def image_iff) (metis upper_char_NL)

lemma strip_final_space:
  assumes "list_all (\<lambda>c. \<not> is_space c) s" "is_space c"
  shows "set (strip (s @ [c])) \<subseteq> set s"
proof (cases s)
  case Nil
  with assms(2) show ?thesis by (simp add: strip_def lstrip_def rstrip_def)
next
  case (Cons x xs)
  with assms have "lstrip (s @ [c]) = s @ [c]" by (simp add: lstrip_def)
  with assms(2) show ?thesis by (auto simp: strip_def rstrip_def dest: set_dropWhileD)
qed

text \<open>No part of the file that comes from the tools or from validated settings has a line break.\<close>

lemma tokens_from_plain:
  "list_all (\<lambda>c. \<not> is_space c) w \<Longrightarrow> list_all (list_all (\<lambda>c. \<not> is_space c)) (tokens_from w s)"
  by (induction w s rule: tokens_from.induct) simp_all

lemma tokens_plain: "t \<in> set (tokens s) \<Longrightarrow> one_line t"
  using tokens_from_plain [of "[]" s] NL_facts(1) unfolding tokens_def list_all_iff by (metis empty_iff list.set(1))

lemma cm108_one_line:
  assumes "detect_cm108_adevice E = Some a"
  shows "one_line a"
proof -
  let ?ok = "\<lambda>f. pred_option one_line (fst f) \<and> pred_option one_line (snd f)"
  have tok: "?ok (cm108_token f t)" if "?ok f" "one_line t" for f t
    using that by (cases f; cases "fst f"; cases "snd f") (simp_all add: cm108_token_def)
  have toks: "?ok (foldl cm108_token f ts)" if "?ok f" "list_all one_line ts" for f ts
    using that
  proof (induction ts arbitrary: f)
    case (Cons t ts)
    with tok [of f t] show ?case by simp
  qed simp
  have ls: "?ok (foldl (\<lambda>f l. if contains ''/dev/hidraw'' l then foldl cm108_token f (tokens l) else f) f ls)"
    if "?ok f" for f ls
    using that
  proof (induction ls arbitrary: f)
    case (Cons l ls)
    have "list_all one_line (tokens l)" using tokens_plain by (simp add: list_all_iff)
    with Cons.prems have "?ok (if contains ''/dev/hidraw'' l then foldl cm108_token f (tokens l) else f)"
      using toks by simp
    with Cons.IH show ?case by simp
  qed simp
  show ?thesis
  proof (cases "sn_cm108 E")
    case (Some k)
    with assms ls [of "(None, None)" k] show ?thesis
      by (auto simp: detect_cm108_adevice_def split: prod.splits option.splits)
  qed (use assms in \<open>simp add: detect_cm108_adevice_def\<close>)
qed

lemma match_card_one_line:
  assumes "match_card l = Some (n, i, desc, dev)"
  shows "one_line i" "one_line dev"
proof -
  have "list_all is_digit d" if "find_device a s = Some (b, d)" for a b d s
    using that
  proof (induction a s rule: find_device.induct)
    case (1 a s)
    from 1(2) consider "d = takeWhile is_digit (drop 10 s)" | c cs where "s = c # cs" "find_device (a @ [c]) cs = Some (b, d)"
        "\<not> (startswith ''], device '' s \<and> takeWhile is_digit (drop 10 s) \<noteq> []
          \<and> startswith '':'' (dropWhile is_digit (drop 10 s)))"
      by (subst (asm) find_device.simps) (auto simp: Let_def split: if_splits list.splits)
    then show ?case
    proof cases
      case 1
      then show ?thesis by (auto simp: list_all_iff dest: set_takeWhileD)
    next
      case 2
      then show ?thesis using "1.IH" by simp
    qed
  qed
  with assms have d: "list_all is_digit dev" and i: "i = takeWhile (\<lambda>c. \<not> is_space c) (drop 2 (dropWhile is_digit (drop 5 l)))"
    by (auto simp: match_card_def Let_def split: if_splits)
  from d NL_facts(2) show "one_line dev" unfolding list_all_iff by metis
  from NL_facts(1) show "one_line i" unfolding i by (metis set_takeWhileD)
qed

lemma cards_one_line: "list_all (\<lambda>c. one_line (sc_plughw c)) (detect_sound_cards E)"
proof -
  have add: "list_all (\<lambda>c. one_line (sc_plughw c)) (add_card E cs l)" if "list_all (\<lambda>c. one_line (sc_plughw c)) cs" for cs l
  proof (cases "match_card l")
    case (Some m)
    obtain n i desc dev where m: "m = (n, i, desc, dev)" by (cases m)
    have "one_line (sc_plughw (card_entry E m))"
      using match_card_one_line Some unfolding m by (simp add: card_entry_def Let_def split: prod.split)
    with that Some show ?thesis by (simp add: add_card_def Let_def)
  qed (use that in \<open>simp add: add_card_def\<close>)
  have "list_all (\<lambda>c. one_line (sc_plughw c)) (foldl (add_card E) cs ls)" if "list_all (\<lambda>c. one_line (sc_plughw c)) cs" for cs ls
    using that add by (induction ls arbitrary: cs) simp_all
  from this [of "[]"] show ?thesis by (simp add: detect_sound_cards_def split: option.split)
qed

lemma adevice_one_line:
  assumes "resolve_adevice E st = Inr a"
  shows "one_line a"
proof -
  have fb: "one_line (case detect_cm108_adevice E of Some x \<Rightarrow> x | None \<Rightarrow> ''plughw:1,0'')"
    using cm108_one_line by (auto split: option.split)
  have card: "one_line (sc_plughw c)" if "find P (detect_sound_cards E) = Some c" for P c
  proof -
    from that have "c \<in> set (detect_sound_cards E)" by (metis find_Some_iff nth_mem)
    with cards_one_line [of E] show ?thesis unfolding list_all_iff by blast
  qed
  from assms obtain sel where "a = (if strip sel = [] then (case detect_cm108_adevice E of Some x \<Rightarrow> x | None \<Rightarrow> ''plughw:1,0'')
      else case find (\<lambda>c. sc_label c = strip sel \<or> sc_name c = strip sel) (detect_sound_cards E) of
             Some c \<Rightarrow> sc_plughw c | None \<Rightarrow> case detect_cm108_adevice E of Some x \<Rightarrow> x | None \<Rightarrow> ''plughw:1,0'')"
    by (auto simp: resolve_adevice_def rbind_eq_Inr Let_def)
  with fb card show ?thesis
    by (cases "find (\<lambda>c. sc_label c = strip sel \<or> sc_name c = strip sel) (detect_sound_cards E)") simp_all
qed

lemma alnum_line:
  assumes "re_line (\<lambda>s. s \<noteq> [] \<and> list_all is_alnum s) s"
  shows "one_line (strip s)"
proof -
  have plain: "one_line t" if "list_all is_alnum t" for t
    using that NL_facts(4) unfolding list_all_iff by metis
  from assms consider "list_all is_alnum s" | t where "s = t @ [NL]" "list_all is_alnum t"
    by (auto simp: re_line_def) (metis append_butlast_last_id)
  then show ?thesis
  proof cases
    case 1
    with plain [of s] set_strip [of s] show ?thesis by blast
  next
    case 2
    then have "list_all (\<lambda>c. \<not> is_space c) t" using alnum_not_space by (auto simp: list_all_iff)
    from strip_final_space [OF this NL_facts(1)] plain [OF 2(2)] 2(1) show ?thesis by blast
  qed
qed

text \<open>Text that \<^verbatim>\<open>int\<close> reads.\<close>

lemma dec_tail_one_line: "dec_tail n s = Some k \<Longrightarrow> one_line s"
proof (induction n s rule: dec_tail.induct)
  case (2 acc c cs)
  have "c \<noteq> NL" using 2(3) NL_facts(2) by (auto split: if_splits)
  with 2 NL_facts(2) show ?case by (auto split: if_splits list.splits)
qed simp

lemma dec_nat_one_line: "dec_nat s = Some k \<Longrightarrow> one_line s"
  using NL_facts(2) by (auto simp: dec_nat_def dest: dec_tail_one_line split: list.splits if_splits)

lemma py_int_one_line:
  assumes "py_int s = Some i"
  shows "one_line (strip s)"
proof -
  have cons: "one_line (strip s)" if "startswith [c] (strip s)" "c \<noteq> NL" "one_line (tl (strip s))" for c
    using that by (cases "strip s") (auto simp: startswith_def)
  from assms consider "startswith ''-'' (strip s)" "dec_nat (tl (strip s)) \<noteq> None"
    | "startswith ''+'' (strip s)" "dec_nat (tl (strip s)) \<noteq> None" | "dec_nat (strip s) \<noteq> None"
    by (auto simp: py_int_def Let_def split: if_splits)
  then show ?thesis
  proof cases
    case 1
    with cons [of "CHR ''-''"] dec_nat_one_line show ?thesis by fastforce
  next
    case 2
    with cons [of "CHR ''+''"] dec_nat_one_line show ?thesis by fastforce
  qed (use dec_nat_one_line in fastforce)
qed

lemma show_int_one_line: "one_line (show_int i)"
proof -
  have "one_line (show_nat n)" for n using show_nat_digits [of n] NL_facts(2) unfolding list_all_iff by metis
  then show ?thesis by (simp add: show_int_def)
qed

lemma ssid_one_line:
  assumes "int_of v = Inr i" "\<And>q. one_line (pl_repr L (PFloat q))"
  shows "one_line (strip (py_str L v))"
proof (cases v)
  case (PStr s)
  with assms(1) py_int_one_line [of s] show ?thesis by (auto simp: py_str_def split: option.splits)
next
  case (PInt j)
  with show_int_one_line [of j] set_strip [of "show_int j"] show ?thesis by (auto simp: py_str_def)
next
  case (PFloat q)
  with assms(2) [of q] set_strip [of "pl_repr L v"] show ?thesis by (auto simp: py_str_def)
next
  case (PBool b)
  have "one_line ''True'' \<and> one_line ''False''" by simp
  with PBool set_strip [of "''True''"] set_strip [of "''False''"] show ?thesis by (auto simp: py_str_def)
qed (use assms(1) in simp_all)

lemma call_with_ssid_one_line:
  assumes "call_with_ssid L call ssid = Inr c" "\<And>q. one_line (pl_repr L (PFloat q))"
    and "\<And>s. call = PStr s \<Longrightarrow> s \<noteq> [] \<Longrightarrow> one_line (strip s)"
    and "ssid \<in> {PNone, PStr []} \<or> (\<exists>i. int_of ssid = Inr i)"
  shows "one_line c"
proof -
  from assms(1) obtain t where t: "text_or call [] = Inr t"
    and c: "c = (if (if ssid \<in> {PNone, PStr []} then [] else strip (py_str L ssid)) \<noteq> []
              then upper (strip t) @ ''-'' @ (if ssid \<in> {PNone, PStr []} then [] else strip (py_str L ssid))
              else upper (strip t))"
    by (auto simp: call_with_ssid_def rbind_eq_Inr Let_def)
  have "one_line (strip t)"
  proof (cases "t = []")
    case False
    with t have "call = PStr t" by (cases call) (auto simp: text_or_def py_or_def split: if_splits)
    with assms(3) False show ?thesis by blast
  qed simp
  moreover have "one_line (if ssid \<in> {PNone, PStr []} then [] else strip (py_str L ssid))"
    using assms(4) ssid_one_line [OF _ assms(2)] by auto
  ultimately show ?thesis unfolding c by simp
qed

lemma gpiod_one_line:
  assumes "gpiod_chip_line E param adevice = (chip, pin)"
  shows "one_line chip" "one_line pin"
proof -
  have t: "one_line (tokens s ! i)" if "i < length (tokens s)" for s i
    using that tokens_plain by (metis nth_mem)
  have "\<exists>s. (2 \<le> length (tokens s) \<and> (chip, pin) = (tokens s ! 0, tokens s ! 1))
      \<or> (length (tokens s) = 1 \<and> (chip, pin) = (''gpiochip0'', tokens s ! 0)) \<or> (chip, pin) = (''gpiochip0'', ''12'')"
    using assms unfolding gpiod_chip_line_def Let_def by metis
  then obtain s where "(2 \<le> length (tokens s) \<and> (chip, pin) = (tokens s ! 0, tokens s ! 1))
      \<or> (length (tokens s) = 1 \<and> (chip, pin) = (''gpiochip0'', tokens s ! 0)) \<or> (chip, pin) = (''gpiochip0'', ''12'')" ..
  moreover have "one_line (tokens s ! 0)" if "2 \<le> length (tokens s) \<or> length (tokens s) = 1"
    using t [of 0 s] that by linarith
  moreover have "one_line (tokens s ! 1)" if "2 \<le> length (tokens s)" using t [of 1 s] that by linarith
  moreover have "one_line ''gpiochip0''" "one_line ''12''" by simp_all
  ultimately show "one_line chip" "one_line pin" unfolding prod.inject by metis+
qed

lemma ptt_lines_one_line:
  assumes "one_line param"
  shows "list_all one_line (ptt_lines E ptt param adevice)"
proof -
  obtain chip pin where g: "gpiod_chip_line E param adevice = (chip, pin)" by fastforce
  from gpiod_one_line [OF this] assms show ?thesis by (auto simp: ptt_lines_def g)
qed

lemma dcd_one_line: "one_line (dra_dcd_line None m)"
proof -
  have "platform_info None m \<in> set (map snd PLATFORMS)"
    by (auto simp: platform_info_def PLATFORMS_def Let_def split: option.splits if_splits)
  then show ?thesis by (auto simp: dra_dcd_line_def PLATFORMS_def)
qed

text \<open>What the station check leaves of the fields that reach the file.\<close>

lemma checked_station:
  assumes "check_station L (PDict st) = Inr []"
  shows "map_of st ''callsign'' = Some v \<Longrightarrow> \<exists>s. v = PStr s \<and> one_line (strip s)"
    and "map_of st ''calias'' = Some v \<Longrightarrow> truthy v \<Longrightarrow> \<exists>s. v = PStr s \<and> one_line (strip s)"
    and "k \<in> {''ssid'', ''aliasssid''} \<Longrightarrow> map_of st k = Some v \<Longrightarrow> v \<in> {PNone, PStr []} \<or> (\<exists>i. int_of v = Inr i)"
proof -
  assume v: "map_of st ''callsign'' = Some v"
  with assms have "str_with callsign_ok v"
    by (auto simp: check_station_def all_of_Nil when_key_dict unless_ok_def split: if_splits)
  then show "\<exists>s. v = PStr s \<and> one_line (strip s)"
    by (cases v) (auto simp: str_with_def callsign_ok_def dest: alnum_line)
next
  assume v: "map_of st ''calias'' = Some v" "truthy v"
  with assms have "str_with (\<lambda>s. length s \<le> 6 \<and> re_line (\<lambda>s. s \<noteq> [] \<and> list_all is_alnum s) s) v"
    by (auto simp: check_station_def all_of_Nil when_key_dict unless_ok_def split: if_splits)
  then show "\<exists>s. v = PStr s \<and> one_line (strip s)"
    by (cases v) (auto simp: str_with_def dest: alnum_line)
next
  assume k: "k \<in> {''ssid'', ''aliasssid''}" and v: "map_of st k = Some v"
  from assms k have "check_ssid (PDict st) k = Inr []" by (auto simp: check_station_def all_of_Nil)
  with v show "v \<in> {PNone, PStr []} \<or> (\<exists>i. int_of v = Inr i)"
    by (auto simp: check_ssid_def when_key_dict int_between_def split: if_splits dest!: attempt_Nil)
qed

section \<open>Properties\<close>


definition sample_sound :: sound_env where
  "sample_sound = \<lparr>sn_model = None, sn_cp210x = 0, sn_aplay = None, sn_cm108 = None\<rparr>"


text \<open>The PTT parameter is not checked: with RTS or DTR a line break in it starts another directive.\<close>

lemma serial_param_adds_line:
  assumes "ptt \<in> {''RTS'', ''DTR''}" "startswith ''/dev/'' dev" "one_line dev" "one_line directive"
  shows "concat (map (split_at NL) (ptt_lines E ptt (dev @ NL # directive) adevice))
     = [''PTT '' @ dev, directive @ '' '' @ ptt]"
proof -
  from assms(2) obtain d where "dev = ''/dev/'' @ d" unfolding startswith_def by (metis append_take_drop_id)
  then have "startswith ''/dev/'' (dev @ NL # directive)" by (simp add: startswith_def)
  moreover have "one_line (directive @ '' '' @ ptt)" using assms(1,4) by auto
  ultimately show ?thesis
    using assms(1,3) split_at_append [of NL "''PTT '' @ dev" "directive @ '' '' @ ptt"]
    by (auto simp: ptt_lines_def split_at_absent simp del: split_at.simps)
qed

text \<open>Xara is given a callsign it accepts: the station's without the SSID is one whenever it has one to seven
  letters and digits, and the SSID is kept only when the rule of VARA admits it.\<close>

lemma xara_station_call:
  assumes "xara_settings cfg = Inr x" "get_or_none x ''call'' = PStr []" "station_of cfg = Inr st"
    and "get_or_empty st ''callsign'' = PStr s" "of_class is_alnum 1 7 (upper (strip s))"
    and "xara_call L cfg = Inr call"
  shows "valid_vara_call call = Inr True"
proof -
  have alnum: "list_all is_alnum (upper (strip s))" using assms(5) by (simp add: of_class_def)
  have "\<not> is_alnum CHR ''-''" by (simp add: is_alnum_def is_digit_def is_upper_def is_lower_def ord_def)
  with alnum have "CHR ''-'' \<notin> set (upper (strip s))" unfolding list_all_iff by metis
  moreover have "strip (upper (strip s)) = upper (strip s)"
    using alnum alnum_not_space by (intro strip_id_alnum) (auto simp: list_all_iff)
  ultimately have base: "valid_vara_call (upper (strip s)) = Inr True"
    using assms(5) by (simp add: valid_vara_call_def partition_at_absent Let_def)
  have plain: "call_with_ssid L (PStr s) (PStr []) = Inr (upper (strip s))"
    by (cases "s = []") (simp_all add: call_with_ssid_def text_or_def py_or_def)
  from assms(6) show ?thesis
    using assms(1-4) plain base
    by (auto simp: xara_call_def py_or_def rbind_eq_Inr Let_def py_str_def split: if_splits)
qed

end
