(* ===== verification/Vara_Launch.thy ===== *)
theory Vara_Launch
  imports Modem_Conf
begin

text \<open>
  The VARA launcher (src/src/vara_launcher.py): what it announces, and the server that switches the board to
  Xara for the session of a network client and back to Dire Wolf when the session is over. A connection is a
  coroutine; its phases are the places where it waits, and a step is what it does from one to the next, so
  the steps of several connections interleave. What systemctl, the switching tool and the port table answer
  is in the events. \<open>vl_xara\<close> is whether the board is on Xara.
\<close>

section \<open>Announcement\<close>

record modem_info =
  vi_name :: string
  vi_type :: string
  vi_port :: int
  vi_network :: bool
  vi_auto_switch :: bool

definition LAUNCH_PORT :: int where "LAUNCH_PORT = 8273"

definition modem_info_of :: "pylib \<Rightarrow> dict \<Rightarrow> modem_info result" where
  "modem_info_of L cfg =
     rbind (xara_settings cfg) (\<lambda>x.
       let band = (if startswith ''hf'' (py_str L (get_or_empty x ''mode'')) then ''hf'' else ''fm'');
           flag = (\<lambda>k. truthy (case map_of x k of Some v \<Rightarrow> v | None \<Rightarrow> PBool True)) in
       rbind (xara_call L cfg) (\<lambda>call.
       rbind (int_of (py_or (get_or_none x ''port'') (PInt 8300))) (\<lambda>port. Inr
         \<lparr>vi_name = (if call = [] then ''KP4PRA'' else call) @ '' VARA '' @ upper band, vi_type = band, vi_port = port,
          vi_network = flag ''network'', vi_auto_switch = flag ''auto_switch''\<rparr>)))"

definition txt_records :: "modem_info \<Rightarrow> string list" where
  "txt_records i = [''launchport='' @ show_int LAUNCH_PORT @ '';'', ''type='' @ vi_type i @ '';'']"

definition publish_commands :: "modem_info \<Rightarrow> string list list" where
  "publish_commands i =
     map (\<lambda>st. [''avahi-publish'', ''-s'', vi_name i, st, show_int (vi_port i)] @ txt_records i)
       [''_vara-modem._tcp'', if vi_type i = ''fm'' then ''_varafm-modem._tcp'' else ''_varahf-modem._tcp'']"

text \<open>The announcer: what is announced and the commands that run for it. \<open>alive\<close>: they all still run;
  \<open>found\<close>: how many of the new commands start before one is not found.\<close>

record announcer =
  an_key :: "(string \<times> string \<times> int) option"
  an_procs :: "string list list"

definition announce :: "modem_info \<Rightarrow> bool \<Rightarrow> bool \<Rightarrow> nat \<Rightarrow> announcer \<Rightarrow> announcer" where
  "announce i installed alive found a =
     (let want = installed \<and> vi_network i;
          key = (if want then Some (vi_name i, vi_type i, vi_port i) else None)
      in if key = an_key a \<and> (an_procs a = [] \<or> alive) then a
         else \<lparr>an_key = key, an_procs = (if want then take found (publish_commands i) else [])\<rparr>)"

section \<open>The server\<close>

definition READY_POLLS :: nat where "READY_POLLS = 60"

text \<open>Where a connection waits: for a line, for the switch to Xara, for the port, for the switch back.\<close>

datatype vara_phase = Reading | Switching | Awaiting_port nat | Handing_back | Closed

record vara_conn =
  vc_info :: modem_info
  vc_session :: bool
  vc_switched :: bool
  vc_phase :: vara_phase
  vc_replies :: "string list"

record launcher =
  vl_busy :: bool
  vl_xara :: bool
  vl_conns :: "vara_conn list"

definition new_conn :: "modem_info \<Rightarrow> bool \<Rightarrow> vara_conn" where
  "new_conn i local =
     \<lparr>vc_info = i, vc_session = False, vc_switched = False,
      vc_phase = (if \<not> vi_network i \<and> \<not> local then Closed else Reading), vc_replies = []\<rparr>"

definition say :: "string \<Rightarrow> vara_conn \<Rightarrow> vara_conn" where
  "say t c = c\<lparr>vc_replies := vc_replies c @ [t @ [NL]]\<rparr>"

definition put_conn :: "nat \<Rightarrow> vara_conn \<Rightarrow> launcher \<Rightarrow> launcher" where
  "put_conn k c s = s\<lparr>vl_conns := (vl_conns s)[k := c]\<rparr>"

text \<open>The \<^verbatim>\<open>finally\<close> block up to the switch back.\<close>

definition finish :: "nat \<Rightarrow> vara_conn \<Rightarrow> launcher \<Rightarrow> launcher" where
  "finish k c s =
     (put_conn k (c\<lparr>vc_phase := (if vc_switched c then Handing_back else Closed)\<rparr>) s)
       \<lparr>vl_busy := (if vc_session c then False else vl_busy s)\<rparr>"

definition start_command :: "bool \<Rightarrow> nat \<Rightarrow> vara_conn \<Rightarrow> launcher \<Rightarrow> launcher" where
  "start_command installed k c s =
     (if vc_session c then put_conn k (say ''OK'' c) s
      else if vl_busy s then put_conn k (say (''ERROR modem '' @ vi_name (vc_info c) @ '' is already running'') c) s
      else if \<not> installed then finish k (say ''ERROR Xara is not installed on this TNC'' c) s
      else
        let c1 = c\<lparr>vc_session := True\<rparr>; s1 = s\<lparr>vl_busy := True\<rparr> in
        if vl_xara s1 then put_conn k (c1\<lparr>vc_phase := Awaiting_port READY_POLLS\<rparr>) s1
        else if \<not> vi_auto_switch (vc_info c) then
          finish k (say ''ERROR Xara is not on - choose Xara on the KP4PRA Services page'' c1) s1
        else put_conn k (c1\<lparr>vc_phase := Switching\<rparr>) s1)"

definition vara_command :: "bool \<Rightarrow> string \<Rightarrow> nat \<Rightarrow> vara_conn \<Rightarrow> launcher \<Rightarrow> launcher" where
  "vara_command installed cmd k c s =
     (let word = hd (split_at CHR '' '' cmd) in
      if word = ''start'' then start_command installed k c s
      else if word = ''monitor'' then put_conn k (say ''ERROR audio monitor is not available on KP4PRA TNC'' c) s
      else if cmd = ''stop'' then finish k (say ''OK'' c) s
      else if cmd = ''version'' then put_conn k (say (join [NL] [''OK'', ''kp4pra-vara-launcher 1'']) c) s
      else if cmd = ''list'' then put_conn k (say (join [NL] [''OK'', vi_name (vc_info c)]) c) s
      else if cmd = ''config'' then
        put_conn k (say (join [NL] [''OK'', ''Config path: KP4PRA TNC (Config page, Xara card)'', vi_name (vc_info c),
          ''  Type: '' @ vi_type (vc_info c), ''  Cmd: xara (KP4PRA TNC)'']) c) s
      else if cmd = ''shutdown'' then put_conn k (say ''ERROR remote shutdown disabled'' c) s
      else put_conn k (say ''Invalid command'' c) s)"

datatype vara_event =
    Accepted modem_info bool
  | Line nat string bool
  | Switched nat bool string
  | Port_poll nat bool
  | Gone nat
  | Switched_back nat bool

text \<open>The end of each wait. An event that the phase of its connection does not wait for changes nothing. The
  modem information is read when a connection is accepted; \<open>Switched\<close> carries the last line of the tool.\<close>

definition with_conn :: "nat \<Rightarrow> (vara_conn \<Rightarrow> launcher \<Rightarrow> launcher) \<Rightarrow> launcher \<Rightarrow> launcher" where
  "with_conn k f s = (if k < length (vl_conns s) then f (vl_conns s ! k) s else s)"

definition line_event :: "nat \<Rightarrow> string \<Rightarrow> bool \<Rightarrow> vara_conn \<Rightarrow> launcher \<Rightarrow> launcher" where
  "line_event k line installed c s =
     (if vc_phase c = Reading \<and> strip line \<noteq> [] then vara_command installed (strip line) k c s else s)"

definition switched_event :: "nat \<Rightarrow> bool \<Rightarrow> string \<Rightarrow> vara_conn \<Rightarrow> launcher \<Rightarrow> launcher" where
  "switched_event k ok out c s =
     (if vc_phase c \<noteq> Switching then s
      else if ok then
        put_conn k (c\<lparr>vc_switched := True, vc_phase := Awaiting_port READY_POLLS\<rparr>) (s\<lparr>vl_xara := True\<rparr>)
      else finish k (say (''ERROR '' @ (if out = [] then ''Xara did not start'' else out)) c) s)"

definition poll_event :: "nat \<Rightarrow> bool \<Rightarrow> vara_conn \<Rightarrow> launcher \<Rightarrow> launcher" where
  "poll_event k listening c s =
     (case vc_phase c of
        Awaiting_port n \<Rightarrow>
          if listening then put_conn k (say ''OK'' (c\<lparr>vc_phase := Reading\<rparr>)) s
          else if n \<le> 1 then
            finish k (say (''ERROR Xara is not listening on port '' @ show_int (vi_port (vc_info c))) c) s
          else put_conn k (c\<lparr>vc_phase := Awaiting_port (n - 1)\<rparr>) s
      | _ \<Rightarrow> s)"

definition gone_event :: "nat \<Rightarrow> vara_conn \<Rightarrow> launcher \<Rightarrow> launcher" where
  "gone_event k c s = (if vc_phase c = Reading then finish k c s else s)"

definition back_event :: "nat \<Rightarrow> bool \<Rightarrow> vara_conn \<Rightarrow> launcher \<Rightarrow> launcher" where
  "back_event k ok c s =
     (if vc_phase c = Handing_back then
        put_conn k (c\<lparr>vc_phase := Closed\<rparr>) (s\<lparr>vl_xara := (if ok then False else vl_xara s)\<rparr>)
      else s)"

fun vara_step :: "vara_event \<Rightarrow> launcher \<Rightarrow> launcher" where
  "vara_step (Accepted i local) s = s\<lparr>vl_conns := vl_conns s @ [new_conn i local]\<rparr>"
| "vara_step (Line k line installed) s = with_conn k (line_event k line installed) s"
| "vara_step (Switched k ok out) s = with_conn k (switched_event k ok out) s"
| "vara_step (Port_poll k listening) s = with_conn k (poll_event k listening) s"
| "vara_step (Gone k) s = with_conn k (gone_event k) s"
| "vara_step (Switched_back k ok) s = with_conn k (back_event k ok) s"

definition vara_run :: "vara_event list \<Rightarrow> bool \<Rightarrow> launcher" where
  "vara_run es xara = fold vara_step es \<lparr>vl_busy = False, vl_xara = xara, vl_conns = []\<rparr>"

section \<open>Sessions\<close>

definition holds_modem :: "vara_conn \<Rightarrow> bool" where
  "holds_modem c \<longleftrightarrow> vc_session c \<and> vc_phase c \<notin> {Handing_back, Closed}"

lemma filter_update:
  "k < length xs \<Longrightarrow> length (filter P (xs[k := c])) + (if P (xs ! k) then 1 else 0)
     = length (filter P xs) + (if P c then 1 else 0)"
proof (induction xs arbitrary: k)
  case (Cons x xs)
  then show ?case
  proof (cases k)
    case (Suc j)
    with Cons.IH [of j] Cons.prems show ?thesis by (simp split: if_splits)
  qed simp
qed simp

lemma say_fields [simp]: "vc_session (say t c) = vc_session c" "vc_switched (say t c) = vc_switched c"
  "vc_phase (say t c) = vc_phase c" "vc_info (say t c) = vc_info c"
  by (simp_all add: say_def)

text \<open>A connection that is busy with the modem has the session; a switched one has, or had, it.\<close>

definition conn_ok :: "vara_conn \<Rightarrow> bool" where
  "conn_ok c \<longleftrightarrow> (case vc_phase c of Switching \<Rightarrow> vc_session c \<and> \<not> vc_switched c | Awaiting_port n \<Rightarrow> vc_session c
     | Reading \<Rightarrow> vc_switched c \<longrightarrow> vc_session c
     | Handing_back \<Rightarrow> vc_switched c | _ \<Rightarrow> True)"

definition launcher_ok :: "bool \<Rightarrow> bool \<Rightarrow> launcher \<Rightarrow> bool" where
  "launcher_ok g xara s \<longleftrightarrow>
     list_all conn_ok (vl_conns s)
     \<and> length (filter holds_modem (vl_conns s)) = (if vl_busy s then 1 else 0)
     \<and> (g \<longrightarrow> (if xara then vl_xara s \<and> list_all (\<lambda>c. \<not> vc_switched c \<and> vc_phase c \<noteq> Switching) (vl_conns s)
        else vl_xara s \<longrightarrow> list_ex (\<lambda>c. vc_switched c \<and> vc_phase c \<noteq> Closed) (vl_conns s)))"

text \<open>What replacing a connection needs: its shape, its share of the session, and its share of the switch.\<close>

definition fits :: "bool \<Rightarrow> bool \<Rightarrow> launcher \<Rightarrow> nat \<Rightarrow> vara_conn \<Rightarrow> launcher \<Rightarrow> bool" where
  "fits g xara s k c s' \<longleftrightarrow>
     vl_conns s' = (vl_conns s)[k := c] \<and> conn_ok c
     \<and> (if vl_busy s' then 1 else 0) + (if holds_modem (vl_conns s ! k) then 1 else 0)
         = (if vl_busy s then 1 else 0) + (if holds_modem c then 1 else (0::nat))
     \<and> (g \<longrightarrow> (if xara then vl_xara s' \<and> \<not> vc_switched c \<and> vc_phase c \<noteq> Switching
        else vl_xara s' \<longrightarrow> (vc_switched c \<and> vc_phase c \<noteq> Closed)
           \<or> (vl_xara s \<and> \<not> (vc_switched (vl_conns s ! k) \<and> vc_phase (vl_conns s ! k) \<noteq> Closed))))"

lemma list_ex_update:
  assumes "k < length xs" "P c \<or> (list_ex P xs \<and> \<not> P (xs ! k))"
  shows "list_ex P (xs[k := c])"
proof (cases "P c")
  case True
  with assms(1) show ?thesis by (auto simp: list_ex_length intro!: exI [of _ k])
next
  case False
  with assms(2) obtain j where "j < length xs" "P (xs ! j)" "j \<noteq> k" by (auto simp: list_ex_length)
  then show ?thesis by (auto simp: list_ex_length intro!: exI [of _ j])
qed

lemma list_all_update: "list_all P xs \<Longrightarrow> P c \<Longrightarrow> list_all P (xs[k := c])"
  by (auto simp: list_all_iff dest!: set_update_subset_insert [THEN subsetD])

lemma fits_ok:
  assumes "launcher_ok g xara s" "k < length (vl_conns s)" "fits g xara s k c s'"
  shows "launcher_ok g xara s'"
proof -
  note s = assms(1) [unfolded launcher_ok_def] and f = assms(3) [unfolded fits_def]
  have conns: "vl_conns s' = (vl_conns s)[k := c]" using f by simp
  have 1: "list_all conn_ok (vl_conns s')"
    unfolding conns using s f by (intro list_all_update) simp_all
  have 2: "length (filter holds_modem (vl_conns s')) = (if vl_busy s' then 1 else 0)"
    using filter_update [OF assms(2), of holds_modem c] s f unfolding conns by linarith
  have 3: "if xara then vl_xara s' \<and> list_all (\<lambda>c. \<not> vc_switched c \<and> vc_phase c \<noteq> Switching) (vl_conns s')
     else vl_xara s' \<longrightarrow> list_ex (\<lambda>c. vc_switched c \<and> vc_phase c \<noteq> Closed) (vl_conns s')" if g
  proof (cases xara)
    case True
    with s f \<open>g\<close> show ?thesis unfolding conns by (simp add: list_all_update)
  next
    case False
    with s f \<open>g\<close> show ?thesis unfolding conns
      by (simp del: de_Morgan_conj) (intro impI list_ex_update [OF assms(2)], blast)
  qed
  from 1 2 3 show ?thesis unfolding launcher_ok_def by blast
qed

lemma put_fits:
  assumes "conn_ok c'" "holds_modem c' = holds_modem (vl_conns s ! k)"
    and "vc_switched c' = vc_switched (vl_conns s ! k)"
    and "(vc_phase c' = Closed) = (vc_phase (vl_conns s ! k) = Closed)" "vc_phase c' \<noteq> Switching"
    and "launcher_ok g xara s" "k < length (vl_conns s)"
  shows "launcher_ok g xara (put_conn k c' s)"
proof (rule fits_ok [OF assms(6,7)])
  have "g \<and> xara \<longrightarrow> vl_xara s \<and> \<not> vc_switched (vl_conns s ! k)"
    using assms(6,7) by (auto simp: launcher_ok_def list_all_length)
  with assms show "fits g xara s k c' (put_conn k c' s)"
    by (auto simp: fits_def put_conn_def split: if_splits)
qed

lemma finish_ok:
  assumes "launcher_ok g xara s" "k < length (vl_conns s)" "vc_phase (vl_conns s ! k) \<notin> {Handing_back, Closed}"
    and "vc_session c = vc_session (vl_conns s ! k)" "vc_switched c = vc_switched (vl_conns s ! k)"
  shows "launcher_ok g xara (finish k c s)"
proof (rule fits_ok [OF assms(1,2)])
  let ?o = "vl_conns s ! k"
  have x: "g \<and> xara \<longrightarrow> vl_xara s \<and> \<not> vc_switched ?o" and ok: "conn_ok ?o"
    using assms(1,2) by (auto simp: launcher_ok_def list_all_length)
  have b: "vl_busy s" if "vc_session ?o"
  proof -
    from that assms(2,3) have "?o \<in> set (filter holds_modem (vl_conns s))" by (simp add: holds_modem_def)
    then have "length (filter holds_modem (vl_conns s)) \<noteq> 0" by (cases "filter holds_modem (vl_conns s)") auto
    with assms(1) show ?thesis by (auto simp: launcher_ok_def split: if_splits)
  qed
  show "fits g xara s k (c\<lparr>vc_phase := if vc_switched c then Handing_back else Closed\<rparr>) (finish k c s)"
    using x ok b assms(3-5)
    by (auto simp: fits_def finish_def put_conn_def conn_ok_def holds_modem_def split: if_splits vara_phase.splits)
qed

lemma start_ok:
  assumes "launcher_ok g xara s" "k < length (vl_conns s)" "vc_phase (vl_conns s ! k) = Reading"
  shows "launcher_ok g xara (start_command installed k (vl_conns s ! k) s)"
proof -
  let ?c = "vl_conns s ! k"
  have c: "conn_ok ?c" and x: "g \<and> xara \<longrightarrow> vl_xara s \<and> \<not> vc_switched ?c"
    using assms(1,2) by (auto simp: launcher_ok_def list_all_length)
  have said: "launcher_ok g xara (put_conn k (say t ?c) s)" for t
    using c assms by (intro put_fits) (auto simp: conn_ok_def holds_modem_def)
  have refused: "launcher_ok g xara (finish k (say t ?c) s)" for t
    using assms by (intro finish_ok) auto
  show ?thesis
  proof (cases "vc_session ?c \<or> vl_busy s \<or> \<not> installed")
    case True
    then show ?thesis using said refused by (auto simp: start_command_def)
  next
    case False
    then have f: "\<not> vc_session ?c" "\<not> vl_busy s" "\<not> vc_switched ?c"
      using c assms(3) by (auto simp: conn_ok_def)
    have "fits g xara s k c' (put_conn k c' (s\<lparr>vl_busy := True\<rparr>))"
      if "c' = ?c\<lparr>vc_session := True, vc_phase := Awaiting_port READY_POLLS\<rparr>
          \<or> (c' = ?c\<lparr>vc_session := True, vc_phase := Switching\<rparr> \<and> \<not> vl_xara s)" for c'
      using that f x c assms(3)
      by (auto simp: fits_def put_conn_def conn_ok_def holds_modem_def split: if_splits)
    moreover have "launcher_ok g xara (finish k (say t (?c\<lparr>vc_session := True\<rparr>)) (s\<lparr>vl_busy := True\<rparr>))" for t
      using f x c assms(3)
      by (intro fits_ok [OF assms(1,2), where c = "(say t (?c\<lparr>vc_session := True\<rparr>))\<lparr>vc_phase := Closed\<rparr>"])
        (auto simp: fits_def finish_def put_conn_def conn_ok_def holds_modem_def say_def split: if_splits)
    ultimately show ?thesis
      using f False by (auto simp: start_command_def Let_def intro!: fits_ok [OF assms(1,2)])
  qed
qed

lemma command_ok:
  assumes "launcher_ok g xara s" "k < length (vl_conns s)" "vc_phase (vl_conns s ! k) = Reading"
  shows "launcher_ok g xara (vara_command installed cmd k (vl_conns s ! k) s)"
proof -
  let ?c = "vl_conns s ! k"
  have c: "conn_ok ?c" using assms(1,2) by (auto simp: launcher_ok_def list_all_length)
  have "launcher_ok g xara (put_conn k (say t ?c) s)" for t
    using c assms by (intro put_fits) (auto simp: conn_ok_def holds_modem_def)
  moreover have "launcher_ok g xara (finish k (say t ?c) s)" for t
    using assms by (intro finish_ok) auto
  ultimately show ?thesis using start_ok [OF assms] by (simp add: vara_command_def Let_def)
qed

text \<open>Every step keeps the invariant; its part on the board (\<open>g\<close>) needs that no switch back fails.\<close>

lemma vara_step_ok:
  assumes "launcher_ok g xara s" "g \<longrightarrow> (\<forall>k. e \<noteq> Switched_back k False)"
  shows "launcher_ok g xara (vara_step e s)"
proof (cases e)
  case (Accepted i local)
  then show ?thesis using assms(1)
    by (auto simp: launcher_ok_def new_conn_def conn_ok_def holds_modem_def)
next
  case (Line k line installed)
  then show ?thesis using assms(1) by (auto simp: with_conn_def line_event_def intro: command_ok)
next
  case (Gone k)
  then show ?thesis using assms(1) by (auto simp: with_conn_def gone_event_def intro!: finish_ok)
next
  case (Port_poll k listening)
  {
    fix n assume k: "k < length (vl_conns s)" and n: "vc_phase (vl_conns s ! k) = Awaiting_port n"
    have "conn_ok (vl_conns s ! k)" using assms(1) k by (simp add: launcher_ok_def list_all_length)
    with n have "vc_session (vl_conns s ! k)" by (simp add: conn_ok_def)
    with assms(1) k n have "launcher_ok g xara (put_conn k (say ''OK'' ((vl_conns s ! k)\<lparr>vc_phase := Reading\<rparr>)) s)"
      "launcher_ok g xara (put_conn k ((vl_conns s ! k)\<lparr>vc_phase := Awaiting_port m\<rparr>) s)"
      "launcher_ok g xara (finish k (say t (vl_conns s ! k)) s)" for t m
      by (auto intro!: put_fits finish_ok simp: conn_ok_def holds_modem_def)
  }
  with Port_poll assms(1) show ?thesis by (auto simp: with_conn_def poll_event_def split: vara_phase.splits)
next
  case (Switched k ok out)
  {
    assume k: "k < length (vl_conns s)" and n: "vc_phase (vl_conns s ! k) = Switching"
    let ?c = "vl_conns s ! k"
    have c: "conn_ok ?c" and x: "\<not> (g \<and> xara)" using assms(1) k n by (auto simp: launcher_ok_def list_all_length split: if_splits)
    with n have "vc_session ?c" by (simp add: conn_ok_def)
    with k n x have "fits g xara s k (?c\<lparr>vc_switched := True, vc_phase := Awaiting_port READY_POLLS\<rparr>)
        (put_conn k (?c\<lparr>vc_switched := True, vc_phase := Awaiting_port READY_POLLS\<rparr>) (s\<lparr>vl_xara := True\<rparr>))"
      by (simp add: fits_def put_conn_def conn_ok_def holds_modem_def)
    then have "launcher_ok g xara
        (put_conn k (?c\<lparr>vc_switched := True, vc_phase := Awaiting_port READY_POLLS\<rparr>) (s\<lparr>vl_xara := True\<rparr>))"
      by (rule fits_ok [OF assms(1) k])
    moreover have "launcher_ok g xara (finish k (say t ?c) s)" for t
      using assms(1) k n by (auto intro!: finish_ok)
    ultimately have "launcher_ok g xara (switched_event k ok out ?c s)" using n by (simp add: switched_event_def)
  }
  with Switched assms(1) show ?thesis by (auto simp: with_conn_def switched_event_def)
next
  case (Switched_back k ok)
  {
    assume k: "k < length (vl_conns s)" and n: "vc_phase (vl_conns s ! k) = Handing_back"
    let ?c = "(vl_conns s ! k)\<lparr>vc_phase := Closed\<rparr>"
    have "vc_switched (vl_conns s ! k)" "g \<longrightarrow> \<not> xara"
      using assms(1) k n by (auto simp: launcher_ok_def list_all_length conn_ok_def split: if_splits)
    with assms(2) Switched_back n have "fits g xara s k ?c (put_conn k ?c (s\<lparr>vl_xara := (if ok then False else vl_xara s)\<rparr>))"
      by (simp add: fits_def put_conn_def conn_ok_def holds_modem_def)
    then have "launcher_ok g xara (back_event k ok (vl_conns s ! k) s)"
      using n fits_ok [OF assms(1) k] by (simp add: back_event_def)
  }
  with Switched_back assms(1) show ?thesis by (auto simp: with_conn_def back_event_def)
qed

lemma vara_fold_ok:
  "launcher_ok g xara s \<Longrightarrow> (g \<longrightarrow> (\<forall>k. Switched_back k False \<notin> set es)) \<Longrightarrow> launcher_ok g xara (fold vara_step es s)"
proof (induction es arbitrary: s)
  case (Cons e es)
  have "g \<longrightarrow> (\<forall>k. e \<noteq> Switched_back k False)" using Cons.prems(2) by auto
  with Cons show ?case by (simp add: vara_step_ok)
qed simp

lemma vara_run_ok: "(g \<longrightarrow> (\<forall>k. Switched_back k False \<notin> set es)) \<Longrightarrow> launcher_ok g xara (vara_run es xara)"
  unfolding vara_run_def by (rule vara_fold_ok) (simp_all add: launcher_ok_def)

text \<open>C19. However the connections of the VARA launcher interleave, and whatever the switching tool and the port
  table answer, at most one connection has the modem, and the launcher is busy exactly while one has: a
  second client is refused until the first is done, and no session leaves the launcher busy behind it.\<close>

theorem vara_one_session:
  "length (filter holds_modem (vl_conns (vara_run es xara))) = (if vl_busy (vara_run es xara) then 1 else 0)"
  using vara_run_ok [of False es xara] by (simp add: launcher_ok_def)

text \<open>C18. When every connection of the VARA launcher is over and no switch back has failed, the board is on the
  modem it was on before: a session that switched it to Xara has given it back to Dire Wolf, and a board that
  was on Xara already is never switched.\<close>

theorem vara_board_given_back:
  assumes "\<forall>k. Switched_back k False \<notin> set es"
    and "\<forall>c \<in> set (vl_conns (vara_run es xara)). vc_phase c = Closed"
  shows "vl_xara (vara_run es xara) = xara"
proof -
  have "launcher_ok True xara (vara_run es xara)" using assms(1) by (simp add: vara_run_ok)
  with assms(2) show ?thesis by (auto simp: launcher_ok_def list_ex_iff split: if_splits)
qed

definition one_visit :: "modem_info \<Rightarrow> vara_event list" where
  "one_visit i = [Accepted i False, Line 0 ''start FM'' True, Switched 0 True [], Port_poll 0 False, Port_poll 0 True, Gone 0,
     Switched_back 0 True]"

definition some_modem :: modem_info where
  "some_modem = \<lparr>vi_name = ''KP4PRA VARA FM'', vi_type = ''fm'', vi_port = 8300, vi_network = True, vi_auto_switch = True\<rparr>"

lemma one_visit_run: "vl_conns (vara_run (one_visit some_modem) False) =
    [\<lparr>vc_info = some_modem, vc_session = True, vc_switched = True, vc_phase = Closed, vc_replies = [''OK'' @ [NL]]\<rparr>]"
  by code_simp

theorem vara_board_given_back_witness:
  "vl_xara (vara_run (one_visit some_modem) False) = False"
proof (rule vara_board_given_back)
  show "\<forall>k. Switched_back k False \<notin> set (one_visit some_modem)" by (simp add: one_visit_def)
  show "\<forall>c \<in> set (vl_conns (vara_run (one_visit some_modem) False)). vc_phase c = Closed"
    by (simp add: one_visit_run)
qed

text \<open>The launcher is free again before the board is switched back, so that a client that starts in between is
  told OK on the old Xara, and then loses it.\<close>

lemma session_loses_modem:
  "let s = vara_run [Accepted some_modem False, Line 0 ''start FM'' True, Switched 0 True [], Port_poll 0 True,
       Accepted some_modem False, Line 0 ''stop'' True, Line 1 ''start FM'' True, Port_poll 1 True,
       Switched_back 0 True] False
   in holds_modem (vl_conns s ! 1) \<and> vc_replies (vl_conns s ! 1) = [''OK'' @ [NL]] \<and> \<not> vl_xara s"
  by code_simp

text \<open>The wait for the port is bounded: after the polls that are left, none of which finds it, the connection
  is at its end with an error, and the launcher is free.\<close>

lemma port_wait_gives_up:
  assumes "k < length (vl_conns s)" "vc_phase (vl_conns s ! k) = Awaiting_port n" "vc_session (vl_conns s ! k)" "0 < n"
  shows "let s' = fold vara_step (replicate n (Port_poll k False)) s
    in vc_phase (vl_conns s' ! k) \<in> {Handing_back, Closed} \<and> \<not> vl_busy s'"
  using assms
proof (induction n arbitrary: s)
  case (Suc n)
  show ?case
  proof (cases n)
    case 0
    with Suc.prems show ?thesis
      by (simp add: with_conn_def poll_event_def finish_def put_conn_def Let_def)
  next
    case (Suc m)
    let ?s = "vara_step (Port_poll k False) s"
    have "?s = put_conn k ((vl_conns s ! k)\<lparr>vc_phase := Awaiting_port n\<rparr>) s"
      using Suc.prems \<open>n = Suc m\<close> by (simp add: with_conn_def poll_event_def)
    with Suc.prems Suc.IH [of ?s] \<open>n = Suc m\<close> show ?thesis by (simp add: put_conn_def)
  qed
qed simp

text \<open>A modem that is not announced is announced by the next round, and an announcement whose settings changed or
  whose command died is replaced. One that could not start is not tried again: the key says it was.\<close>

lemma announce_from_nothing:
  "vi_network i \<Longrightarrow> an_procs (announce i True alive 2 \<lparr>an_key = None, an_procs = []\<rparr>) = publish_commands i"
  by (simp add: announce_def publish_commands_def Let_def)

lemma announce_replaced:
  "vi_network i \<Longrightarrow> an_key a \<noteq> Some (vi_name i, vi_type i, vi_port i) \<or> (an_procs a \<noteq> [] \<and> \<not> alive)
     \<Longrightarrow> an_procs (announce i True alive 2 a) = publish_commands i"
  by (auto simp: announce_def publish_commands_def Let_def)

lemma announce_not_tried_again:
  "vi_network i \<Longrightarrow>
     an_procs (announce i True alive 2 (announce i True True 0 \<lparr>an_key = None, an_procs = []\<rparr>)) = []"
  by (simp add: announce_def Let_def)

end
