(* ===== verification/Bridges.thy ===== *)
theory Bridges
  imports Kiss "HOL-Library.Sublist"
begin

text \<open>
  The two Bluetooth bridges to Dire Wolf's KISS port: the RFCOMM session (\<^verbatim>\<open>_handle_client\<close> of
  src/src/rfcomm/rfcomm_bridge.py), two threads that share a socket holder and a stop event, and the BLE
  bridge (\<^verbatim>\<open>run_ble_bridge\<close> of src/src/ble/ble_bridge.py), tasks around two bounded queues. A step is what a
  thread or task does between two waits; its label is what the outside did. Bytes that \<^verbatim>\<open>sendall\<close> accepted
  count as sent on that connection. \<open>rb_in\<close>, \<open>rb_dw_in\<close> record what was read, for the statements.
\<close>

section \<open>The RFCOMM session\<close>

record rfcomm =
  rb_stop :: bool
  rb_dw :: "nat option"
  rb_conns :: nat
  rb_held :: "bytes option"
  rb_r2d :: bool
  rb_d2r :: bool
  rb_to_dw :: "(nat \<times> bytes) list"
  rb_to_client :: "bytes list"
  rb_in :: "bytes list"
  rb_dw_in :: "bytes list"

definition rfcomm_start :: rfcomm where
  "rfcomm_start = \<lparr>rb_stop = False, rb_dw = Some 0, rb_conns = 1, rb_held = None, rb_r2d = True, rb_d2r = True,
     rb_to_dw = [], rb_to_client = [], rb_in = [], rb_dw_in = []\<rparr>"

text \<open>Empty data is a closed connection; a failed read is the same. \<open>Dw_data\<close> carries whether the phone takes it.\<close>

datatype rfcomm_event =
    Client_data bytes | Dw_send bool | Dw_data bytes bool | Dw_connected | Stop_signal | R2d_stops | D2r_stops

inductive rfcomm_step :: "rfcomm \<Rightarrow> rfcomm_event \<Rightarrow> rfcomm \<Rightarrow> bool" where
  client_data: "rb_r2d s \<Longrightarrow> rb_held s = None \<Longrightarrow> d \<noteq> [] \<Longrightarrow>
    rfcomm_step s (Client_data d) (s\<lparr>rb_held := Some d, rb_in := rb_in s @ [d]\<rparr>)"
| client_gone: "rb_r2d s \<Longrightarrow> rb_held s = None \<Longrightarrow>
    rfcomm_step s (Client_data []) (s\<lparr>rb_r2d := False, rb_stop := True\<rparr>)"
| dw_send: "rb_r2d s \<Longrightarrow> rb_held s = Some d \<Longrightarrow> rb_dw s = Some c \<Longrightarrow>
    rfcomm_step s (Dw_send True) (s\<lparr>rb_to_dw := rb_to_dw s @ [(c, d)], rb_held := None\<rparr>)"
| dw_send_fails: "rb_r2d s \<Longrightarrow> rb_held s = Some d \<Longrightarrow> rb_dw s = Some c \<Longrightarrow> rfcomm_step s (Dw_send False) s"
| dw_data: "rb_d2r s \<Longrightarrow> rb_dw s = Some c \<Longrightarrow> d \<noteq> [] \<Longrightarrow>
    rfcomm_step s (Dw_data d True) (s\<lparr>rb_to_client := rb_to_client s @ [d], rb_dw_in := rb_dw_in s @ [d]\<rparr>)"
| dw_data_fails: "rb_d2r s \<Longrightarrow> rb_dw s = Some c \<Longrightarrow> d \<noteq> [] \<Longrightarrow>
    rfcomm_step s (Dw_data d False) (s\<lparr>rb_stop := True, rb_d2r := False, rb_dw_in := rb_dw_in s @ [d]\<rparr>)"
| dw_gone: "rb_d2r s \<Longrightarrow> rb_dw s = Some c \<Longrightarrow>
    rfcomm_step s (Dw_data [] ok) (if rb_stop s then s\<lparr>rb_d2r := False\<rparr> else s\<lparr>rb_dw := None\<rparr>)"
| dw_connected: "rb_d2r s \<Longrightarrow> rb_dw s = None \<Longrightarrow> \<not> rb_stop s \<Longrightarrow>
    rfcomm_step s Dw_connected (s\<lparr>rb_dw := Some (rb_conns s), rb_conns := rb_conns s + 1\<rparr>)"
| stop_signal: "rfcomm_step s Stop_signal (s\<lparr>rb_stop := True\<rparr>)"
| r2d_stops: "rb_r2d s \<Longrightarrow> rb_stop s \<Longrightarrow> rfcomm_step s R2d_stops (s\<lparr>rb_r2d := False\<rparr>)"
| d2r_stops: "rb_d2r s \<Longrightarrow> rb_stop s \<Longrightarrow> rfcomm_step s D2r_stops (s\<lparr>rb_d2r := False\<rparr>)"

inductive_cases rfcomm_stepE: "rfcomm_step s e s'"

inductive rfcomm_run :: "rfcomm_event list \<Rightarrow> rfcomm \<Rightarrow> bool" where
  rfcomm_begin: "rfcomm_run [] rfcomm_start"
| rfcomm_next: "rfcomm_run es s \<Longrightarrow> rfcomm_step s e s' \<Longrightarrow> rfcomm_run (es @ [e]) s'"

text \<open>The events that end a session: they come from the phone or from the service manager.\<close>

fun ends_session :: "rfcomm_event \<Rightarrow> bool" where
  "ends_session (Client_data d) = (d = [])"
| "ends_session (Dw_data d ok) = (d \<noteq> [] \<and> \<not> ok)"
| "ends_session Stop_signal = True"
| "ends_session e = False"

section \<open>The BLE bridge\<close>

definition BLE_CHUNK_SIZE :: nat where "BLE_CHUNK_SIZE = 500"
definition QUEUE_MAX :: nat where "QUEUE_MAX = 256"

text \<open>\<open>bl_conn\<close>: the connection to Dire Wolf and whether its receiving task still runs.\<close>

record ble =
  bl_up :: "bytes list"
  bl_down :: "bytes list"
  bl_notify :: bool
  bl_conn :: "(nat \<times> bool) option"
  bl_conns :: nat
  bl_sent :: "(nat \<times> bytes) list"
  bl_notified :: "bytes list"

definition ble_start :: ble where
  "ble_start = \<lparr>bl_up = [], bl_down = [], bl_notify = False, bl_conn = None, bl_conns = 0, bl_sent = [], bl_notified = []\<rparr>"

definition put_nowait :: "bytes \<Rightarrow> bytes list \<Rightarrow> bytes list" where
  "put_nowait d q = (if length q < QUEUE_MAX then q @ [d] else q)"

definition write_value :: "bytes \<Rightarrow> ble \<Rightarrow> ble" where
  "write_value d s = s\<lparr>bl_up := put_nowait d (bl_up s)\<rparr>"

definition start_notify :: "ble \<Rightarrow> ble" where "start_notify s = s\<lparr>bl_notify := True\<rparr>"
definition stop_notify :: "ble \<Rightarrow> ble" where "stop_notify s = s\<lparr>bl_notify := False\<rparr>"

definition received :: "bytes \<Rightarrow> ble \<Rightarrow> ble" where
  "received d s = (if bl_notify s then s\<lparr>bl_down := fold put_nowait (chunks BLE_CHUNK_SIZE d) (bl_down s)\<rparr> else s)"

definition notify_next :: "ble \<Rightarrow> ble" where
  "notify_next s =
     (case bl_down s of [] \<Rightarrow> s
      | c # cs \<Rightarrow> s\<lparr>bl_down := cs, bl_notified := (if bl_notify s then bl_notified s @ [c] else bl_notified s)\<rparr>)"

datatype ble_event =
    Write_value bytes | Start_notify | Stop_notify | Connected | Received bytes | Eof_or_error | Send bool | Notify

text \<open>The receiving task ends at the end of the stream, and its companion in the same \<^verbatim>\<open>gather\<close> goes on: only
  an exception of the sending task leaves the \<^verbatim>\<open>gather\<close>, and what it held is gone with it.\<close>

inductive ble_step :: "ble \<Rightarrow> ble_event \<Rightarrow> ble \<Rightarrow> bool" where
  ble_write: "ble_step s (Write_value d) (write_value d s)"
| ble_on: "ble_step s Start_notify (start_notify s)"
| ble_off: "ble_step s Stop_notify (stop_notify s)"
| ble_connected: "bl_conn s = None \<Longrightarrow>
    ble_step s Connected (s\<lparr>bl_conn := Some (bl_conns s, True), bl_conns := bl_conns s + 1\<rparr>)"
| ble_received: "bl_conn s = Some (c, True) \<Longrightarrow> d \<noteq> [] \<Longrightarrow> ble_step s (Received d) (received d s)"
| ble_eof: "bl_conn s = Some (c, True) \<Longrightarrow> ble_step s Eof_or_error (s\<lparr>bl_conn := Some (c, False)\<rparr>)"
| ble_sent: "bl_conn s = Some (c, r) \<Longrightarrow> bl_up s = d # q \<Longrightarrow>
    ble_step s (Send True) (s\<lparr>bl_up := q, bl_sent := bl_sent s @ [(c, d)]\<rparr>)"
| ble_send_fails: "bl_conn s = Some (c, r) \<Longrightarrow> bl_up s = d # q \<Longrightarrow>
    ble_step s (Send False) (s\<lparr>bl_up := q, bl_conn := None\<rparr>)"
| ble_notify: "ble_step s Notify (notify_next s)"

inductive_cases ble_stepE: "ble_step s e s'"

inductive ble_run :: "ble \<Rightarrow> ble_event list \<Rightarrow> ble \<Rightarrow> bool" where
  ble_begin: "ble_run s [] s"
| ble_next: "ble_run s es s1 \<Longrightarrow> ble_step s1 e s2 \<Longrightarrow> ble_run s (es @ [e]) s2"

section \<open>Properties\<close>



text \<open>The queues and the notifications stay within their sizes, and the notifications are what was queued, in order.\<close>

lemma chunk_sizes: "0 < n \<Longrightarrow> list_all (\<lambda>c. length c \<le> n) (chunks n d)"
  by (induction n d rule: chunks.induct) (auto simp: chunks.simps)

lemma fold_put:
  "length q \<le> QUEUE_MAX \<Longrightarrow> length (fold put_nowait cs q) \<le> QUEUE_MAX"
  "list_all P cs \<Longrightarrow> list_all P q \<Longrightarrow> list_all P (fold put_nowait cs q)"
  by (induction cs arbitrary: q) (auto simp: put_nowait_def)

lemma ble_bounds:
  assumes "ble_run ble_start es s"
  shows "length (bl_up s) \<le> QUEUE_MAX \<and> length (bl_down s) \<le> QUEUE_MAX
    \<and> list_all (\<lambda>c. length c \<le> BLE_CHUNK_SIZE) (bl_down s @ bl_notified s)"
  using assms
proof (induction ble_start es s)
  case ble_begin
  then show ?case by (simp add: ble_start_def)
next
  case (ble_next es s1 e s2)
  from ble_next(3) show ?case
    by (cases rule: ble_stepE)
      (use ble_next(2) in \<open>auto simp: write_value_def put_nowait_def start_notify_def stop_notify_def received_def
         notify_next_def fold_put chunk_sizes BLE_CHUNK_SIZE_def split: list.splits\<close>)
qed

text \<open>C34. When Dire Wolf has closed its connection, the bridge does not connect again, and passes nothing on to
the phone, until a send of the phone's data fails: then those bytes are lost.\<close>

theorem ble_deaf_after_eof:
  assumes "ble_run s es s'" "bl_conn s = Some (c, False)" "list_all (\<lambda>e. e \<noteq> Send False) es"
  shows "bl_conn s' = Some (c, False) \<and> list_all (\<lambda>e. e \<noteq> Connected) es \<and> suffix (bl_down s') (bl_down s)"
  using assms
proof (induction s es s')
  case (ble_next s es s1 e s2)
  then have ih: "bl_conn s1 = Some (c, False)" "list_all (\<lambda>e. e \<noteq> Connected) es" "suffix (bl_down s1) (bl_down s)"
    and e: "e \<noteq> Send False" by auto
  from ble_next(2) show ?case
    by (cases rule: ble_stepE)
      (use ih e in \<open>auto simp: write_value_def start_notify_def stop_notify_def notify_next_def
         dest: suffix_ConsD split: list.splits\<close>)
qed auto

theorem ble_deaf_after_eof_witness:
  "let s = ble_start\<lparr>bl_conn := Some (0, False), bl_notify := True\<rparr> in
     \<exists>s'. ble_run s [Write_value [192], Send True] s' \<and> bl_conn s' = Some (0, False) \<and> suffix (bl_down s') []"
proof -
  let ?s = "ble_start\<lparr>bl_conn := Some (0, False), bl_notify := True\<rparr>"
  have "ble_run ?s [Write_value [192]] (write_value [192] ?s)"
    using ble_next [OF ble_begin ble_write, of ?s "[192]"] by simp
  from ble_next [OF this ble_sent [of _ 0 False "[192]" "[]"]]
  have r: "ble_run ?s [Write_value [192], Send True] ((write_value [192] ?s)\<lparr>bl_up := [], bl_sent := [(0, [192])]\<rparr>)"
    by (simp add: write_value_def put_nowait_def QUEUE_MAX_def ble_start_def)
  from ble_deaf_after_eof [OF r, of 0] r show ?thesis by (auto simp: Let_def ble_start_def)
qed

end
