(* ===== verification/Spec2Isabelle.thy ===== *)
theory Spec2Isabelle
  imports Rf_Rms Rf_Send Rms_Run Lzhuf Aprs_Session Aprs_Clock Modem_Conf Vara_Launch Bridges
begin

text \<open>
  A verification development of the KP4PRA TNC (Python, src/src/): an amateur-radio packet station on a small
  board. Around the Dire Wolf modem it runs a Winlink RMS gateway, a web page that composes and delivers
  Winlink mail, an APRS text chat, Bluetooth bridges for phones, a clock daemon, and the configuration and
  authentication that they share.

  \<^bold>\<open>How the parts interact.\<close> Every radio user speaks KISS to Dire Wolf: the gateway (rms/gateway.py), the RF
  mail driver (web/rfsend.py), the chat (web/aprs_transports.py) and the bridges (rfcomm/, ble/) use the framing
  of rms/ax25.py. The gateway logs in to the Winlink CMS (rms/cms.py) for the station that connects and relays
  bytes both ways. The mail page validates and queues a message (web/mailvalidate.py, web/mailqueue.py), a
  trustee approves it, and a delivery builds the Winlink message (web/mailbuilder.py), compresses it
  (web/lzhuf.py) and runs the B2F conversation (web/b2f.py, web/b2fsend.py) over the CMS or over an AX.25
  stream. A delivery by radio and a chat session stop the gateway service and start it again. web/web_app.py
  puts the routes behind the gate of web/auth.py and writes config.yaml through common/config_writer.py.

  \<^bold>\<open>Theories.\<close> The order is that of the imports.

  \<^item> \<^theory_text>\<open>Prelude\<close>, \<^theory_text>\<open>Py_Str\<close>, \<^theory_text>\<open>Py_Time\<close>: bytes, exceptions as values (\<^verbatim>\<open>'a result\<close>), slices, sequence numbers modulo 8;
    the string, integer and calendar functions of Python that the sources call, with their round trips.
  \<^item> \<^theory_text>\<open>Kiss\<close>, \<^theory_text>\<open>Ax25\<close> (rms/ax25.py): framing, callsign fields, frames. A frame and a KISS stream come back as they
    were made, however the stream is cut.
  \<^item> \<^theory_text>\<open>Arq\<close>: the interface \<^verbatim>\<open>arq_receiver\<close> (a receiver takes the expected number only) and \<^verbatim>\<open>arq_link\<close> (a sender and a
    receiver over a channel that may lose frames), on frame numbers that do not wrap. \<^theory_text>\<open>Rms_Gateway\<close>, \<^theory_text>\<open>Rf_Stream\<close> and
    \<^theory_text>\<open>Rf_Rms\<close> interpret them on the code's counters modulo 8.
  \<^item> \<^theory_text>\<open>Rms_Gateway\<close>, \<^theory_text>\<open>Rms_Run\<close>, \<^theory_text>\<open>Cms\<close> (rms/gateway.py, rms/cms.py): the handler of received frames (\<^verbatim>\<open>handle\<close>) and the
    relay task (\<^verbatim>\<open>relay_step\<close>) on the record \<^verbatim>\<open>gateway\<close>, the outer loops, the login. In-order data is forwarded once, other
    stations are locked out, the relay keeps the window of seven frames.
  \<^item> \<^theory_text>\<open>Rf_Stream\<close>, \<^theory_text>\<open>Rf_Rms\<close>, \<^theory_text>\<open>Rf_Send\<close> (web/rfsend.py): \<^verbatim>\<open>AX25Stream\<close> on the record \<^verbatim>\<open>rf_stream\<close>, both ends together, the
    delivery with its interlock. What the CMS gets is a prefix of what was sent, and all of it once the window is
    empty; the gateway service is started again on every way out.
  \<^item> \<^theory_text>\<open>Mail_Queue\<close>, \<^theory_text>\<open>Mail_Validate\<close>, \<^theory_text>\<open>Mail_Builder\<close>: the queue as an association list of files, the validation with
    \<^verbatim>\<open>textwrap\<close> written out, the message. \<^theory_text>\<open>B2f\<close>, \<^theory_text>\<open>B2f_Send\<close>: the protocol and its conversation over the interface
    \<^verbatim>\<open>transport\<close>, interpreted on the TCP session and on the AX.25 stream.
  \<^item> \<^theory_text>\<open>Lzhuf_Bits\<close>, \<^theory_text>\<open>Lzhuf_Crc\<close>, \<^theory_text>\<open>Lzhuf_Huff\<close>, \<^theory_text>\<open>Lzhuf_Reconst\<close>, \<^theory_text>\<open>Lzhuf_Tree\<close>, \<^theory_text>\<open>Lzhuf\<close> (web/lzhuf.py): the codec with its
    arrays, search trees and adaptive Huffman tree. The trees keep their invariants (\<^verbatim>\<open>huff_ok\<close>, \<^verbatim>\<open>forest\<close>), every loop stops,
    and decompression gives back what was compressed.
  \<^item> \<^theory_text>\<open>Aprs\<close>, \<^theory_text>\<open>Aprs_Chat\<close>, \<^theory_text>\<open>Aprs_Session\<close> (web/aprs.py, web/aprs_transports.py, web/aprschat.py, web/aprssession.py): messages
    and their two wires, the store with acknowledgements and retries, the life of a session.
  \<^item> \<^theory_text>\<open>Config\<close>, \<^theory_text>\<open>Config_Check\<close>, \<^theory_text>\<open>Auth\<close>, \<^theory_text>\<open>Web_Gate\<close> (common/config.py, common/config_writer.py, web/auth.py, web/web_app.py): the
    merge, the atomic save, every check of an update, tokens and passwords, the gate in front of the routes. What a
    validated save writes is a valid configuration again, and no request without a session passes a closed gate.
  \<^item> \<^theory_text>\<open>Web_Mail\<close>, \<^theory_text>\<open>Provision\<close> (web/web_app.py, common/fs_manager.py): the mail routes over the queue and the drivers, and the
    maintenance routes with their remounts and the reboot.
  \<^item> \<^theory_text>\<open>Aprs_Clock\<close> (aprs_clock.py): timestamps, AGW messages, the daemon as a state machine (\<^verbatim>\<open>clock_run\<close>).
  \<^item> \<^theory_text>\<open>Modem_Conf\<close> (common/dra_platform.py, common/direwolf_conf.py, common/xara_conf.py): the generated modem configurations.
  \<^item> \<^theory_text>\<open>Vara_Launch\<close> (vara_launcher.py): what is announced, and the server that lends the board to one client at a time
    and gives it back (\<^verbatim>\<open>vara_step\<close>).
  \<^item> \<^theory_text>\<open>Bridges\<close> (rfcomm/rfcomm_bridge.py, ble/ble_bridge.py): the threads and tasks as step relations.

  A class is a record, a method a definition that takes and returns it; \<^verbatim>\<open>('s, 'a) sx\<close> is a method that may raise
  after it has changed its object. A raise is \<^verbatim>\<open>Inl\<close>. What awaits is cut into steps at its suspension points, and a
  relation or a fold over the steps gives the interleavings. What the outside does (sockets, system tools, clocks,
  random bytes) is an argument: a list of reads, a record of answers, or the label of a step.

  \<^bold>\<open>Fuel and termination.\<close> No loop has a fuel bound that decides a result. Loops are recursions with a measure; a loop of
  the code that may run for ever is an \<^verbatim>\<open>option\<close> with None for not returning, and the theorems say when it returns:
  the loops of the Huffman tree and of the search trees under the invariants, the stream's send against a silent peer
  never (Rf_Stream.send_to_silent_peer), the retries of the chat within their count (Aprs_Chat.waiting_messages_settle).
  A read loop recurses on the list of what its reads return. The compressor is shown to return for every message, and
  to return a stream up to 3866 bytes: a longer input may reach a Huffman code of more than sixteen bits, where the code
  shifts by a negative number and raises.

  \<^bold>\<open>Parameters.\<close> MD5, HMAC-SHA256, scrypt, \<^verbatim>\<open>json.loads\<close>, the YAML reader and writer, Python's \<^verbatim>\<open>repr\<close> and its formatting and comparison of
  floats (\<^verbatim>\<open>pylib\<close>), and the validator of mail addresses are arguments of the definitions that use them. The conversation
  takes the compressor as an argument as well; \<^verbatim>\<open>Lzhuf.compress\<close> is the code's. What a theorem assumes of them is
  among its premises: that a written configuration is read back, that a token payload is parsed to its fields, that
  the text of a float has no line break.

  \<^bold>\<open>Conventions.\<close> Text is a list of characters below 256, read as Latin-1; the replacement character of a decoder is the
  character 255. \<^verbatim>\<open>upper\<close>, \<^verbatim>\<open>lower\<close>, \<^verbatim>\<open>isalnum\<close> and \<^verbatim>\<open>isdigit\<close> are those of ASCII unless the difference is used (the superscripts
  in \<^verbatim>\<open>py_isdigit\<close>). Times in floating point are rationals. Log lines, prints and the transcripts of the sessions are left
  out. Request bodies are the fields that a handler reads. The clock of a board is its local time in seconds, and the
  offset of its zone does not change within one operation, as in the code, where it is fixed by \<^verbatim>\<open>astimezone\<close>.

  \<^bold>\<open>Not modelled.\<close> Drawing and hardware access (tft/), D-Bus and the Bluetooth objects (common/bluez_manager.py and the
  registration in ble/ble_bridge.py; its class BLEKISSBridge is unused), the installers, launchers and shell scripts, the
  pages, status probes and the websocket of web_app.py, the texts of mail_i18n.py: they call libraries and system tools
  and hold no state of their own that a property could be about. APRS positions and beacons are computed and
  formatted in floating point, which would need the rounding of the C library. The transcript of the dry run
  (b2f.py, \<^verbatim>\<open>dry_run_cms\<close>) only prints what the modelled functions return.
\<close>

end
